(* ===== verification/Prelude.thy ===== *)
theory Prelude
  imports Main "HOL-Library.Word" "HOL-Library.AList" "HOL-Library.Multiset"
begin

text \<open>
  What every component shares: the machine types of the C++ code, the ways a call can end
  abnormally, and the few containers of the standard library that the code uses
  (\<open>std::unordered_map\<close>, \<open>std::unordered_set\<close>, \<open>std::lower_bound\<close> with
  \<open>vector::insert\<close>), each with the lemmas the component proofs rest on.

  An \<open>unordered_map\<close> that the code iterates over is an association list with distinct keys;
  the order of the list is the container's iteration order. The standard leaves that order
  open, so no property below depends on where an insertion puts a new key.
\<close>

section \<open>Types and faults\<close>

type_synonym u8 = "8 word"
type_synonym u16 = "16 word"
type_synonym u64 = "64 word"
type_synonym bytes = "u8 list"
type_synonym fd = int

text \<open>The \<open>assert\<close> statements of the library, one constructor per site.\<close>

datatype assertion =
    Fd_registered        \<comment> \<open>\<open>cit != mClients.end()\<close> in \<open>OnData\<close>, \<open>OnDisconnect\<close>\<close>
  | Seq_at_least_client  \<comment> \<open>\<open>msg.seq() >= client.seq\<close> in \<open>OnConnect\<close>\<close>
  | Seq_below_next       \<comment> \<open>\<open>msg.seq() < mNextSeq\<close> in \<open>Broadcast\<close>\<close>
  | Uid_nonzero          \<comment> \<open>\<open>msg.uid() != 0\<close> in \<open>AddOldMessage\<close>\<close>
  | Same_message         \<comment> \<open>\<open>*hit == msg\<close> in \<open>AddOldMessage\<close>\<close>
  | Node_id_matches      \<comment> \<open>\<open>it->second.id == nodeChange.id()\<close> in \<open>ApplyUpdate\<close>\<close>
  | Path_fits            \<comment> \<open>\<open>sockPath.size() + 1 < sizeof(addr.sun_path)\<close>, path not empty\<close>

datatype fault =
    Assertion_failed assertion
  | Null_dereference
  | Bad_function_call
  | Self_deadlock
  | Buffer_overflow
  | Invalid_pointer

type_synonym 'a res = "fault + 'a"

definition bind_res :: "'a res \<Rightarrow> ('a \<Rightarrow> 'b res) \<Rightarrow> 'b res" where
  "bind_res r f = (case r of Inl e \<Rightarrow> Inl e | Inr x \<Rightarrow> f x)"

definition assert_that :: "assertion \<Rightarrow> bool \<Rightarrow> 'a \<Rightarrow> 'a res" where
  "assert_that a b x = (if b then Inr x else Inl (Assertion_failed a))"

named_theorems res_simps \<open>evaluation of fallible calls\<close>

lemma bind_res_Inr [simp, res_simps]: "bind_res (Inr x) f = f x"
  by (simp add: bind_res_def)

lemma bind_res_Inl [simp, res_simps]: "bind_res (Inl e) f = Inl e"
  by (simp add: bind_res_def)

lemma bind_res_eq_Inr: "bind_res r f = Inr y \<longleftrightarrow> (\<exists>x. r = Inr x \<and> f x = Inr y)"
  by (auto simp: bind_res_def split: sum.splits)

lemma bind_res_eq_Inl:
  "bind_res r f = Inl e \<longleftrightarrow> r = Inl e \<or> (\<exists>x. r = Inr x \<and> f x = Inl e)"
  by (auto simp: bind_res_def split: sum.splits)

lemma bind_res_assoc [res_simps]:
  "bind_res (bind_res r f) g = bind_res r (\<lambda>x. bind_res (f x) g)"
  by (simp add: bind_res_def split: sum.splits)

lemma assert_that_simps [simp, res_simps]:
  "assert_that a True x = Inr x"
  "assert_that a False x = Inl (Assertion_failed a)"
  by (simp_all add: assert_that_def)

lemma assert_that_eq_Inr: "assert_that a b x = Inr y \<longleftrightarrow> b \<and> x = y"
  by (auto simp: assert_that_def)

lemma assert_that_eq_Inl: "assert_that a b x = Inl e \<longleftrightarrow> \<not> b \<and> e = Assertion_failed a"
  by (auto simp: assert_that_def)

lemmas res_cases = bind_res_eq_Inr bind_res_eq_Inl assert_that_eq_Inr assert_that_eq_Inl

text \<open>Incrementing a 64-bit counter that has room.\<close>

lemma unat_u64_inc: "unat (x :: u64) + 1 < 2 ^ 64 \<Longrightarrow> unat (x + 1) = unat x + 1"
  by (simp add: unat_word_ariths)

lemma u64_less_inc: "unat (x :: u64) + 1 < 2 ^ 64 \<Longrightarrow> x < x + 1"
  by (simp add: word_less_nat_alt unat_u64_inc)

lemma u64_less_pos: "a < (b :: u64) \<Longrightarrow> 0 < b"
  by (rule le_less_trans [OF word_zero_le])

subsection \<open>What a fallible call guarantees\<close>

text \<open>
  \<open>outcome T P r\<close>: the call either returns a value that satisfies \<open>P\<close> or ends in one of
  the faults \<open>T\<close>. With \<open>T\<close> empty this is total correctness.
\<close>

definition outcome :: "fault set \<Rightarrow> ('a \<Rightarrow> bool) \<Rightarrow> 'a res \<Rightarrow> bool" where
  "outcome T P r = (case r of Inl e \<Rightarrow> e \<in> T | Inr x \<Rightarrow> P x)"

lemma outcome_simps [simp]:
  "outcome T P (Inl e) \<longleftrightarrow> e \<in> T"
  "outcome T P (Inr x) \<longleftrightarrow> P x"
  by (simp_all add: outcome_def)

lemma outcome_bind:
  "outcome T P r \<Longrightarrow> (\<And>x. P x \<Longrightarrow> outcome T Q (f x)) \<Longrightarrow> outcome T Q (bind_res r f)"
  by (cases r) auto

lemma outcome_mono:
  "outcome T P r \<Longrightarrow> (\<And>x. P x \<Longrightarrow> Q x) \<Longrightarrow> outcome T Q r"
  by (cases r) auto

lemma outcome_total: "outcome {} P r \<longleftrightarrow> (\<exists>x. r = Inr x \<and> P x)"
  by (cases r) auto

lemma outcome_Inr: "outcome T P r \<Longrightarrow> r = Inr x \<Longrightarrow> P x"
  by simp

text \<open>A fallible operation run over a list of inputs, stopping at the first fault.\<close>

fun feed :: "('a \<Rightarrow> 'h \<Rightarrow> 'h res) \<Rightarrow> 'a list \<Rightarrow> 'h \<Rightarrow> 'h res" where
  "feed f [] h = Inr h"
| "feed f (b # bs) h = bind_res (f b h) (feed f bs)"

lemma feed_append: "feed f (xs @ ys) h = bind_res (feed f xs h) (feed f ys)"
  by (induction xs arbitrary: h) (simp, simp add: bind_res_def split: sum.splits)

lemma feed_map: "feed f (map g xs) h = feed (\<lambda>x. f (g x)) xs h"
  by (induction xs arbitrary: h) (simp, simp add: bind_res_def split: sum.splits)

section \<open>Containers\<close>

subsection \<open>\<open>unordered_map\<close>: \<open>find\<close>, \<open>emplace\<close>, \<open>erase\<close>\<close>

text \<open>
  \<open>emplace\<close> stores the value only where the key is new and reports whether it did;
  \<open>erase\<close> is \<open>AList.delete\<close>, \<open>find\<close> is \<open>map_of\<close>, writing through the returned
  iterator is \<open>AList.update\<close>.
\<close>

definition emplace :: "'k \<Rightarrow> 'v \<Rightarrow> ('k \<times> 'v) list \<Rightarrow> ('k \<times> 'v) list" where
  "emplace k v al = (case map_of al k of None \<Rightarrow> al @ [(k, v)] | Some _ \<Rightarrow> al)"

lemma map_of_emplace:
  "map_of (emplace k v al) = (case map_of al k of None \<Rightarrow> (map_of al)(k \<mapsto> v) | Some _ \<Rightarrow> map_of al)"
  by (auto simp: emplace_def fun_eq_iff map_add_def map_of_append split: option.splits)

lemma map_of_emplace_new: "map_of al k = None \<Longrightarrow> map_of (emplace k v al) = (map_of al)(k \<mapsto> v)"
  by (simp add: map_of_emplace)

lemma emplace_new: "map_of al k = None \<Longrightarrow> emplace k v al = al @ [(k, v)]"
  by (simp add: emplace_def)

lemma emplace_old: "map_of al k = Some w \<Longrightarrow> emplace k v al = al"
  by (simp add: emplace_def)

lemma fst_set_emplace [simp]: "fst ` set (emplace k v al) = insert k (fst ` set al)"
proof (cases "map_of al k")
  case None
  then show ?thesis by (auto simp: emplace_def)
next
  case (Some w)
  then have "k \<in> fst ` set al" by (metis domI dom_map_of_conv_image_fst)
  with Some show ?thesis by (auto simp: emplace_def)
qed

lemma distinct_emplace: "distinct (map fst al) \<Longrightarrow> distinct (map fst (emplace k v al))"
  by (auto simp: emplace_def map_of_eq_None_iff split: option.splits)

lemma update_new: "map_of al k = None \<Longrightarrow> AList.update k v al = al @ [(k, v)]"
  by (induction al) (auto split: if_splits)

lemma update_snoc: "map_of al k = None \<Longrightarrow> AList.update k v (al @ [(k, w)]) = al @ [(k, v)]"
  by (induction al) (auto split: if_splits)

text \<open>Writing through the iterator \<open>emplace\<close> returns is the same as \<open>m[k] = v\<close>.\<close>

lemma update_emplace [simp]: "AList.update k v (emplace k w al) = AList.update k v al"
  by (cases "map_of al k") (simp_all add: emplace_def update_snoc update_new)

lemma set_update_subset: "set (AList.update k v al) \<subseteq> insert (k, v) (set al)"
  by (induction al) auto

lemma list_all_update: "list_all P al \<Longrightarrow> P (k, v) \<Longrightarrow> list_all P (AList.update k v al)"
  by (induction al) auto

lemma list_all_delete: "list_all P al \<Longrightarrow> list_all P (AList.delete k al)"
  by (auto simp: list_all_iff AList.delete_eq)

lemma distinct_delete_keys: "distinct (map fst al) \<Longrightarrow> distinct (map fst (AList.delete k al))"
  by (simp add: AList.delete_eq distinct_map_filter)

subsection \<open>\<open>unordered_set\<close>: \<open>emplace\<close> and \<open>erase\<close>\<close>

definition set_emplace :: "'a \<Rightarrow> 'a list \<Rightarrow> 'a list" where
  "set_emplace x xs = (if x \<in> set xs then xs else xs @ [x])"

definition set_erase :: "'a \<Rightarrow> 'a list \<Rightarrow> 'a list" where
  "set_erase x xs = filter (\<lambda>y. y \<noteq> x) xs"

lemma set_set_emplace [simp]: "set (set_emplace x xs) = insert x (set xs)"
  by (auto simp: set_emplace_def)

lemma set_set_erase [simp]: "set (set_erase x xs) = set xs - {x}"
  by (auto simp: set_erase_def)

lemma distinct_set_emplace [simp]: "distinct (set_emplace x xs) = distinct xs"
  by (auto simp: set_emplace_def)

lemma distinct_set_erase [simp]: "distinct xs \<Longrightarrow> distinct (set_erase x xs)"
  by (simp add: set_erase_def)

subsection \<open>Optional elements\<close>

primrec opt_list :: "'a option \<Rightarrow> 'a list" where
  "opt_list None = []"
| "opt_list (Some x) = [x]"

lemma set_opt_list [simp]: "x \<in> set (opt_list y) \<longleftrightarrow> y = Some x"
  by (cases y) auto

subsection \<open>\<open>lower_bound\<close> and insertion into a vector\<close>

text \<open>
  \<open>std::lower_bound\<close> returns the first position whose element is not less than the value;
  its precondition is that the range is partitioned (here: sorted), which is what the
  invariants of the two users of it establish.
\<close>

definition lower_bound :: "('a \<Rightarrow> 'a \<Rightarrow> bool) \<Rightarrow> 'a list \<Rightarrow> 'a \<Rightarrow> nat" where
  "lower_bound lt xs x = length (takeWhile (\<lambda>y. lt y x) xs)"

definition vector_insert :: "nat \<Rightarrow> 'a \<Rightarrow> 'a list \<Rightarrow> 'a list" where
  "vector_insert i x xs = take i xs @ x # drop i xs"

lemma lower_bound_le: "lower_bound lt xs x \<le> length xs"
  by (simp add: lower_bound_def length_takeWhile_le)

lemma lower_bound_end_iff:
  "lower_bound lt xs x = length xs \<longleftrightarrow> (\<forall>y\<in>set xs. lt y x)"
  by (metis lower_bound_def length_takeWhile_le takeWhile_eq_all_conv
      takeWhile_eq_take take_all_iff order_refl)

lemma lower_bound_nth:
  "lower_bound lt xs x < length xs \<Longrightarrow> \<not> lt (xs ! lower_bound lt xs x) x"
  unfolding lower_bound_def by (rule nth_length_takeWhile)

lemma insert_lower_bound_eq:
  "vector_insert (lower_bound lt xs x) x xs =
     takeWhile (\<lambda>y. lt y x) xs @ x # dropWhile (\<lambda>y. lt y x) xs"
  by (simp add: vector_insert_def lower_bound_def takeWhile_eq_take [symmetric]
      dropWhile_eq_drop [symmetric])

lemma insert_lower_bound_end:
  "\<forall>y\<in>set xs. lt y x \<Longrightarrow> vector_insert (lower_bound lt xs x) x xs = xs @ [x]"
  by (simp add: lower_bound_end_iff [THEN iffD2] vector_insert_def)

lemma set_vector_insert: "i \<le> length xs \<Longrightarrow> set (vector_insert i x xs) = insert x (set xs)"
  by (metis Un_insert_right append_take_drop_id list.simps(15) set_append vector_insert_def)

lemma mset_insert_lower_bound:
  "mset (vector_insert (lower_bound lt xs x) x xs) = add_mset x (mset xs)"
  unfolding insert_lower_bound_eq
  by (metis mset.simps(2) mset_append takeWhile_dropWhile_id union_mset_add_mset_right)

lemma sorted_insert_lower_bound:
  fixes f :: "'a \<Rightarrow> 'b::linorder"
  assumes "sorted (map f xs)"
  shows "sorted (map f (vector_insert (lower_bound (\<lambda>a b. f a < f b) xs x) x xs))"
  unfolding insert_lower_bound_eq using assms
proof (induction xs)
  case Nil
  then show ?case by simp
next
  case (Cons y ys)
  then show ?case
    by (cases "f y < f x") (auto dest: set_takeWhileD set_dropWhileD order_trans)
qed

end
