(* ===== verification/Messages.thy ===== *)
theory Messages
  imports Prelude
begin

text \<open>
  The messages of \<open>protos/index.proto\<close> as the C++ code sees them: the two enumerations (open,
  as proto3 enumerations are), the records, the \<open>oneof op\<close> with its \<open>has_\<close>, getter and
  \<open>mutable_\<close> accessors, and the three \<open>operator==\<close> of \<open>lib/TopologyServer.cc\<close>.
\<close>

section \<open>Enumerations\<close>

datatype NodeOperation = NODE_UNSET | JOIN | LEAVE | NODE_OPERATION_OTHER int

datatype TopicOperation =
  TOPIC_UNSET | ANNOUNCE | RETRACT | SUBSCRIBE | UNSUBSCRIBE | TOPIC_OPERATION_OTHER int

section \<open>Records\<close>

record NodeChange =
  nc_id :: u64
  nc_op :: NodeOperation
  nc_name :: string
  nc_address :: string

record TopicChange =
  tc_name :: string
  tc_mime :: string
  tc_node_id :: u64
  tc_op :: TopicOperation
  tc_socket :: string

datatype oneof_op = OP_NOT_SET | Node_change NodeChange | Topic_change TopicChange

record TopologyMessage =
  seq :: u64
  uid :: u64
  msg_op :: oneof_op

record MetadataMessage =
  mm_topic :: string
  mm_inlined :: bytes

definition default_NodeChange :: NodeChange where
  "default_NodeChange = \<lparr>nc_id = 0, nc_op = NODE_UNSET, nc_name = [], nc_address = []\<rparr>"

definition default_TopicChange :: TopicChange where
  "default_TopicChange =
     \<lparr>tc_name = [], tc_mime = [], tc_node_id = 0, tc_op = TOPIC_UNSET, tc_socket = []\<rparr>"

definition default_TopologyMessage :: TopologyMessage where
  "default_TopologyMessage = \<lparr>seq = 0, uid = 0, msg_op = OP_NOT_SET\<rparr>"

section \<open>Accessors of the \<open>oneof\<close>\<close>

definition has_node_change :: "TopologyMessage \<Rightarrow> bool" where
  "has_node_change m = (case msg_op m of Node_change _ \<Rightarrow> True | _ \<Rightarrow> False)"

definition has_topic_change :: "TopologyMessage \<Rightarrow> bool" where
  "has_topic_change m = (case msg_op m of Topic_change _ \<Rightarrow> True | _ \<Rightarrow> False)"

definition node_change :: "TopologyMessage \<Rightarrow> NodeChange" where
  "node_change m = (case msg_op m of Node_change c \<Rightarrow> c | _ \<Rightarrow> default_NodeChange)"

definition topic_change :: "TopologyMessage \<Rightarrow> TopicChange" where
  "topic_change m = (case msg_op m of Topic_change c \<Rightarrow> c | _ \<Rightarrow> default_TopicChange)"

text \<open>
  \<open>mutable_x()\<close> returns the stored sub-message when the \<open>oneof\<close> holds an \<open>x\<close>, and
  otherwise replaces whatever it holds by a default \<open>x\<close>; \<open>f\<close> is the run of setters the
  caller performs on it.
\<close>

definition mutable_node_change ::
  "(NodeChange \<Rightarrow> NodeChange) \<Rightarrow> TopologyMessage \<Rightarrow> TopologyMessage" where
  "mutable_node_change f m = m\<lparr>msg_op := Node_change (f (node_change m))\<rparr>"

definition mutable_topic_change ::
  "(TopicChange \<Rightarrow> TopicChange) \<Rightarrow> TopologyMessage \<Rightarrow> TopologyMessage" where
  "mutable_topic_change f m = m\<lparr>msg_op := Topic_change (f (topic_change m))\<rparr>"

lemmas oneof_defs = has_node_change_def has_topic_change_def node_change_def topic_change_def

lemma oneof_exhaust:
  obtains (none) "msg_op m = OP_NOT_SET" "\<not> has_node_change m" "\<not> has_topic_change m"
  | (node) "msg_op m = Node_change (node_change m)" "has_node_change m" "\<not> has_topic_change m"
  | (topic) "msg_op m = Topic_change (topic_change m)" "\<not> has_node_change m" "has_topic_change m"
  by (cases "msg_op m") (auto simp: oneof_defs)

section \<open>Whole messages\<close>

text \<open>A message with each of its fields given, to write concrete logs.\<close>

definition node_msg :: "u64 \<Rightarrow> u64 \<Rightarrow> NodeOperation \<Rightarrow> u64 \<Rightarrow> string \<Rightarrow> string \<Rightarrow> TopologyMessage" where
  "node_msg s u operation i name address = \<lparr>seq = s, uid = u, msg_op = Node_change
     \<lparr>nc_id = i, nc_op = operation, nc_name = name, nc_address = address\<rparr>\<rparr>"

definition topic_msg :: "u64 \<Rightarrow> u64 \<Rightarrow> TopicOperation \<Rightarrow> u64 \<Rightarrow> string \<Rightarrow> string \<Rightarrow> TopologyMessage" where
  "topic_msg s u operation i topic mime = \<lparr>seq = s, uid = u, msg_op = Topic_change
     \<lparr>tc_name = topic, tc_mime = mime, tc_node_id = i, tc_op = operation, tc_socket = []\<rparr>\<rparr>"

lemma node_msg_simps [simp]:
  "seq (node_msg s u p i nm ad) = s" "uid (node_msg s u p i nm ad) = u"
  "has_node_change (node_msg s u p i nm ad)" "\<not> has_topic_change (node_msg s u p i nm ad)"
  "node_change (node_msg s u p i nm ad) = \<lparr>nc_id = i, nc_op = p, nc_name = nm, nc_address = ad\<rparr>"
  "msg_op (node_msg s u p i nm ad) = Node_change \<lparr>nc_id = i, nc_op = p, nc_name = nm, nc_address = ad\<rparr>"
  by (simp_all add: node_msg_def oneof_defs)

lemma topic_msg_simps [simp]:
  "seq (topic_msg s u p i t mime) = s" "uid (topic_msg s u p i t mime) = u"
  "\<not> has_node_change (topic_msg s u p i t mime)" "has_topic_change (topic_msg s u p i t mime)"
  "topic_change (topic_msg s u p i t mime) =
     \<lparr>tc_name = t, tc_mime = mime, tc_node_id = i, tc_op = p, tc_socket = []\<rparr>"
  "msg_op (topic_msg s u p i t mime) = Topic_change
     \<lparr>tc_name = t, tc_mime = mime, tc_node_id = i, tc_op = p, tc_socket = []\<rparr>"
  by (simp_all add: topic_msg_def oneof_defs)

lemma restamp_simps [simp]:
  "node_msg s u p i nm ad\<lparr>seq := s', uid := u'\<rparr> = node_msg s' u' p i nm ad"
  "topic_msg s u q i t mime\<lparr>seq := s', uid := u'\<rparr> = topic_msg s' u' q i t mime"
  by (simp_all add: node_msg_def topic_msg_def)

section \<open>Equality operators\<close>

definition NodeChange_eq :: "NodeChange \<Rightarrow> NodeChange \<Rightarrow> bool" where
  "NodeChange_eq lhs rhs \<longleftrightarrow>
     nc_id lhs = nc_id rhs \<and> nc_op lhs = nc_op rhs \<and> nc_name lhs = nc_name rhs \<and>
     nc_address lhs = nc_address rhs"

definition TopicChange_eq :: "TopicChange \<Rightarrow> TopicChange \<Rightarrow> bool" where
  "TopicChange_eq lhs rhs \<longleftrightarrow>
     tc_name lhs = tc_name rhs \<and> tc_mime lhs = tc_mime rhs \<and> tc_node_id lhs = tc_node_id rhs \<and>
     tc_op lhs = tc_op rhs \<and> tc_socket lhs = tc_socket rhs"

definition TopologyMessage_eq :: "TopologyMessage \<Rightarrow> TopologyMessage \<Rightarrow> bool" where
  "TopologyMessage_eq lhs rhs \<longleftrightarrow>
     seq lhs = seq rhs \<and> uid lhs = uid rhs \<and>
     has_node_change lhs = has_node_change rhs \<and>
     has_topic_change lhs = has_topic_change rhs \<and>
     (has_node_change lhs \<and> NodeChange_eq (node_change lhs) (node_change rhs) \<or>
      has_topic_change lhs \<and> TopicChange_eq (topic_change lhs) (topic_change rhs))"

lemma NodeChange_eq_iff [simp]: "NodeChange_eq a b \<longleftrightarrow> a = b"
  by (auto simp: NodeChange_eq_def)

lemma TopicChange_eq_iff [simp]: "TopicChange_eq a b \<longleftrightarrow> a = b"
  by (auto simp: TopicChange_eq_def)

lemma TopologyMessage_eq_iff:
  "TopologyMessage_eq a b \<longleftrightarrow> a = b \<and> msg_op a \<noteq> OP_NOT_SET"
  by (cases a, cases b) (auto simp: TopologyMessage_eq_def oneof_defs split: oneof_op.splits)

end
