(* ===== verification/TopologyView.thy ===== *)
theory TopologyView
  imports Messages
begin

text \<open>
  The abstract specification of the topology: what a list of topology messages, applied in
  order, says about each node. The hub keeps such a list, every client receives one, and
  each \<open>TopologyManager\<close> maintains a table of nodes from it; the refinement lemmas of those
  components are stated against \<open>topology\<close>.

  The locale \<open>keyed_log\<close> is the interface the hub relies on when it shortens its list:
  each message changes the entry of one key only, some messages close an entry, and only
  opening messages revive a closed one. It is interpreted on the topology below.
\<close>

section \<open>Logs of keyed messages\<close>

definition keyed_step ::
  "('m \<Rightarrow> 'k option) \<Rightarrow> ('m \<Rightarrow> 'v option \<Rightarrow> 'v option) \<Rightarrow> 'm \<Rightarrow> ('k \<rightharpoonup> 'v) \<Rightarrow> ('k \<rightharpoonup> 'v)" where
  "keyed_step key cell m V = (case key m of None \<Rightarrow> V | Some k \<Rightarrow> V(k := cell m (V k)))"

definition keyed_run ::
  "('m \<Rightarrow> 'k option) \<Rightarrow> ('m \<Rightarrow> 'v option \<Rightarrow> 'v option) \<Rightarrow> 'm list \<Rightarrow> ('k \<rightharpoonup> 'v) \<Rightarrow> ('k \<rightharpoonup> 'v)" where
  "keyed_run key cell ms V = fold (keyed_step key cell) ms V"

fun no_reopen ::
  "('m \<Rightarrow> 'k option) \<Rightarrow> ('m \<Rightarrow> bool) \<Rightarrow> ('m \<Rightarrow> bool) \<Rightarrow> 'm list \<Rightarrow> bool" where
  "no_reopen key opens closes [] = True"
| "no_reopen key opens closes (m # ms) =
     ((closes m \<longrightarrow> (\<forall>m'\<in>set ms. key m' = key m \<longrightarrow> \<not> opens m')) \<and>
      no_reopen key opens closes ms)"

lemma keyed_run_simps [simp]:
  "keyed_run key cell [] V = V"
  "keyed_run key cell (m # ms) V = keyed_run key cell ms (keyed_step key cell m V)"
  "keyed_run key cell (ms @ ns) V = keyed_run key cell ns (keyed_run key cell ms V)"
  by (simp_all add: keyed_run_def)

lemma keyed_run_at:
  "keyed_run key cell ms V k = fold cell (filter (\<lambda>m. key m = Some k) ms) (V k)"
  by (induction ms arbitrary: V) (auto simp: keyed_step_def split: option.splits)

lemma no_reopen_append_Cons:
  "no_reopen key opens closes (xs @ m # ys) \<Longrightarrow> closes m \<Longrightarrow> m' \<in> set ys \<Longrightarrow>
   key m' = key m \<Longrightarrow> \<not> opens m'"
  by (induction xs) auto

locale keyed_log =
  fixes key :: "'m \<Rightarrow> 'k option"
    and cell :: "'m \<Rightarrow> 'v option \<Rightarrow> 'v option"
    and opens :: "'m \<Rightarrow> bool"
    and closes :: "'m \<Rightarrow> bool"
  assumes closes_cell: "closes m \<Longrightarrow> cell m v = None"
    and closed_stays: "\<not> opens m \<Longrightarrow> cell m None = None"
begin

lemma fold_closed: "\<forall>m\<in>set ms. \<not> opens m \<Longrightarrow> fold cell ms None = None"
  by (induction ms) (auto simp: closed_stays)

lemma closed_entry:
  assumes "closes c" "key c = Some k" "\<forall>m\<in>set ys. key m = Some k \<longrightarrow> \<not> opens m"
  shows "keyed_run key cell (xs @ c # ys) V k = None"
  using assms by (simp add: keyed_run_at keyed_step_def closes_cell fold_closed)

lemma run_filter:
  assumes kept: "\<And>m. m \<in> set ms \<Longrightarrow> closes m \<Longrightarrow> keep m"
    and dropped: "\<And>m. m \<in> set ms \<Longrightarrow> \<not> keep m \<Longrightarrow>
      \<exists>k c. key m = Some k \<and> c \<in> set ms \<and> closes c \<and> key c = Some k"
    and order: "no_reopen key opens closes ms"
  shows "keyed_run key cell (filter keep ms) V = keyed_run key cell ms V"
proof
  fix k
  show "keyed_run key cell (filter keep ms) V k = keyed_run key cell ms V k"
  proof (cases "\<exists>c\<in>set ms. closes c \<and> key c = Some k")
    case False
    with dropped have "filter (\<lambda>m. key m = Some k) (filter keep ms) = filter (\<lambda>m. key m = Some k) ms"
      by (fastforce intro: filter_cong)
    then show ?thesis by (simp add: keyed_run_at)
  next
    case True
    then obtain c xs ys where c: "closes c" "key c = Some k" and ms: "ms = xs @ c # ys"
      by (meson split_list)
    with order have ys: "\<forall>m\<in>set ys. key m = Some k \<longrightarrow> \<not> opens m"
      by (metis no_reopen_append_Cons)
    with c have "keyed_run key cell ms V k = None"
      unfolding ms by (blast intro: closed_entry)
    moreover from kept c ms have "filter keep ms = filter keep xs @ c # filter keep ys" by simp
    with c ys have "keyed_run key cell (filter keep ms) V k = None"
      by (simp only:) (rule closed_entry, auto)
    ultimately show ?thesis by simp
  qed
qed

end

section \<open>The topology\<close>

record node_view =
  nv_name :: string
  nv_address :: string
  nv_pubs :: "string \<rightharpoonup> string"
  nv_subs :: "string set"

type_synonym topology = "u64 \<rightharpoonup> node_view"

definition msg_key :: "TopologyMessage \<Rightarrow> u64 option" where
  "msg_key m = (case msg_op m of
      OP_NOT_SET \<Rightarrow> None
    | Node_change c \<Rightarrow> Some (nc_id c)
    | Topic_change c \<Rightarrow> Some (tc_node_id c))"

definition joins :: "TopologyMessage \<Rightarrow> bool" where
  "joins m \<longleftrightarrow> has_node_change m \<and> nc_op (node_change m) = JOIN"

definition leaves :: "TopologyMessage \<Rightarrow> bool" where
  "leaves m \<longleftrightarrow> has_node_change m \<and> nc_op (node_change m) = LEAVE"

fun node_cell :: "NodeChange \<Rightarrow> node_view option \<Rightarrow> node_view option" where
  "node_cell c v = (case nc_op c of
      JOIN \<Rightarrow> (case v of
          None \<Rightarrow> Some \<lparr>nv_name = nc_name c, nv_address = nc_address c,
                        nv_pubs = Map.empty, nv_subs = {}\<rparr>
        | Some _ \<Rightarrow> v)
    | LEAVE \<Rightarrow> None
    | _ \<Rightarrow> v)"

fun topic_cell :: "TopicChange \<Rightarrow> node_view \<Rightarrow> node_view" where
  "topic_cell c v = (case tc_op c of
      ANNOUNCE \<Rightarrow> v\<lparr>nv_pubs := (nv_pubs v)(tc_name c \<mapsto> tc_mime c)\<rparr>
    | RETRACT \<Rightarrow> v\<lparr>nv_pubs := (nv_pubs v)(tc_name c := None)\<rparr>
    | SUBSCRIBE \<Rightarrow> v\<lparr>nv_subs := insert (tc_name c) (nv_subs v)\<rparr>
    | UNSUBSCRIBE \<Rightarrow> v\<lparr>nv_subs := nv_subs v - {tc_name c}\<rparr>
    | _ \<Rightarrow> v)"

definition topology_cell :: "TopologyMessage \<Rightarrow> node_view option \<Rightarrow> node_view option" where
  "topology_cell m v = (case msg_op m of
      OP_NOT_SET \<Rightarrow> v
    | Node_change c \<Rightarrow> node_cell c v
    | Topic_change c \<Rightarrow> map_option (topic_cell c) v)"

definition topology_step :: "TopologyMessage \<Rightarrow> topology \<Rightarrow> topology" where
  "topology_step = keyed_step msg_key topology_cell"

definition topology :: "TopologyMessage list \<Rightarrow> topology" where
  "topology ms = keyed_run msg_key topology_cell ms Map.empty"

interpretation topo: keyed_log msg_key topology_cell joins leaves
  by unfold_locales
    (auto simp: topology_cell_def joins_def leaves_def oneof_defs
      split: oneof_op.splits NodeOperation.splits)

lemma topology_Nil [simp]: "topology [] = Map.empty"
  by (simp add: topology_def)

lemma topology_snoc [simp]: "topology (ms @ [m]) = topology_step m (topology ms)"
  by (simp add: topology_def topology_step_def)

lemma topology_append: "topology (ms @ ns) = fold topology_step ns (topology ms)"
  by (simp add: topology_def topology_step_def keyed_run_def)

text \<open>The log up to the last message of a node fixes what is known of it.\<close>

lemma topology_left:
  assumes "leaves m" "msg_key m = Some n"
    and "\<forall>m'\<in>set ys. msg_key m' = Some n \<longrightarrow> \<not> joins m'"
  shows "topology (xs @ m # ys) n = None"
  unfolding topology_def using assms by (rule topo.closed_entry)

lemma topology_other_key:
  "msg_key m \<noteq> Some n \<Longrightarrow> topology_step m V n = V n"
  by (auto simp: topology_step_def keyed_step_def split: option.splits)

lemma topology_step_at:
  "msg_key m = Some n \<Longrightarrow> topology_step m V n = topology_cell m (V n)"
  by (simp add: topology_step_def keyed_step_def)

end
