(* ===== verification/Posix.thy ===== *)
theory Posix
  imports Prelude
begin

text \<open>
  The parts of the operating system interface the library uses, as far as its own code
  depends on them: the \<open>poll\<close> event bits, reading one record of a message-oriented socket
  into a buffer, the \<open>eventfd\<close> counter behind \<open>Shutdown\<close> and \<open>Wait\<close>, and the
  \<open>sockaddr_un\<close> path buffer.
\<close>

unbundle bit_operations_syntax

section \<open>\<open>poll\<close> and \<open>read\<close>\<close>

definition POLLIN :: u16 where "POLLIN = 0x01"
definition POLLERR :: u16 where "POLLERR = 0x08"
definition POLLHUP :: u16 where "POLLHUP = 0x10"
definition POLLNVAL :: u16 where "POLLNVAL = 0x20"

definition has_flag :: "u16 \<Rightarrow> u16 \<Rightarrow> bool" where
  "has_flag revents flag \<longleftrightarrow> revents AND flag \<noteq> 0"

lemmas poll_flag_defs = POLLIN_def POLLERR_def POLLHUP_def POLLNVAL_def has_flag_def

lemma has_flag_zero [simp]: "\<not> has_flag 0 flag"
  by (simp add: has_flag_def)

lemma has_flag_POLLIN [simp]:
  "has_flag POLLIN POLLIN" "\<not> has_flag POLLIN POLLERR" "\<not> has_flag POLLIN POLLHUP"
  "\<not> has_flag POLLIN POLLNVAL"
  "POLLIN \<noteq> 0"
  by (simp_all add: poll_flag_defs)

text \<open>
  A \<open>read\<close> from a \<open>SOCK_SEQPACKET\<close> or \<open>SOCK_DGRAM\<close> socket takes one record and drops
  what does not fit the buffer; the code's buffers have \<open>UINT16_MAX\<close> bytes.
\<close>

definition UINT16_MAX :: nat where "UINT16_MAX = 65535"

datatype read_result = Read_error | Read_record bytes

definition read_into :: "nat \<Rightarrow> bytes \<Rightarrow> bytes" where
  "read_into buffer_size r = take buffer_size r"

lemma length_read_into [simp]: "length (read_into n r) = min n (length r)"
  by (simp add: read_into_def min.commute)

lemma read_into_fits [simp]: "length r \<le> n \<Longrightarrow> read_into n r = r"
  by (simp add: read_into_def)

section \<open>\<open>eventfd\<close>\<close>

text \<open>
  The counter of an \<open>eventfd\<close> holds at most \<open>2 ^ 64 - 2\<close>; a \<open>write\<close> that would exceed it
  blocks (\<open>None\<close>). The descriptor polls readable while the counter is positive, and polling
  does not change it; a \<open>read\<close> in \<open>EFD_SEMAPHORE\<close> mode takes one and blocks at zero.
\<close>

definition eventfd_max :: nat where "eventfd_max = 2 ^ 64 - 2"

definition UINT32_MAX :: nat where "UINT32_MAX = 2 ^ 32 - 1"

definition eventfd_write :: "nat \<Rightarrow> nat \<Rightarrow> nat option" where
  "eventfd_write v n = (if n + v \<le> eventfd_max then Some (n + v) else None)"

definition eventfd_readable :: "nat \<Rightarrow> bool" where
  "eventfd_readable n \<longleftrightarrow> 0 < n"

fun eventfd_read :: "nat \<Rightarrow> nat option" where
  "eventfd_read 0 = None"
| "eventfd_read (Suc n) = Some n"

lemma eventfd_read_positive: "0 < n \<Longrightarrow> eventfd_read n \<noteq> None"
  by (cases n) simp_all

section \<open>Socket addresses\<close>

text \<open>
  \<open>sun_path\<close> has 108 characters. \<open>copy_path\<close> is \<open>std::copy\<close> to its start, which runs
  past the end of the buffer when the source is longer.
\<close>

definition sun_path_size :: nat where "sun_path_size = 108"

definition NUL :: char where "NUL = CHR 0x00"

definition zero_path :: string where "zero_path = replicate sun_path_size NUL"

definition copy_path :: "string \<Rightarrow> string \<Rightarrow> string res" where
  "copy_path src dst =
     (if length src \<le> length dst then Inr (src @ drop (length src) dst) else Inl Buffer_overflow)"

lemma length_zero_path [simp]: "length zero_path = sun_path_size"
  by (simp add: zero_path_def)

lemma copy_path_fits:
  "length src \<le> length dst \<Longrightarrow> copy_path src dst = Inr (src @ drop (length src) dst)"
  by (simp add: copy_path_def)

lemma copy_zero_path:
  "length src \<le> sun_path_size \<Longrightarrow>
   copy_path src zero_path = Inr (src @ replicate (sun_path_size - length src) NUL)"
  by (simp add: copy_path_def zero_path_def)

text \<open>
  The address that \<open>UDSServer::Create\<close> binds and \<open>UDSClient::Create\<close> connects to: the
  two functions build it with the same statements.
\<close>

definition Create_address :: "string \<Rightarrow> string res" where
  "Create_address sockPath =
     bind_res (assert_that Path_fits (sockPath \<noteq> []) ()) (\<lambda>_.
     bind_res (assert_that Path_fits (length sockPath + 1 < sun_path_size) ()) (\<lambda>_.
     bind_res (copy_path sockPath zero_path) (\<lambda>p.
     Inr (p[length sockPath := NUL]))))"

lemma Create_address_Inr:
  assumes "sockPath \<noteq> []" "length sockPath + 1 < sun_path_size"
  shows "Create_address sockPath =
    Inr (sockPath @ replicate (sun_path_size - length sockPath) NUL)"
proof -
  have "(sockPath @ replicate (sun_path_size - length sockPath) NUL)[length sockPath := NUL] =
      sockPath @ replicate (sun_path_size - length sockPath) NUL"
    by (rule nth_equalityI) (auto simp: nth_list_update nth_append)
  with assms show ?thesis by (simp add: Create_address_def copy_zero_path)
qed


text \<open>The results of the system calls the two \<open>Create\<close> functions make, in order.\<close>

record create_results =
  cr_socket :: int
  cr_attach :: int    \<comment> \<open>\<open>bind\<close> in the server, \<open>connect\<close> in the client\<close>
  cr_listen :: int    \<comment> \<open>server only\<close>
  cr_eventfd :: int

end
