(* ===== verification/UDSServer.thy ===== *)
theory UDSServer
  imports Posix
begin

text \<open>
  \<open>lib/UDSServer.h\<close> and \<open>lib/UDSServer.cc\<close>: the listening side of the library's
  connections. The state is the object's fields together with the descriptors the kernel
  holds open for it; one loop iteration is a function of what \<open>poll\<close>, \<open>accept\<close> and
  \<open>read\<close> return in it. The three handlers act on a state \<open>'h\<close> of their owner.

  The locale \<open>uds_handlers\<close> is the contract between the loop and its owner; the theorems
  about the loop are proved in it and the owner (\<open>TopologyServer\<close>) interprets it.
\<close>

section \<open>State\<close>

record UDSServer =
  us_clients :: "fd list"     \<comment> \<open>\<open>mClients\<close>, in iteration order\<close>
  us_listenFd :: int
  us_shutdownFd :: int
  us_event :: nat             \<comment> \<open>counter of the \<open>eventfd\<close> behind \<open>mShutdownFd\<close>\<close>
  us_open :: "fd list"        \<comment> \<open>accepted descriptors nobody has closed\<close>

record 'h uds_callbacks =
  onConnect :: "(fd \<Rightarrow> 'h \<Rightarrow> 'h res) option"
  onDisconnect :: "(fd \<Rightarrow> 'h \<Rightarrow> 'h res) option"
  onData :: "(fd \<Rightarrow> bytes \<Rightarrow> 'h \<Rightarrow> 'h res) option"

datatype poll_outcome = Poll_failed | Poll_ready u16 u16 "(fd \<times> u16) list"

record uds_iteration =
  it_poll :: poll_outcome               \<comment> \<open>\<open>revents\<close> of shutdown, listener and clients\<close>
  it_accept :: int                      \<comment> \<open>result of \<open>accept\<close>, \<open>-1\<close> on error\<close>
  it_records :: "(fd \<times> bytes) list"     \<comment> \<open>the record \<open>read\<close> takes; none: \<open>read\<close> fails\<close>

datatype loop_status = Running | Exited

definition UDSServer_init :: "int \<Rightarrow> int \<Rightarrow> UDSServer" where
  "UDSServer_init sockFd shutFd =
     \<lparr>us_clients = [], us_listenFd = sockFd, us_shutdownFd = shutFd, us_event = 0,
      us_open = []\<rparr>"

section \<open>\<open>Create\<close>, \<open>Shutdown\<close> and \<open>Wait\<close>\<close>

text \<open>
  \<open>Create\<close> returns the object, or nothing, and the descriptors it leaves open that no object
  owns.
\<close>

definition UDSServer_Create :: "string \<Rightarrow> create_results \<Rightarrow> (UDSServer option \<times> fd list) res" where
  "UDSServer_Create sockPath r =
     bind_res (Create_address sockPath) (\<lambda>addr.
     let sockFd = cr_socket r in
     if sockFd = -1 then Inr (None, [])
     else
       let opened = [sockFd] in
       if cr_attach r = -1 then Inr (None, removeAll sockFd opened)
       else if cr_listen r = -1 then Inr (None, removeAll sockFd opened)
       else if cr_eventfd r = -1 then Inr (None, opened)
       else Inr (Some (UDSServer_init sockFd (cr_eventfd r)), []))"

definition server_Shutdown :: "UDSServer \<Rightarrow> UDSServer option" where
  "server_Shutdown s =
     (if us_shutdownFd s \<noteq> -1
      then map_option (\<lambda>n. s\<lparr>us_event := n\<rparr>) (eventfd_write UINT32_MAX (us_event s))
      else Some s)"

definition server_Wait_returns :: "UDSServer \<Rightarrow> bool" where
  "server_Wait_returns s \<longleftrightarrow> us_shutdownFd s = -1 \<or> eventfd_readable (us_event s)"

section \<open>\<open>MainLoop\<close>\<close>

definition revents_of :: "(fd \<times> u16) list \<Rightarrow> fd \<Rightarrow> u16" where
  "revents_of rs c = (case map_of rs c of None \<Rightarrow> 0 | Some r \<Rightarrow> r)"

definition call1 :: "(fd \<Rightarrow> 'h \<Rightarrow> 'h res) option \<Rightarrow> fd \<Rightarrow> 'h \<Rightarrow> 'h res" where
  "call1 cb c h = (case cb of None \<Rightarrow> Inr h | Some f \<Rightarrow> f c h)"

definition read_client :: "'h uds_callbacks \<Rightarrow> (fd \<times> bytes) list \<Rightarrow> fd \<Rightarrow> 'h \<Rightarrow> 'h res" where
  "read_client cb recs c h =
     (case map_of recs c of
        None \<Rightarrow> Inr h
      | Some r \<Rightarrow>
          (let buffer = read_into UINT16_MAX r in
           if buffer = [] then Inr h
           else case onData cb of None \<Rightarrow> Inr h | Some f \<Rightarrow> f c buffer h))"

definition service_client ::
  "'h uds_callbacks \<Rightarrow> u16 \<Rightarrow> (fd \<times> bytes) list \<Rightarrow> fd \<Rightarrow> UDSServer \<times> 'h \<Rightarrow> (UDSServer \<times> 'h) res" where
  "service_client cb revents recs c sh = (case sh of (s, h) \<Rightarrow>
     if revents = 0 then Inr (s, h)
     else
       bind_res (if has_flag revents POLLIN then read_client cb recs c h else Inr h) (\<lambda>h.
       if has_flag revents POLLHUP then
         bind_res (call1 (onDisconnect cb) c h) (\<lambda>h.
         Inr (s\<lparr>us_clients := set_erase c (us_clients s)\<rparr>, h))
       else Inr (s, h)))"

fun service_clients ::
  "'h uds_callbacks \<Rightarrow> (fd \<times> u16) list \<Rightarrow> (fd \<times> bytes) list \<Rightarrow> fd list \<Rightarrow>
   UDSServer \<times> 'h \<Rightarrow> (UDSServer \<times> 'h) res" where
  "service_clients cb rs recs [] sh = Inr sh"
| "service_clients cb rs recs (c # cs) sh =
     bind_res (service_client cb (revents_of rs c) recs c sh) (service_clients cb rs recs cs)"

definition accept_client :: "'h uds_callbacks \<Rightarrow> fd \<Rightarrow> UDSServer \<times> 'h \<Rightarrow> (UDSServer \<times> 'h) res" where
  "accept_client cb c sh = (case sh of (s, h) \<Rightarrow>
     let s' = s\<lparr>us_clients := set_emplace c (us_clients s), us_open := c # us_open s\<rparr>
     in bind_res (call1 (onConnect cb) c h) (\<lambda>h. Inr (s', h)))"

text \<open>
  \<open>pollFds\<close> is filled from \<open>mClients\<close> before \<open>poll\<close>, so a client accepted in this
  iteration is served from the next one on.
\<close>

definition MainLoop_iteration ::
  "'h uds_callbacks \<Rightarrow> uds_iteration \<Rightarrow> UDSServer \<times> 'h \<Rightarrow> (loop_status \<times> UDSServer \<times> 'h) res" where
  "MainLoop_iteration cb it sh = (case sh of (s, h) \<Rightarrow>
     let pollFds = us_clients s in
     case it_poll it of
       Poll_failed \<Rightarrow> Inr (Exited, s, h)
     | Poll_ready shutdown listener rs \<Rightarrow>
         if shutdown \<noteq> 0 then Inr (Exited, s, h)
         else if listener \<noteq> 0 \<and> it_accept it = -1 then Inr (Exited, s, h)
         else
           bind_res (if listener \<noteq> 0 then accept_client cb (it_accept it) (s, h) else Inr (s, h)) (\<lambda>sh.
           bind_res (service_clients cb rs (it_records it) pollFds sh) (\<lambda>(s, h).
           Inr (Running, s, h))))"

text \<open>
  What follows the loop: the event is signalled, and both descriptors and every remaining
  client are closed.
\<close>

definition MainLoop_exit :: "UDSServer \<Rightarrow> UDSServer" where
  "MainLoop_exit s = s\<lparr>
     us_event := (case eventfd_write UINT32_MAX (us_event s) of Some n \<Rightarrow> n | None \<Rightarrow> us_event s),
     us_open := filter (\<lambda>c. c \<notin> set (us_clients s)) (us_open s),
     us_listenFd := -1, us_shutdownFd := -1, us_clients := []\<rparr>"

text \<open>
  A run over the iterations the environment provides; \<open>Running\<close> at the end means that the
  thread is blocked in \<open>poll\<close>.
\<close>

fun MainLoop ::
  "'h uds_callbacks \<Rightarrow> uds_iteration list \<Rightarrow> UDSServer \<times> 'h \<Rightarrow> (loop_status \<times> UDSServer \<times> 'h) res" where
  "MainLoop cb [] sh = Inr (Running, sh)"
| "MainLoop cb (it # its) sh =
     bind_res (MainLoop_iteration cb it sh) (\<lambda>(st, s, h).
       case st of
         Running \<Rightarrow> MainLoop cb its (s, h)
       | Exited \<Rightarrow> Inr (Exited, MainLoop_exit s, h))"

section \<open>Frame and bookkeeping lemmas\<close>

named_theorems uds_frame \<open>what the loop leaves alone\<close>

lemma service_client_frame [uds_frame]:
  "service_client cb r recs c (s, h) = Inr (s', h') \<Longrightarrow>
   us_open s' = us_open s \<and> us_listenFd s' = us_listenFd s \<and> us_shutdownFd s' = us_shutdownFd s \<and>
   set (us_clients s') \<subseteq> set (us_clients s) \<and> set (us_clients s) - {c} \<subseteq> set (us_clients s')"
  by (auto simp: service_client_def bind_res_eq_Inr split: if_splits)

lemma service_clients_frame [uds_frame]:
  "service_clients cb rs recs cs (s, h) = Inr (s', h') \<Longrightarrow>
   us_open s' = us_open s \<and> us_listenFd s' = us_listenFd s \<and> us_shutdownFd s' = us_shutdownFd s \<and>
   set (us_clients s') \<subseteq> set (us_clients s) \<and> set (us_clients s) - set cs \<subseteq> set (us_clients s')"
proof (induction cs arbitrary: s h)
  case Nil
  then show ?case by simp
next
  case (Cons c cs)
  then obtain s1 h1 where one: "service_client cb (revents_of rs c) recs c (s, h) = Inr (s1, h1)"
    and rest: "service_clients cb rs recs cs (s1, h1) = Inr (s', h')"
    by (auto simp: bind_res_eq_Inr)
  from Cons.IH [OF rest] service_client_frame [OF one] show ?case by auto
qed

text \<open>A client that hangs up is forgotten.\<close>

lemma service_clients_hangup:
  "service_clients cb rs recs cs (s, h) = Inr (s', h') \<Longrightarrow> c \<in> set cs \<Longrightarrow>
   has_flag (revents_of rs c) POLLHUP \<Longrightarrow> c \<notin> set (us_clients s')"
proof (induction cs arbitrary: s h)
  case Nil
  then show ?case by simp
next
  case (Cons d cs)
  then obtain s1 h1 where one: "service_client cb (revents_of rs d) recs d (s, h) = Inr (s1, h1)"
    and rest: "service_clients cb rs recs cs (s1, h1) = Inr (s', h')"
    by (auto simp: bind_res_eq_Inr)
  show ?case
  proof (cases "c \<in> set cs")
    case True
    with Cons.IH [OF rest] Cons.prems(3) show ?thesis by simp
  next
    case False
    with Cons.prems have "d = c" by simp
    with one Cons.prems(3) have "c \<notin> set (us_clients s1)"
      by (auto simp: service_client_def bind_res_eq_Inr split: if_splits)
    with service_clients_frame [OF rest] show ?thesis by auto
  qed
qed

text \<open>The environment's side of a run.\<close>

definition accepted :: "uds_iteration \<Rightarrow> fd list" where
  "accepted it = (case it_poll it of
      Poll_failed \<Rightarrow> []
    | Poll_ready shutdown listener rs \<Rightarrow>
        if shutdown = 0 \<and> listener \<noteq> 0 \<and> it_accept it \<noteq> -1 then [it_accept it] else [])"

lemma MainLoop_iteration_frame [uds_frame]:
  assumes "MainLoop_iteration cb it (s, h) = Inr (st, s', h')"
  shows "us_open s' = accepted it @ us_open s"
    and "set (us_clients s') \<subseteq> set (us_clients s) \<union> set (accepted it)"
proof -
  have "us_open s' = accepted it @ us_open s \<and>
      set (us_clients s') \<subseteq> set (us_clients s) \<union> set (accepted it)"
  proof (cases "it_poll it")
    case Poll_failed
    with assms show ?thesis by (auto simp: MainLoop_iteration_def accepted_def)
  next
    case (Poll_ready shutdown listener rs)
    show ?thesis
    proof (cases "shutdown \<noteq> 0 \<or> listener \<noteq> 0 \<and> it_accept it = -1")
      case True
      with assms Poll_ready show ?thesis
        by (simp add: MainLoop_iteration_def accepted_def split: if_splits)
    next
      case False
      then obtain s1 h1 where
        conn: "(if listener \<noteq> 0 then accept_client cb (it_accept it) (s, h) else Inr (s, h)) = Inr (s1, h1)"
        and rest: "service_clients cb rs (it_records it) (us_clients s) (s1, h1) = Inr (s', h')"
        using assms Poll_ready by (auto simp: MainLoop_iteration_def bind_res_eq_Inr)
      have "us_open s1 = accepted it @ us_open s \<and>
          set (us_clients s1) \<subseteq> set (us_clients s) \<union> set (accepted it)"
        using conn False Poll_ready
        by (auto simp: accepted_def accept_client_def Let_def bind_res_eq_Inr split: if_splits)
      with service_clients_frame [OF rest] show ?thesis by auto
    qed
  qed
  then show "us_open s' = accepted it @ us_open s"
    "set (us_clients s') \<subseteq> set (us_clients s) \<union> set (accepted it)" by auto
qed

text \<open>
  \<open>script_ok\<close>: \<open>accept\<close> never returns a descriptor that is still open (the kernel's
  guarantee), and every record read satisfies \<open>data_ok\<close>.
\<close>

fun script_ok :: "(bytes \<Rightarrow> bool) \<Rightarrow> fd list \<Rightarrow> uds_iteration list \<Rightarrow> bool" where
  "script_ok data_ok opened [] = True"
| "script_ok data_ok opened (it # its) =
     (list_all (\<lambda>c. c \<notin> set opened) (accepted it) \<and>
      list_all (\<lambda>(c, r). data_ok (read_into UINT16_MAX r)) (it_records it) \<and>
      script_ok data_ok (accepted it @ opened) its)"

text \<open>An upper bound of the handler calls in a run that starts with \<open>n\<close> clients.\<close>

fun calls_bound :: "nat \<Rightarrow> uds_iteration list \<Rightarrow> nat" where
  "calls_bound n [] = 0"
| "calls_bound n (it # its) = 1 + 2 * n + calls_bound (Suc n) its"

lemma calls_bound_mono: "m \<le> n \<Longrightarrow> calls_bound m its \<le> calls_bound n its"
  by (induction its arbitrary: m n) (auto intro!: add_mono mult_le_mono)

text \<open>A descriptor that is open without being a client's stays open, to the end of the loop.\<close>

lemma MainLoop_open:
  assumes "MainLoop cb its (s, h) = Inr (st, s', h')" "script_ok ok (us_open s) its"
    and "c \<in> set (us_open s)" "c \<notin> set (us_clients s)"
  shows "c \<in> set (us_open s') \<and> c \<notin> set (us_clients s')"
  using assms
proof (induction its arbitrary: s h)
  case Nil
  then show ?case by simp
next
  case (Cons it its)
  then obtain st1 s1 h1 where one: "MainLoop_iteration cb it (s, h) = Inr (st1, s1, h1)"
    by (auto simp: bind_res_eq_Inr)
  note frame = MainLoop_iteration_frame [OF one]
  have "c \<notin> set (accepted it)" using Cons.prems(2,3) by (auto simp: list_all_iff)
  with frame Cons.prems(3,4) have c: "c \<in> set (us_open s1)" "c \<notin> set (us_clients s1)" by auto
  show ?case
  proof (cases st1)
    case Running
    with Cons.prems one frame(1) c show ?thesis by (intro Cons.IH [of s1 h1]) auto
  next
    case Exited
    with Cons.prems(1) one c show ?thesis by (auto simp: MainLoop_exit_def)
  qed
qed

section \<open>The contract between the loop and its owner\<close>

text \<open>
  \<open>inv k C U h\<close>: the owner's state \<open>h\<close> is consistent with \<open>C\<close> registered and \<open>U\<close> open
  descriptors and can take \<open>k\<close> more calls (the owner counts in 64 bits). A connection
  announces a new descriptor, data and disconnection come from registered ones only.
\<close>

locale uds_handlers =
  fixes connect disconnect :: "fd \<Rightarrow> 'h \<Rightarrow> 'h res"
    and data :: "fd \<Rightarrow> bytes \<Rightarrow> 'h \<Rightarrow> 'h res"
    and inv :: "nat \<Rightarrow> fd set \<Rightarrow> fd set \<Rightarrow> 'h \<Rightarrow> bool"
    and data_ok :: "bytes \<Rightarrow> bool"
    and tolerated :: "fault set"
  assumes inv_antimono: "inv k C U h \<Longrightarrow> j \<le> k \<Longrightarrow> inv j C U h"
    and connect_law: "inv (Suc k) C U h \<Longrightarrow> C \<subseteq> U \<Longrightarrow> c \<notin> U \<Longrightarrow>
      outcome {} (inv k (insert c C) (insert c U)) (connect c h)"
    and disconnect_law: "inv (Suc k) C U h \<Longrightarrow> c \<in> C \<Longrightarrow> C \<subseteq> U \<Longrightarrow>
      outcome {} (inv k (C - {c}) U) (disconnect c h)"
    and data_law: "inv (Suc k) C U h \<Longrightarrow> c \<in> C \<Longrightarrow> C \<subseteq> U \<Longrightarrow> data_ok bs \<Longrightarrow> bs \<noteq> [] \<Longrightarrow>
      outcome tolerated (inv k C U) (data c bs h)"
begin

abbreviation callbacks :: "'h uds_callbacks" where
  "callbacks \<equiv> \<lparr>onConnect = Some connect, onDisconnect = Some disconnect, onData = Some data\<rparr>"

definition joint :: "nat \<Rightarrow> UDSServer \<times> 'h \<Rightarrow> bool" where
  "joint k sh \<longleftrightarrow> distinct (us_clients (fst sh)) \<and>
     set (us_clients (fst sh)) \<subseteq> set (us_open (fst sh)) \<and>
     inv k (set (us_clients (fst sh))) (set (us_open (fst sh))) (snd sh)"

lemma joint_antimono: "joint k sh \<Longrightarrow> j \<le> k \<Longrightarrow> joint j sh"
  by (auto simp: joint_def intro: inv_antimono)

lemma read_client_outcome:
  assumes "inv (Suc k) C U h" "c \<in> C" "C \<subseteq> U"
    and "list_all (\<lambda>(c, r). data_ok (read_into UINT16_MAX r)) recs"
  shows "outcome tolerated (inv k C U) (read_client callbacks recs c h)"
proof -
  have less: "inv k C U h" using assms(1) by (rule inv_antimono) simp
  have "data_ok (read_into UINT16_MAX r)" if "map_of recs c = Some r" for r
    using assms(4) map_of_SomeD [OF that] by (auto simp: list_all_iff)
  with assms less show ?thesis
    by (auto simp: read_client_def Let_def split: option.splits intro: data_law)
qed

lemma service_client_outcome:
  assumes J: "joint (k + 2) (s, h)" and c: "c \<in> set (us_clients s)"
    and recs: "list_all (\<lambda>(c, r). data_ok (read_into UINT16_MAX r)) recs"
  shows "outcome tolerated (joint k) (service_client callbacks r recs c (s, h))"
proof -
  let ?C = "set (us_clients s)" and ?U = "set (us_open s)"
  have sub: "?C \<subseteq> ?U" and dist: "distinct (us_clients s)" and I: "inv (k + 2) ?C ?U h"
    using J by (auto simp: joint_def)
  have read: "outcome tolerated (inv (Suc k) ?C ?U)
      (if has_flag r POLLIN then read_client callbacks recs c h else Inr h)"
    using read_client_outcome [OF _ c sub recs, of "Suc k" h] I inv_antimono [OF I, of "Suc k"] by simp
  have hup: "outcome tolerated (joint k)
      (if has_flag r POLLHUP then
         bind_res (call1 (onDisconnect callbacks) c h') (\<lambda>h.
         Inr (s\<lparr>us_clients := set_erase c (us_clients s)\<rparr>, h))
       else Inr (s, h'))" if I': "inv (Suc k) ?C ?U h'" for h'
  proof (cases "has_flag r POLLHUP")
    case True
    obtain h'' where "disconnect c h' = Inr h''" "inv k (?C - {c}) ?U h''"
      using disconnect_law [OF I' c sub] by (auto simp: outcome_total)
    with True sub dist show ?thesis by (auto simp: call1_def joint_def)
  next
    case False
    with I' sub dist show ?thesis by (auto simp: joint_def intro: inv_antimono)
  qed
  show ?thesis
  proof (cases "r = 0")
    case True
    with J show ?thesis by (auto simp: service_client_def intro: joint_antimono)
  next
    case False
    then show ?thesis
      unfolding service_client_def
      by (simp only: prod.case if_False) (rule outcome_bind [OF read hup])
  qed
qed

lemma service_clients_outcome:
  assumes "joint (k + 2 * length cs) (s, h)" "set cs \<subseteq> set (us_clients s)" "distinct cs"
    and recs: "list_all (\<lambda>(c, r). data_ok (read_into UINT16_MAX r)) recs"
  shows "outcome tolerated (\<lambda>sh. joint k sh \<and> us_open (fst sh) = us_open s \<and>
           set (us_clients (fst sh)) \<subseteq> set (us_clients s))
           (service_clients callbacks rs recs cs (s, h))"
  using assms(1-3)
proof (induction cs arbitrary: s h)
  case Nil
  then show ?case by simp
next
  case (Cons c cs)
  let ?P = "\<lambda>sh. joint (k + 2 * length cs) sh \<and> us_open (fst sh) = us_open s \<and>
    set cs \<subseteq> set (us_clients (fst sh)) \<and> set (us_clients (fst sh)) \<subseteq> set (us_clients s)"
  let ?one = "service_client callbacks (revents_of rs c) recs c (s, h)"
  have J: "outcome tolerated (joint (k + 2 * length cs)) ?one"
    using Cons.prems recs by (intro service_client_outcome) (auto simp: algebra_simps)
  have "outcome tolerated ?P ?one"
  proof (cases ?one)
    case (Inl e)
    with J show ?thesis by simp
  next
    case (Inr sh)
    obtain s1 h1 where sh: "sh = (s1, h1)" by fastforce
    with Inr J Cons.prems(2,3) service_client_frame [of callbacks _ recs c s h s1 h1]
    show ?thesis by auto
  qed
  moreover have "outcome tolerated (\<lambda>sh. joint k sh \<and> us_open (fst sh) = us_open s \<and>
        set (us_clients (fst sh)) \<subseteq> set (us_clients s)) (service_clients callbacks rs recs cs sh)"
    if P: "?P sh" for sh
  proof -
    obtain s1 h1 where sh: "sh = (s1, h1)" by fastforce
    show ?thesis
      unfolding sh
      by (rule outcome_mono [OF Cons.IH [of s1 h1]]) (use P Cons.prems(3) sh in auto)
  qed
  ultimately show ?case by (auto intro: outcome_bind)
qed

lemma MainLoop_iteration_outcome:
  assumes J: "joint (k + 1 + 2 * length (us_clients s)) (s, h)"
    and env: "list_all (\<lambda>c. c \<notin> set (us_open s)) (accepted it)"
      "list_all (\<lambda>(c, r). data_ok (read_into UINT16_MAX r)) (it_records it)"
  shows "outcome tolerated (\<lambda>(st, s', h'). joint k (s', h') \<and>
      us_open s' = accepted it @ us_open s \<and>
      card (set (us_clients s')) \<le> Suc (card (set (us_clients s))))
    (MainLoop_iteration callbacks it (s, h))"
proof (cases "it_poll it")
  case Poll_failed
  with J show ?thesis
    by (auto simp: MainLoop_iteration_def accepted_def card_mono intro: joint_antimono)
next
  case (Poll_ready shutdown listener rs)
  let ?C = "set (us_clients s)" and ?U = "set (us_open s)"
  let ?n = "2 * length (us_clients s)"
  let ?Q = "\<lambda>sh. joint (k + ?n) sh \<and> us_open (fst sh) = accepted it @ us_open s \<and>
    ?C \<subseteq> set (us_clients (fst sh)) \<and> card (set (us_clients (fst sh))) \<le> Suc (card ?C)"
  have dist: "distinct (us_clients s)" and sub: "?C \<subseteq> ?U" using J by (auto simp: joint_def)
  show ?thesis
  proof (cases "shutdown \<noteq> 0 \<or> listener \<noteq> 0 \<and> it_accept it = -1")
    case True
    with J Poll_ready show ?thesis
      by (auto simp: MainLoop_iteration_def accepted_def card_mono intro: joint_antimono)
  next
    case False
    let ?c = "it_accept it"
    let ?conn = "if listener \<noteq> 0 then accept_client callbacks ?c (s, h) else Inr (s, h)"
    have conn: "outcome tolerated ?Q ?conn"
    proof (cases "listener = 0")
      case True
      with J Poll_ready show ?thesis by (auto simp: accepted_def intro: joint_antimono)
    next
      case l: False
      with False Poll_ready env(1) have acc: "accepted it = [?c]" and new: "?c \<notin> ?U"
        by (auto simp: accepted_def)
      have "inv (Suc (k + ?n)) ?C ?U h" using J by (simp add: joint_def)
      from connect_law [OF this sub new] obtain h' where
        "connect ?c h = Inr h'" "inv (k + ?n) (insert ?c ?C) (insert ?c ?U) h'"
        by (auto simp: outcome_total)
      with l acc dist sub show ?thesis
        by (auto simp: accept_client_def call1_def joint_def Let_def card_insert_if)
    qed
    have serve: "outcome tolerated (\<lambda>(st, s', h'). joint k (s', h') \<and>
          us_open s' = accepted it @ us_open s \<and> card (set (us_clients s')) \<le> Suc (card ?C))
        (bind_res (service_clients callbacks rs (it_records it) (us_clients s) sh)
          (\<lambda>(s, h). Inr (Running, s, h)))" if Q: "?Q sh" for sh
    proof -
      obtain s1 h1 where sh: "sh = (s1, h1)" by fastforce
      have "outcome tolerated (\<lambda>sh. joint k sh \<and> us_open (fst sh) = us_open s1 \<and>
          set (us_clients (fst sh)) \<subseteq> set (us_clients s1))
        (service_clients callbacks rs (it_records it) (us_clients s) sh)"
        unfolding sh by (rule service_clients_outcome) (use Q sh dist env(2) in auto)
      then show ?thesis
        by (rule outcome_bind)
          (use Q sh in \<open>auto dest: card_mono [OF finite_set]\<close>)
    qed
    have "MainLoop_iteration callbacks it (s, h) = bind_res ?conn (\<lambda>sh.
        bind_res (service_clients callbacks rs (it_records it) (us_clients s) sh)
          (\<lambda>(s, h). Inr (Running, s, h)))"
      using False Poll_ready by (auto simp: MainLoop_iteration_def)
    then show ?thesis by (simp only: outcome_bind [OF conn serve])
  qed
qed

lemma MainLoop_outcome:
  assumes "joint (k + calls_bound (card (set (us_clients s))) its) (s, h)"
    and "script_ok data_ok (us_open s) its"
  shows "outcome tolerated (\<lambda>(st, s', h').
      (st = Running \<longrightarrow> joint k (s', h')) \<and> (\<exists>C U. inv k C U h'))
    (MainLoop callbacks its (s, h))"
  using assms
proof (induction its arbitrary: s h)
  case Nil
  then show ?case by (auto simp: joint_def)
next
  case (Cons it its)
  let ?n = "card (set (us_clients s))"
  let ?P = "\<lambda>(st, s', h'). joint (k + calls_bound (Suc ?n) its) (s', h') \<and>
      us_open s' = accepted it @ us_open s \<and> card (set (us_clients s')) \<le> Suc ?n"
  have len: "length (us_clients s) = ?n"
    using Cons.prems(1) by (simp add: joint_def distinct_card)
  have it: "outcome tolerated ?P (MainLoop_iteration callbacks it (s, h))"
    using Cons.prems by (intro MainLoop_iteration_outcome) (auto simp: len algebra_simps)
  have rest: "outcome tolerated (\<lambda>(st, s', h').
      (st = Running \<longrightarrow> joint k (s', h')) \<and> (\<exists>C U. inv k C U h'))
    (case r of (st, s', h') \<Rightarrow>
       case st of Running \<Rightarrow> MainLoop callbacks its (s', h') | Exited \<Rightarrow> Inr (Exited, MainLoop_exit s', h'))"
    if P: "?P r" for r
  proof -
    obtain st s' h' where r: "r = (st, s', h')" by (cases r) auto
    have J: "joint (k + calls_bound (card (set (us_clients s'))) its) (s', h')"
      by (rule joint_antimono [of "k + calls_bound (Suc ?n) its"])
        (use P r in \<open>auto intro: calls_bound_mono\<close>)
    show ?thesis
    proof (cases st)
      case Running
      with Cons.IH [OF J] P r Cons.prems(2) show ?thesis by simp
    next
      case Exited
      have "joint k (s', h')" using J by (rule joint_antimono) simp
      with r Exited show ?thesis by (auto simp: joint_def)
    qed
  qed
  show ?case using outcome_bind [OF it rest] by simp
qed

end

end
