(* ===== verification/TopologyServer.thy ===== *)
theory TopologyServer
  imports TopologyView UDSServer
begin

text \<open>
  \<open>lib/TopologyServer.h\<close> and \<open>lib/TopologyServer.cc\<close>: the hub. It keeps the list of
  topology messages (\<open>mHistory\<close>), the next sequence number to mint, and per connected
  descriptor the last sequence it wrote there, the node id and the messages received from it.
  \<open>ts_wire\<close> records the writes (\<open>SerializeToFileDescriptor\<close>) in order; a failed write is
  only logged by the code, so it changes nothing else. All operations run under \<open>mMtx\<close>.
  \<open>ts_draws\<close> counts the values taken from the static \<open>mt19937_64\<close> generator, whose output
  is the parameter \<open>rng\<close>; \<open>parse\<close> stands for the generated \<open>ParseFromArray\<close>.
  \<open>mMessageHashes\<close> is declared in the header and never used.
\<close>

section \<open>State\<close>

record Client =
  cl_seq :: u64
  cl_nodeId :: u64
  cl_history :: "TopologyMessage list"

record TopologyServer =
  ts_clients :: "(fd \<times> Client) list"
  ts_nextSeq :: u64
  ts_history :: "TopologyMessage list"
  ts_wire :: "(fd \<times> TopologyMessage) list"
  ts_draws :: nat

definition default_Client :: Client where
  "default_Client = \<lparr>cl_seq = 0, cl_nodeId = 0, cl_history = []\<rparr>"

section \<open>Operations\<close>

subsection \<open>The constructor: loading a digest\<close>

fun digest_next_seq :: "TopologyMessage list \<Rightarrow> u64 \<Rightarrow> u64" where
  "digest_next_seq [] n = n"
| "digest_next_seq (m # ms) n = digest_next_seq ms (seq m + 1)"

definition TopologyServer_init :: "TopologyMessage list \<Rightarrow> TopologyServer" where
  "TopologyServer_init digest =
     \<lparr>ts_clients = [], ts_nextSeq = digest_next_seq digest 1, ts_history = digest,
      ts_wire = [], ts_draws = 0\<rparr>"

subsection \<open>\<open>OnConnect\<close>\<close>

fun send_digest ::
  "fd \<Rightarrow> TopologyMessage list \<Rightarrow> Client \<Rightarrow> (fd \<times> TopologyMessage) list \<Rightarrow>
   (Client \<times> (fd \<times> TopologyMessage) list) res" where
  "send_digest c [] client w = Inr (client, w)"
| "send_digest c (m # ms) client w =
     bind_res (assert_that Seq_at_least_client (cl_seq client \<le> seq m) ()) (\<lambda>_.
     send_digest c ms (client\<lparr>cl_seq := seq m\<rparr>) (w @ [(c, m)]))"

definition OnConnect :: "fd \<Rightarrow> TopologyServer \<Rightarrow> TopologyServer res" where
  "OnConnect c h =
     (let cs = emplace c default_Client (ts_clients h);
          client = the (map_of cs c)
      in bind_res (send_digest c (ts_history h) client (ts_wire h)) (\<lambda>(client, w).
         Inr (h\<lparr>ts_clients := AList.update c client cs, ts_wire := w\<rparr>)))"

subsection \<open>\<open>PruneRemoved\<close>\<close>

definition left_ids :: "TopologyMessage list \<Rightarrow> u64 set" where
  "left_ids ms = set (map (\<lambda>m. nc_id (node_change m)) (filter leaves ms))"

text \<open>
  The condition of the two erasing branches. In the second the code calls
  \<open>left.count(it->topic_change().node_id() > 0)\<close>: the comparison is inside the call, so the
  value looked up is \<open>1\<close> or \<open>0\<close>.
\<close>

definition removed :: "u64 set \<Rightarrow> TopologyMessage \<Rightarrow> bool" where
  "removed left m =
     (if has_node_change m then
        nc_id (node_change m) \<in> left \<and> nc_op (node_change m) \<noteq> LEAVE
      else if has_topic_change m then
        of_bool (0 < tc_node_id (topic_change m)) \<in> left
      else False)"

fun prune_loop :: "u64 set \<Rightarrow> TopologyMessage list \<Rightarrow> TopologyMessage list" where
  "prune_loop left [] = []"
| "prune_loop left (m # ms) =
     (if removed left m then prune_loop left ms else m # prune_loop left ms)"

definition prune :: "TopologyMessage list \<Rightarrow> TopologyMessage list" where
  "prune ms = prune_loop (left_ids ms) ms"

definition PruneRemoved :: "TopologyServer \<Rightarrow> TopologyServer" where
  "PruneRemoved h = h\<lparr>ts_history := prune (ts_history h)\<rparr>"

subsection \<open>\<open>Broadcast\<close>\<close>

fun broadcast_client ::
  "u64 \<Rightarrow> fd \<Rightarrow> TopologyMessage list \<Rightarrow> Client \<Rightarrow> (fd \<times> TopologyMessage) list \<Rightarrow>
   (Client \<times> (fd \<times> TopologyMessage) list) res" where
  "broadcast_client next c [] client w = Inr (client, w)"
| "broadcast_client next c (m # ms) client w =
     (if cl_seq client < seq m then
        bind_res (assert_that Seq_below_next (seq m < next) ()) (\<lambda>_.
        broadcast_client next c ms (client\<lparr>cl_seq := seq m\<rparr>) (w @ [(c, m)]))
      else broadcast_client next c ms client w)"

fun broadcast_clients ::
  "u64 \<Rightarrow> TopologyMessage list \<Rightarrow> (fd \<times> Client) list \<Rightarrow> (fd \<times> TopologyMessage) list \<Rightarrow>
   ((fd \<times> Client) list \<times> (fd \<times> TopologyMessage) list) res" where
  "broadcast_clients next ms [] w = Inr ([], w)"
| "broadcast_clients next ms ((c, client) # cs) w =
     bind_res (broadcast_client next c ms client w) (\<lambda>(client, w).
     bind_res (broadcast_clients next ms cs w) (\<lambda>(cs, w).
     Inr ((c, client) # cs, w)))"

definition Broadcast :: "TopologyServer \<Rightarrow> TopologyServer res" where
  "Broadcast h =
     bind_res (broadcast_clients (ts_nextSeq h) (ts_history h) (ts_clients h) (ts_wire h))
       (\<lambda>(cs, w). Inr (h\<lparr>ts_clients := cs, ts_wire := w\<rparr>))"

subsection \<open>\<open>OnDisconnect\<close>\<close>

definition leave_message :: "u64 \<Rightarrow> u64 \<Rightarrow> TopologyMessage" where
  "leave_message s n =
     mutable_node_change (\<lambda>c. c\<lparr>nc_id := n, nc_op := LEAVE\<rparr>) (default_TopologyMessage\<lparr>seq := s\<rparr>)"

definition mint_leave :: "u64 \<Rightarrow> TopologyServer \<Rightarrow> TopologyServer" where
  "mint_leave n h =
     h\<lparr>ts_history := ts_history h @ [leave_message (ts_nextSeq h) n],
       ts_nextSeq := ts_nextSeq h + 1\<rparr>"

definition OnDisconnect :: "fd \<Rightarrow> TopologyServer \<Rightarrow> TopologyServer res" where
  "OnDisconnect c h =
     (case map_of (ts_clients h) c of
        None \<Rightarrow> Inl (Assertion_failed Fd_registered)
      | Some client \<Rightarrow>
          (let h = mint_leave (cl_nodeId client) h;
               h = h\<lparr>ts_clients := AList.delete c (ts_clients h)\<rparr>
           in Broadcast (PruneRemoved h)))"

subsection \<open>\<open>OnData\<close>\<close>

fun IsRedundant_in :: "TopologyMessage \<Rightarrow> TopologyMessage list \<Rightarrow> bool" where
  "IsRedundant_in m [] = False"
| "IsRedundant_in m (h # hs) =
     (if has_node_change h \<and> has_node_change m \<and> NodeChange_eq (node_change h) (node_change m)
      then True
      else if has_topic_change h \<and> has_topic_change m \<and>
        TopicChange_eq (topic_change h) (topic_change m)
      then True
      else IsRedundant_in m hs)"

definition IsRedundant :: "TopologyMessage \<Rightarrow> Client \<Rightarrow> bool" where
  "IsRedundant m client = IsRedundant_in m (cl_history client)"

definition AddNovelMessage ::
  "(nat \<Rightarrow> u64) \<Rightarrow> TopologyMessage \<Rightarrow> Client \<Rightarrow> TopologyServer \<Rightarrow> Client \<times> TopologyServer" where
  "AddNovelMessage rng m client h =
     (if IsRedundant m client then (client, h)
      else
        (let tmp = m\<lparr>seq := ts_nextSeq h, uid := rng (ts_draws h)\<rparr> in
         (client\<lparr>cl_history := cl_history client @ [tmp]\<rparr>,
          h\<lparr>ts_nextSeq := ts_nextSeq h + 1, ts_draws := Suc (ts_draws h),
            ts_history := ts_history h @ [tmp]\<rparr>)))"

definition seq_less :: "TopologyMessage \<Rightarrow> TopologyMessage \<Rightarrow> bool" where
  "seq_less lhs rhs \<longleftrightarrow> seq lhs < seq rhs"

definition AddOldMessage ::
  "TopologyMessage \<Rightarrow> Client \<Rightarrow> TopologyServer \<Rightarrow> (Client \<times> TopologyServer) res" where
  "AddOldMessage m client h =
     (let hist = ts_history h; hit = lower_bound seq_less hist m in
      if hit = length hist then
        bind_res (assert_that Uid_nonzero (uid m \<noteq> 0) ()) (\<lambda>_.
        Inr (client\<lparr>cl_history := cl_history client @ [m]\<rparr>,
             h\<lparr>ts_history := vector_insert hit m hist, ts_nextSeq := seq m + 1\<rparr>))
      else if seq (hist ! hit) = seq m \<and> uid (hist ! hit) = uid m then
        assert_that Same_message (TopologyMessage_eq (hist ! hit) m) (client, h)
      else Inr (client, h))"

definition message_node_id :: "TopologyMessage \<Rightarrow> u64" where
  "message_node_id m =
     (if has_node_change m then nc_id (node_change m)
      else if has_topic_change m then tc_node_id (topic_change m)
      else 0)"

definition OnData ::
  "(bytes \<Rightarrow> TopologyMessage) \<Rightarrow> (nat \<Rightarrow> u64) \<Rightarrow> fd \<Rightarrow> bytes \<Rightarrow> TopologyServer \<Rightarrow> TopologyServer res" where
  "OnData parse rng c data h =
     (if length data = 0 then Inr h
      else
        let m = parse data; nodeId = message_node_id m in
        if nodeId = 0 then Inr h
        else
          case map_of (ts_clients h) c of
            None \<Rightarrow> Inl (Assertion_failed Fd_registered)
          | Some client \<Rightarrow>
              let client = client\<lparr>cl_nodeId := nodeId\<rparr> in
              bind_res (if seq m = 0 then Inr (AddNovelMessage rng m client h)
                        else AddOldMessage m client h) (\<lambda>(client, h).
              Broadcast (PruneRemoved
                (h\<lparr>ts_clients := AList.update c client (ts_clients h)\<rparr>))))"

subsection \<open>\<open>PurgeDisconnected\<close>\<close>

text \<open>
  \<open>historicallyActive\<close> is an \<open>unordered_set\<close>; \<open>order\<close> gives the order in which the second
  loop visits it.
\<close>

definition connected_ids :: "TopologyServer \<Rightarrow> u64 set" where
  "connected_ids h = set (map (cl_nodeId \<circ> snd) (ts_clients h))"

fun historicallyActive :: "TopologyMessage list \<Rightarrow> u64 list \<Rightarrow> u64 list" where
  "historicallyActive [] act = act"
| "historicallyActive (m # ms) act =
     historicallyActive ms
       (if \<not> has_node_change m then act
        else if nc_op (node_change m) = JOIN then set_emplace (nc_id (node_change m)) act
        else if nc_op (node_change m) = LEAVE then set_erase (nc_id (node_change m)) act
        else act)"

fun purge_loop :: "u64 set \<Rightarrow> u64 list \<Rightarrow> TopologyServer \<Rightarrow> TopologyServer" where
  "purge_loop connected [] h = h"
| "purge_loop connected (n # ns) h =
     purge_loop connected ns (if n \<in> connected then h else mint_leave n h)"

definition PurgeDisconnected :: "(u64 list \<Rightarrow> u64 list) \<Rightarrow> TopologyServer \<Rightarrow> TopologyServer res" where
  "PurgeDisconnected order h =
     (let active = order (historicallyActive (ts_history h) []) in
      Broadcast (PruneRemoved (purge_loop (connected_ids h) active h)))"

end
