(* ===== verification/HubInvariant.thy ===== *)
theory HubInvariant
  imports TopologyServer
begin

text \<open>
  The invariant of the hub and its preservation by every operation: the history is increasing in
  \<open>seq\<close> and below \<open>mNextSeq\<close>, nothing in it outlives the departure of its node, every client is up
  to date, and what a client has been sent describes the same topology as the history. The handlers
  append new messages only, but a hub may start from a history that holds several copies of a
  message (\<open>Reconnect\<close>). The parameter \<open>strict\<close> tells the two cases apart: with it, no message occurs
  twice; without, messages with equal \<open>seq\<close> are equal.
\<close>

section \<open>Histories\<close>

definition last_seq :: "TopologyMessage list \<Rightarrow> u64" where
  "last_seq ms = (if ms = [] then 0 else seq (last ms))"

definition ordered :: "bool \<Rightarrow> TopologyMessage list \<Rightarrow> bool" where
  "ordered strict ms \<longleftrightarrow> sorted (map seq ms) \<and> inj_on seq (set ms) \<and> (\<forall>m\<in>set ms. 0 < seq m) \<and>
     (strict \<longrightarrow> distinct ms)"

fun settled :: "u64 set \<Rightarrow> TopologyMessage list \<Rightarrow> bool" where
  "settled L [] = True"
| "settled L (m # ms) = (\<not> removed L m \<and> settled (L \<union> left_ids [m]) ms)"

definition no_zero_topic :: "TopologyMessage list \<Rightarrow> bool" where
  "no_zero_topic ms \<longleftrightarrow> (\<forall>m\<in>set ms. has_topic_change m \<longrightarrow> tc_node_id (topic_change m) \<noteq> 0)"

lemma last_seq_simps [simp]:
  "last_seq [] = 0" "last_seq (ms @ [m]) = seq m"
  by (simp_all add: last_seq_def)

lemma last_seq_append: "last_seq (xs @ ys) = (if ys = [] then last_seq xs else last_seq ys)"
  by (simp add: last_seq_def)

lemma ordered_Nil [simp]: "ordered strict []"
  by (simp add: ordered_def)

lemma ordered_append:
  "ordered strict (xs @ ys) \<longleftrightarrow> ordered strict xs \<and> ordered strict ys \<and>
    (\<forall>x\<in>set xs. \<forall>y\<in>set ys. seq x < seq y \<or> \<not> strict \<and> x = y)"
proof -
  have "(\<forall>x\<in>set ys. \<forall>y\<in>set xs. seq x = seq y \<longrightarrow> x = y) \<longleftrightarrow>
      (\<forall>x\<in>set xs. \<forall>y\<in>set ys. seq x = seq y \<longrightarrow> x = y)"
    by (metis (no_types))
  then have "inj_on seq (set xs \<union> set ys) \<longleftrightarrow> inj_on seq (set xs) \<and> inj_on seq (set ys) \<and>
      (\<forall>x\<in>set xs. \<forall>y\<in>set ys. seq x = seq y \<longrightarrow> x = y)"
    unfolding inj_on_def ball_Un ball_conj_distrib by argo
  moreover have "distinct (xs @ ys) \<longleftrightarrow> distinct xs \<and> distinct ys \<and> (\<forall>x\<in>set xs. \<forall>y\<in>set ys. x \<noteq> y)"
    by auto
  moreover have "(\<forall>x\<in>set xs. \<forall>y\<in>set ys. seq x < seq y \<or> \<not> strict \<and> x = y) \<longleftrightarrow>
      (\<forall>x\<in>set xs. \<forall>y\<in>set ys. seq x \<le> seq y) \<and> (\<forall>x\<in>set xs. \<forall>y\<in>set ys. seq x = seq y \<longrightarrow> x = y) \<and>
      (strict \<longrightarrow> (\<forall>x\<in>set xs. \<forall>y\<in>set ys. x \<noteq> y))"
    by (cases strict) (auto simp: less_le)
  moreover have "sorted (map seq (xs @ ys)) \<longleftrightarrow> sorted (map seq xs) \<and> sorted (map seq ys) \<and>
      (\<forall>x\<in>set xs. \<forall>y\<in>set ys. seq x \<le> seq y)"
    by (simp add: sorted_append)
  moreover have "(\<forall>m\<in>set (xs @ ys). 0 < seq m) \<longleftrightarrow> (\<forall>m\<in>set xs. 0 < seq m) \<and> (\<forall>m\<in>set ys. 0 < seq m)"
    by auto
  ultimately show ?thesis
    unfolding ordered_def set_append by argo
qed

lemma ordered_Cons:
  "ordered strict (m # ms) \<longleftrightarrow> 0 < seq m \<and> ordered strict ms \<and>
    (\<forall>x\<in>set ms. seq m < seq x \<or> \<not> strict \<and> x = m)"
  using ordered_append [of strict "[m]" ms] by (auto simp: ordered_def)

lemma ordered_pos: "ordered strict ms \<Longrightarrow> m \<in> set ms \<Longrightarrow> 0 < seq m"
  by (simp add: ordered_def)

lemma ordered_sorted: "ordered strict ms \<Longrightarrow> sorted (map seq ms)"
  by (simp add: ordered_def)

lemma ordered_seq_inj:
  "ordered strict ms \<Longrightarrow> x \<in> set ms \<Longrightarrow> y \<in> set ms \<Longrightarrow> seq x = seq y \<Longrightarrow> x = y"
  by (auto simp: ordered_def inj_on_def)

lemma ordered_strict: "ordered True ms \<longleftrightarrow> sorted_wrt (<) (map seq ms) \<and> (\<forall>m\<in>set ms. 0 < seq m)"
  by (auto simp: ordered_def strict_sorted_iff distinct_map)

lemma ordered_strictD: "ordered True ms \<Longrightarrow> ordered strict ms"
  by (simp add: ordered_def)

lemma ordered_filter: "ordered strict ms \<Longrightarrow> ordered strict (filter P ms)"
  by (auto simp: ordered_def sorted_map sorted_wrt_filter intro: inj_on_subset)

lemma ordered_le_last: "ordered strict ms \<Longrightarrow> m \<in> set ms \<Longrightarrow> seq m \<le> last_seq ms"
  by (cases ms rule: rev_cases) (auto simp: ordered_append)

text \<open>
  What the handlers append is new: strictly increasing and above all that was there.
\<close>

definition newer :: "TopologyMessage list \<Rightarrow> TopologyMessage list \<Rightarrow> bool" where
  "newer hist ms \<longleftrightarrow> ordered True ms \<and> (\<forall>m\<in>set ms. last_seq hist < seq m)"

lemma newer_Nil [simp]: "newer hist []"
  by (simp add: newer_def)

lemma newer_single: "newer hist [m] \<longleftrightarrow> last_seq hist < seq m"
  by (auto simp: newer_def ordered_Cons intro: u64_less_pos)

lemma ordered_newer: "ordered strict hist \<Longrightarrow> newer hist ms \<Longrightarrow> ordered strict (hist @ ms)"
  by (auto simp: ordered_append newer_def dest: ordered_le_last intro: ordered_strictD le_less_trans)

lemma newer_filter: "newer hist ms \<Longrightarrow> newer hist (filter P ms)"
  by (simp add: newer_def ordered_filter)

section \<open>\<open>PruneRemoved\<close>\<close>

lemma prune_loop_filter [simp]: "prune_loop L ms = filter (\<lambda>m. \<not> removed L m) ms"
  by (induction ms) auto

lemma left_ids_simps [simp]:
  "left_ids [] = {}"
  "left_ids (m # ms) = (if leaves m then {nc_id (node_change m)} else {}) \<union> left_ids ms"
  "left_ids (ms @ ns) = left_ids ms \<union> left_ids ns"
  by (auto simp: left_ids_def)

lemma left_ids_mem: "n \<in> left_ids ms \<longleftrightarrow> (\<exists>m\<in>set ms. leaves m \<and> nc_id (node_change m) = n)"
  by (auto simp: left_ids_def)

lemma leaves_key: "leaves m \<Longrightarrow> msg_key m = Some (nc_id (node_change m))"
  by (auto simp: leaves_def msg_key_def oneof_defs split: oneof_op.splits)

lemma joins_key: "joins m \<Longrightarrow> msg_key m = Some (nc_id (node_change m))"
  by (auto simp: joins_def msg_key_def oneof_defs split: oneof_op.splits)

lemma leaves_not_removed [simp]: "leaves m \<Longrightarrow> \<not> removed L m"
  by (auto simp: leaves_def removed_def)

lemma joins_removed: "joins m \<Longrightarrow> removed L m \<longleftrightarrow> nc_id (node_change m) \<in> L"
  by (auto simp: joins_def removed_def)

lemma removed_mono: "removed L m \<Longrightarrow> L \<subseteq> L' \<Longrightarrow> removed L' m"
  by (auto simp: removed_def split: if_splits)

lemma removed_node:
  assumes "removed L m" "1 \<notin> L" "has_topic_change m \<longrightarrow> tc_node_id (topic_change m) \<noteq> 0"
  shows "has_node_change m \<and> nc_id (node_change m) \<in> L"
  using assms by (auto simp: removed_def word_neq_0_conv split: if_splits)

lemma left_ids_keep [simp]: "left_ids (filter (\<lambda>m. \<not> removed L m) ms) = left_ids ms"
  by (induction ms) auto

lemma left_ids_prune [simp]: "left_ids (prune ms) = left_ids ms"
  by (simp add: prune_def)

lemma settled_append: "settled L (xs @ ys) \<longleftrightarrow> settled L xs \<and> settled (L \<union> left_ids xs) ys"
  by (induction xs arbitrary: L) (auto simp: Un_assoc)

lemma settled_not_removed: "settled L ms \<Longrightarrow> m \<in> set ms \<Longrightarrow> \<not> removed L m"
proof (induction ms arbitrary: L)
  case Nil
  then show ?case by simp
next
  case (Cons x xs)
  then show ?case using removed_mono [of L m "L \<union> left_ids [x]"] by (auto simp del: left_ids_simps)
qed

lemma settled_keep:
  "L \<union> left_ids ms \<subseteq> L' \<Longrightarrow> settled L (filter (\<lambda>m. \<not> removed L' m) ms)"
proof (induction ms arbitrary: L)
  case Nil
  then show ?case by simp
next
  case (Cons x xs)
  then show ?case using removed_mono [of L x L'] by auto
qed

lemma settled_last:
  assumes "settled L ms" "ms \<noteq> []"
  shows "\<not> removed (L \<union> left_ids ms) (last ms)"
proof -
  obtain xs x where ms: "ms = xs @ [x]" using assms(2) by (cases ms rule: rev_cases) auto
  with assms(1) show ?thesis by (cases "leaves x") (auto simp: settled_append)
qed

lemma settled_no_reopen: "settled L ms \<Longrightarrow> no_reopen msg_key joins leaves ms"
proof (induction ms arbitrary: L)
  case Nil
  then show ?case by simp
next
  case (Cons x xs)
  have "\<not> joins m" if "leaves x" "m \<in> set xs" "msg_key m = msg_key x" for m
    using settled_not_removed [of "L \<union> left_ids [x]" xs m] Cons.prems that
    by (auto simp: joins_removed leaves_key joins_key)
  with Cons show ?case by auto
qed

lemma topology_keep:
  assumes "settled {} ms" "1 \<notin> left_ids ms" "no_zero_topic ms"
  shows "topology (filter (\<lambda>m. \<not> removed (left_ids ms) m) ms) = topology ms"
  unfolding topology_def
proof (rule topo.run_filter)
  fix m assume m: "m \<in> set ms" "\<not> \<not> removed (left_ids ms) m"
  with assms removed_node [of "left_ids ms" m]
  have "has_node_change m" "nc_id (node_change m) \<in> left_ids ms"
    by (auto simp: no_zero_topic_def)
  moreover from this(1) have "msg_key m = Some (nc_id (node_change m))"
    by (auto simp: msg_key_def oneof_defs split: oneof_op.splits)
  ultimately show "\<exists>k c. msg_key m = Some k \<and> c \<in> set ms \<and> leaves c \<and> msg_key c = Some k"
    by (auto simp: left_ids_mem leaves_key)
qed (auto intro: settled_no_reopen [OF assms(1)])

section \<open>\<open>Broadcast\<close>\<close>

definition stream :: "fd \<Rightarrow> (fd \<times> TopologyMessage) list \<Rightarrow> TopologyMessage list" where
  "stream c w = map snd (filter (\<lambda>x. fst x = c) w)"

lemma stream_simps [simp]:
  "stream c [] = []"
  "stream c ((d, m) # w) = (if d = c then m # stream c w else stream c w)"
  "stream c (w @ v) = stream c w @ stream c v"
  by (simp_all add: stream_def)

lemma stream_map_Pair [simp]: "stream c (map (Pair d) ms) = (if d = c then ms else [])"
  by (induction ms) auto

lemma stream_empty: "c \<notin> fst ` set w \<Longrightarrow> stream c w = []"
  by (force simp: stream_def filter_empty_conv)

lemma broadcast_client_old:
  "\<forall>m\<in>set old. seq m \<le> cl_seq cl \<Longrightarrow> broadcast_client next c (old @ ms) cl w = broadcast_client next c ms cl w"
  by (induction old) auto

lemma broadcast_client_new:
  assumes "ordered True ms" "\<forall>m\<in>set ms. cl_seq cl < seq m \<and> seq m < next"
  shows "broadcast_client next c ms cl w =
    Inr (if ms = [] then cl else cl\<lparr>cl_seq := last_seq ms\<rparr>, w @ map (Pair c) ms)"
  using assms
  by (induction ms arbitrary: cl w) (auto simp: ordered_Cons last_seq_def)

lemma broadcast_clients_eq:
  assumes "newer hist ms" "\<forall>m\<in>set old. seq m \<le> last_seq hist" "\<forall>m\<in>set ms. seq m < next"
    "\<forall>(c, cl)\<in>set cs. cl_seq cl = last_seq hist"
  shows "broadcast_clients next (old @ ms) cs w =
    Inr (map (\<lambda>(c, cl). (c, cl\<lparr>cl_seq := last_seq (hist @ ms)\<rparr>)) cs,
         w @ concat (map (\<lambda>(c, cl). map (Pair c) ms) cs))"
  using assms(4)
proof (induction cs arbitrary: w)
  case (Cons x cs)
  obtain c cl where x: "x = (c, cl)" by fastforce
  with Cons.prems have cl: "cl_seq cl = last_seq hist" by simp
  have "broadcast_client next c (old @ ms) cl w = Inr (cl\<lparr>cl_seq := last_seq (hist @ ms)\<rparr>, w @ map (Pair c) ms)"
    using assms(1-3) cl broadcast_client_new [of ms cl "next" c w]
    by (auto simp: broadcast_client_old newer_def last_seq_append)
  with Cons x show ?case by simp
qed simp

lemma stream_broadcast:
  assumes "distinct (map fst cs)"
  shows "stream c (concat (map (\<lambda>(c, cl). map (Pair c) ms) cs)) = (if c \<in> fst ` set cs then ms else [])"
  using assms by (induction cs) (auto, force)

section \<open>The invariant\<close>

definition hub_ok :: "bool \<Rightarrow> TopologyServer \<Rightarrow> bool" where
  "hub_ok strict h \<longleftrightarrow>
     distinct (map fst (ts_clients h)) \<and>
     ordered strict (ts_history h) \<and> (\<forall>m\<in>set (ts_history h). seq m < ts_nextSeq h) \<and> 0 < ts_nextSeq h \<and>
     settled {} (ts_history h) \<and> no_zero_topic (ts_history h) \<and>
     (\<forall>(c, cl)\<in>set (ts_clients h). cl_seq cl = last_seq (ts_history h))"

definition view_ok :: "bool \<Rightarrow> TopologyServer \<Rightarrow> fd \<Rightarrow> bool" where
  "view_ok strict h c \<longleftrightarrow>
     ordered strict (stream c (ts_wire h)) \<and> last_seq (stream c (ts_wire h)) = last_seq (ts_history h) \<and>
     settled {} (stream c (ts_wire h)) \<and> no_zero_topic (stream c (ts_wire h)) \<and>
     left_ids (stream c (ts_wire h)) = left_ids (ts_history h) \<and>
     (1 \<notin> left_ids (ts_history h) \<longrightarrow>
       topology (stream c (ts_wire h)) = topology (ts_history h))"

definition hub_inv :: "bool \<Rightarrow> nat \<Rightarrow> fd set \<Rightarrow> fd set \<Rightarrow> TopologyServer \<Rightarrow> bool" where
  "hub_inv strict k C U h \<longleftrightarrow>
     hub_ok strict h \<and> fst ` set (ts_clients h) = C \<and> (\<forall>c\<in>C. view_ok strict h c) \<and>
     fst ` set (ts_wire h) \<subseteq> U \<and> unat (ts_nextSeq h) + k < 2 ^ 64 \<and> k < 2 ^ 63"

lemma hub_inv_antimono: "hub_inv strict k C U h \<Longrightarrow> j \<le> k \<Longrightarrow> hub_inv strict j C U h"
  by (auto simp: hub_inv_def)

text \<open>
  Every operation that changes the history appends messages \<open>ms\<close>, prunes and broadcasts.
  \<open>kept\<close> are the appended messages that survive: what each client is then sent.
\<close>

definition kept :: "TopologyMessage list \<Rightarrow> TopologyMessage list \<Rightarrow> TopologyMessage list" where
  "kept hist ms = filter (\<lambda>m. \<not> removed (left_ids (hist @ ms)) m) ms"

lemma left_ids_kept [simp]: "left_ids (kept hist ms) = left_ids ms"
  by (simp add: kept_def)

lemma settled_kept: "settled {} hist \<Longrightarrow> settled {} (hist @ kept hist ms)"
  by (simp add: settled_append kept_def settled_keep)

lemma prune_append:
  "prune (hist @ ms) = prune (hist @ kept hist ms)"
  by (simp add: prune_def kept_def conj_commute)

lemma prune_kept:
  "prune (hist @ ms) = filter (\<lambda>m. \<not> removed (left_ids (hist @ ms)) m) hist @ kept hist ms"
  by (simp add: prune_def kept_def)

lemma last_seq_keep:
  assumes "settled {} hist" "kept hist ms = []"
  shows "last_seq (filter (\<lambda>m. \<not> removed (left_ids (hist @ ms)) m) hist) = last_seq hist"
proof (cases hist rule: rev_cases)
  case Nil
  then show ?thesis by simp
next
  case (snoc xs x)
  have "left_ids ms = {}" using assms(2) left_ids_kept [of hist ms] by simp
  moreover have "\<not> removed (left_ids hist) x" using settled_last [OF assms(1)] snoc by simp
  ultimately show ?thesis using snoc by (simp add: last_seq_append)
qed

lemma last_seq_prune:
  assumes "settled {} hist"
  shows "last_seq (prune (hist @ ms)) = last_seq (hist @ kept hist ms)"
  using last_seq_keep [OF assms] by (auto simp: prune_kept last_seq_append)

lemma newer_kept: "newer hist ms \<Longrightarrow> newer hist (kept hist ms)"
  by (simp add: kept_def newer_filter)

lemma topology_prune:
  assumes "settled {} hist" "1 \<notin> left_ids (hist @ ms)" "no_zero_topic (hist @ ms)"
  shows "topology (prune (hist @ ms)) = topology (hist @ kept hist ms)"
proof -
  have "no_zero_topic (hist @ kept hist ms)"
    using assms(3) by (auto simp: no_zero_topic_def kept_def)
  with topology_keep [OF settled_kept [OF assms(1)]] assms(2)
  have "topology (prune (hist @ kept hist ms)) = topology (hist @ kept hist ms)"
    unfolding prune_def prune_loop_filter by simp
  then show ?thesis by (simp add: prune_append [symmetric])
qed

definition synced ::
  "TopologyMessage list \<Rightarrow> TopologyMessage list \<Rightarrow> TopologyServer \<Rightarrow> TopologyServer" where
  "synced hist ms h = h\<lparr>
     ts_history := prune (hist @ ms),
     ts_clients := map (\<lambda>(c, cl). (c, cl\<lparr>cl_seq := last_seq (prune (hist @ ms))\<rparr>)) (ts_clients h),
     ts_wire := ts_wire h @ concat (map (\<lambda>(c, cl). map (Pair c) (kept hist ms)) (ts_clients h))\<rparr>"

lemma ordered_prune: "ordered strict ms \<Longrightarrow> ordered strict (prune ms)"
  by (simp add: prune_def ordered_filter)

lemma set_prune: "set (prune ms) \<subseteq> set ms"
  by (auto simp: prune_def)

lemma settled_prune: "settled {} (prune ms)"
  by (simp add: prune_def settled_keep)

lemma Broadcast_PruneRemoved:
  assumes "settled {} hist" "ordered strict hist" "newer hist ms" "ts_history h = hist @ ms"
    and "\<forall>m\<in>set ms. seq m < ts_nextSeq h"
    and "\<forall>(c, cl)\<in>set (ts_clients h). cl_seq cl = last_seq hist"
  shows "Broadcast (PruneRemoved h) = Inr (synced hist ms h)"
proof -
  let ?old = "filter (\<lambda>m. \<not> removed (left_ids (hist @ ms)) m) hist"
  have "\<forall>m\<in>set ?old. seq m \<le> last_seq hist" using assms(2) by (auto dest: ordered_le_last)
  moreover have "\<forall>m\<in>set (kept hist ms). seq m < ts_nextSeq h" using assms(5) by (auto simp: kept_def)
  ultimately have "broadcast_clients (ts_nextSeq h) (prune (hist @ ms)) (ts_clients h) (ts_wire h) =
      Inr (map (\<lambda>(c, cl). (c, cl\<lparr>cl_seq := last_seq (prune (hist @ ms))\<rparr>)) (ts_clients h),
        ts_wire h @ concat (map (\<lambda>(c, cl). map (Pair c) (kept hist ms)) (ts_clients h)))"
    using broadcast_clients_eq [OF newer_kept [OF assms(3)] _ _ assms(6)]
    by (simp add: last_seq_prune [OF assms(1)]) (simp add: prune_kept)
  then show ?thesis
    by (simp add: Broadcast_def PruneRemoved_def synced_def assms(4))
qed

lemma fst_set_synced [simp]: "fst ` set (ts_clients (synced hist ms h)) = fst ` set (ts_clients h)"
  by (force simp: synced_def)

lemma synced_simps [simp]:
  "ts_history (synced hist ms h) = prune (hist @ ms)"
  "ts_nextSeq (synced hist ms h) = ts_nextSeq h"
  "ts_draws (synced hist ms h) = ts_draws h"
  "map fst (ts_clients (synced hist ms h)) = map fst (ts_clients h)"
  "map (cl_nodeId \<circ> snd) (ts_clients (synced hist ms h)) = map (cl_nodeId \<circ> snd) (ts_clients h)"
  by (auto simp: synced_def)

lemma synced_seq:
  "(c, cl) \<in> set (ts_clients (synced hist ms h)) \<Longrightarrow> cl_seq cl = last_seq (prune (hist @ ms))"
  by (auto simp: synced_def)

lemma stream_synced:
  assumes "distinct (map fst (ts_clients h))"
  shows "stream c (ts_wire (synced hist ms h)) =
    stream c (ts_wire h) @ (if c \<in> fst ` set (ts_clients h) then kept hist ms else [])"
  by (simp add: synced_def stream_broadcast [OF assms])

lemma fst_set_wire_synced:
  "fst ` set (ts_wire (synced hist ms h)) \<subseteq> fst ` set (ts_wire h) \<union> fst ` set (ts_clients h)"
  by (force simp: synced_def)

text \<open>The common part of all handlers: append, prune, broadcast.\<close>

lemma commit_outcome:
  assumes I: "hub_inv strict (Suc k) C U h" and CU: "C \<subseteq> U"
    and hist: "ts_history h' = ts_history h @ ms" and wire: "ts_wire h' = ts_wire h"
    and cs: "distinct (map fst (ts_clients h'))" "fst ` set (ts_clients h') = C'" "C' \<subseteq> C"
      "\<forall>(c, cl)\<in>set (ts_clients h'). cl_seq cl = last_seq (ts_history h)"
    and ms: "newer (ts_history h) ms" "no_zero_topic ms"
      "\<forall>m\<in>set (ts_history h @ ms). seq m < ts_nextSeq h'"
    and room: "unat (ts_nextSeq h') + k < 2 ^ 64" "0 < ts_nextSeq h'"
  shows "outcome {} (hub_inv strict k C' U) (Broadcast (PruneRemoved h'))"
proof -
  let ?hist = "ts_history h" and ?h = "synced (ts_history h) ms h'"
  have ok: "settled {} ?hist" "no_zero_topic ?hist" "ordered strict ?hist"
    using I by (auto simp: hub_inv_def hub_ok_def)
  have log: "ordered strict (?hist @ ms)" using ordered_newer [OF ok(3) ms(1)] .
  have "Broadcast (PruneRemoved h') = Inr ?h"
    by (rule Broadcast_PruneRemoved) (use ok hist ms cs in auto)
  moreover have "hub_ok strict ?h"
    using ms cs(1) room(2) ok log set_prune [of "?hist @ ms"] ordered_prune settled_prune
    by (auto simp: hub_ok_def no_zero_topic_def dest: synced_seq)
  moreover have "view_ok strict ?h c" if c: "c \<in> C'" for c
  proof -
    from c cs(3) I have v: "view_ok strict h c" by (auto simp: hub_inv_def)
    have st: "stream c (ts_wire ?h) = stream c (ts_wire h) @ kept ?hist ms"
      using c cs wire by (simp add: stream_synced)
    have "newer (stream c (ts_wire h)) (kept ?hist ms)"
      using newer_kept [OF ms(1)] v by (simp add: newer_def view_ok_def)
    then have "ordered strict (stream c (ts_wire h) @ kept ?hist ms)"
      using v by (simp add: ordered_newer view_ok_def)
    moreover have "topology (prune (?hist @ ms)) = topology (stream c (ts_wire h) @ kept ?hist ms)"
      if "1 \<notin> left_ids (?hist @ ms)"
    proof -
      have "no_zero_topic (?hist @ ms)" using ok ms by (auto simp: no_zero_topic_def)
      from topology_prune [OF ok(1) that this] v that show ?thesis
        by (simp add: topology_append view_ok_def)
    qed
    moreover have "settled {} (stream c (ts_wire h) @ kept ?hist ms)"
      using v settled_kept [OF ok(1), of ms] by (simp add: view_ok_def settled_append)
    moreover have "no_zero_topic (stream c (ts_wire h) @ kept ?hist ms)"
      using v ms(2) by (auto simp: view_ok_def no_zero_topic_def kept_def)
    ultimately show ?thesis
      using v by (simp add: view_ok_def st last_seq_prune [OF ok(1)] last_seq_append)
  qed
  moreover have "fst ` set (ts_wire h) \<subseteq> U" using I by (simp add: hub_inv_def)
  with fst_set_wire_synced [of ?hist ms h', unfolded wire cs(2)] CU cs(3)
  have "fst ` set (ts_wire ?h) \<subseteq> U" by blast
  ultimately show ?thesis
    using I cs room by (simp add: hub_inv_def)
qed

section \<open>Every operation keeps the invariant\<close>

subsection \<open>\<open>OnConnect\<close>\<close>

lemma send_digest_eq:
  assumes "sorted (map seq ms)" "\<forall>m\<in>set ms. cl_seq cl \<le> seq m"
  shows "send_digest c ms cl w =
    Inr (if ms = [] then cl else cl\<lparr>cl_seq := last_seq ms\<rparr>, w @ map (Pair c) ms)"
  using assms by (induction ms arbitrary: cl w) (auto simp: last_seq_def)

lemma OnConnect_eq:
  assumes "sorted (map seq (ts_history h))" "map_of (ts_clients h) c = None"
  shows "OnConnect c h = Inr (h\<lparr>
      ts_clients := ts_clients h @ [(c, default_Client\<lparr>cl_seq := last_seq (ts_history h)\<rparr>)],
      ts_wire := ts_wire h @ map (Pair c) (ts_history h)\<rparr>)"
  using assms
  by (auto simp: OnConnect_def Let_def send_digest_eq default_Client_def map_of_emplace update_new)

lemma OnConnect_outcome:
  assumes I: "hub_inv strict (Suc k) C U h" and "C \<subseteq> U" "c \<notin> U"
  shows "outcome {} (hub_inv strict k (insert c C) (insert c U)) (OnConnect c h)"
proof -
  have new: "c \<notin> fst ` set (ts_clients h)" "c \<notin> fst ` set (ts_wire h)"
    using assms by (auto simp: hub_inv_def)
  then have "OnConnect c h = Inr (h\<lparr>
      ts_clients := ts_clients h @ [(c, default_Client\<lparr>cl_seq := last_seq (ts_history h)\<rparr>)],
      ts_wire := ts_wire h @ map (Pair c) (ts_history h)\<rparr>)"
    using I by (intro OnConnect_eq) (auto simp: hub_inv_def hub_ok_def ordered_sorted map_of_eq_None_iff)
  with I new show ?thesis
    by (auto simp: hub_inv_def hub_ok_def view_ok_def stream_empty)
qed

subsection \<open>\<open>OnDisconnect\<close>\<close>

lemma leave_message_simps [simp]:
  "seq (leave_message s n) = s" "uid (leave_message s n) = 0"
  "leaves (leave_message s n)" "msg_key (leave_message s n) = Some n"
  "\<not> has_topic_change (leave_message s n)" "has_node_change (leave_message s n)"
  "node_change (leave_message s n) = \<lparr>nc_id = n, nc_op = LEAVE, nc_name = [], nc_address = []\<rparr>"
  by (simp_all add: leave_message_def mutable_node_change_def default_TopologyMessage_def
      default_NodeChange_def leaves_def msg_key_def oneof_defs)

lemma last_seq_less_next: "hub_ok strict h \<Longrightarrow> last_seq (ts_history h) < ts_nextSeq h"
  by (auto simp: hub_ok_def last_seq_def)

text \<open>A message minted with the next sequence number is new.\<close>

lemma minted_newer:
  assumes "hub_inv strict (Suc k) C U h" "seq m = ts_nextSeq h"
  shows "newer (ts_history h) [m]"
    and "\<forall>x\<in>set (ts_history h @ [m]). seq x < ts_nextSeq h + 1"
    and "unat (ts_nextSeq h + 1) + k < 2 ^ 64" and "0 < ts_nextSeq h + 1"
proof -
  have ok: "hub_ok strict h" and room: "unat (ts_nextSeq h) + Suc k < 2 ^ 64"
    using assms(1) by (auto simp: hub_inv_def)
  have less: "ts_nextSeq h < ts_nextSeq h + 1" using room by (intro u64_less_inc) simp
  show "newer (ts_history h) [m]"
    using last_seq_less_next [OF ok] assms(2) by (simp add: newer_single)
  show "\<forall>x\<in>set (ts_history h @ [m]). seq x < ts_nextSeq h + 1"
    using ok assms(2) less by (auto simp: hub_ok_def intro: less_trans)
  show "unat (ts_nextSeq h + 1) + k < 2 ^ 64" using room unat_u64_inc [of "ts_nextSeq h"] by simp
  show "0 < ts_nextSeq h + 1" using less by (rule u64_less_pos)
qed

lemma set_delete_subset: "set (AList.delete c al) \<subseteq> set al"
  by (auto simp: AList.delete_eq)

lemma OnDisconnect_outcome:
  assumes I: "hub_inv strict (Suc k) C U h" and c: "c \<in> C" "C \<subseteq> U"
  shows "outcome {} (hub_inv strict k (C - {c}) U) (OnDisconnect c h)"
proof -
  have "map_of (ts_clients h) c \<noteq> None"
    using I c(1) by (auto simp: hub_inv_def map_of_eq_None_iff)
  then obtain cl where cl: "map_of (ts_clients h) c = Some cl" by blast
  let ?m = "leave_message (ts_nextSeq h) (cl_nodeId cl)"
  let ?h = "mint_leave (cl_nodeId cl) h\<lparr>ts_clients := AList.delete c (ts_clients h)\<rparr>"
  have ids: "fst ` set (AList.delete c (ts_clients h)) = C - {c}"
    using I by (auto simp: hub_inv_def AList.delete_eq)
  have cs: "distinct (map fst (AList.delete c (ts_clients h)))"
      "\<forall>(c, cl)\<in>set (AList.delete c (ts_clients h)). cl_seq cl = last_seq (ts_history h)"
    using I set_delete_subset [of c "ts_clients h"]
    by (auto simp: hub_inv_def hub_ok_def distinct_delete)
  have "outcome {} (hub_inv strict k (C - {c}) U) (Broadcast (PruneRemoved ?h))"
    by (rule commit_outcome [OF I c(2), where ms = "[?m]"])
      (use cs ids minted_newer [OF I, of ?m] in \<open>auto simp: mint_leave_def no_zero_topic_def\<close>)
  then show ?thesis by (simp add: OnDisconnect_def cl mint_leave_def)
qed

subsection \<open>\<open>OnData\<close>\<close>

lemma message_node_id_topic:
  "message_node_id m \<noteq> 0 \<Longrightarrow> has_topic_change m \<Longrightarrow> tc_node_id (topic_change m) \<noteq> 0"
  by (auto simp: message_node_id_def oneof_defs split: oneof_op.splits)

lemma minted_simps [simp]:
  "has_topic_change (m\<lparr>seq := a, uid := b\<rparr>) = has_topic_change m"
  "has_node_change (m\<lparr>seq := a, uid := b\<rparr>) = has_node_change m"
  "topic_change (m\<lparr>seq := a, uid := b\<rparr>) = topic_change m"
  "node_change (m\<lparr>seq := a, uid := b\<rparr>) = node_change m"
  by (simp_all add: oneof_defs)

text \<open>What \<open>AddNovelMessage\<close> and \<open>AddOldMessage\<close> may do to the hub.\<close>

definition extends :: "nat \<Rightarrow> TopologyServer \<Rightarrow> Client \<Rightarrow> Client \<times> TopologyServer \<Rightarrow> bool" where
  "extends k h cl r = (case r of (cl', h') \<Rightarrow>
     cl_seq cl' = cl_seq cl \<and> cl_nodeId cl' = cl_nodeId cl \<and>
     ts_clients h' = ts_clients h \<and> ts_wire h' = ts_wire h \<and>
     unat (ts_nextSeq h') + k < 2 ^ 64 \<and> 0 < ts_nextSeq h' \<and>
     (\<exists>ms. ts_history h' = ts_history h @ ms \<and> newer (ts_history h) ms \<and> no_zero_topic ms \<and>
       (\<forall>m\<in>set (ts_history h @ ms). seq m < ts_nextSeq h')))"

lemma extends_refl: "hub_inv strict (Suc k) C U h \<Longrightarrow> extends k h cl (cl, h)"
  by (auto simp: extends_def hub_inv_def hub_ok_def no_zero_topic_def)

lemma AddNovelMessage_extends:
  assumes I: "hub_inv strict (Suc k) C U h" and m: "message_node_id m \<noteq> 0"
  shows "extends k h cl (AddNovelMessage rng m cl h)"
proof (cases "IsRedundant m cl")
  case True
  with I show ?thesis by (simp add: AddNovelMessage_def extends_refl)
next
  case False
  let ?m = "m\<lparr>seq := ts_nextSeq h, uid := rng (ts_draws h)\<rparr>"
  have "no_zero_topic [?m]" using message_node_id_topic [OF m] by (simp add: no_zero_topic_def)
  with minted_newer [OF I, of ?m] False show ?thesis
    by (auto simp: AddNovelMessage_def extends_def Let_def)
qed

lemma AddOldMessage_extends:
  assumes I: "hub_inv strict (Suc k) C U h" and m: "message_node_id m \<noteq> 0"
    and s: "seq m \<noteq> 0" "unat (seq m) < 2 ^ 63"
  shows "outcome {Assertion_failed Uid_nonzero, Assertion_failed Same_message}
    (extends k h cl) (AddOldMessage m cl h)"
proof (cases "lower_bound seq_less (ts_history h) m = length (ts_history h)")
  case True
  then have less: "\<forall>x\<in>set (ts_history h). seq x < seq m"
    by (simp add: lower_bound_end_iff seq_less_def)
  have k: "k < 2 ^ 63" and ok: "hub_ok strict h" using I by (auto simp: hub_inv_def)
  have room: "unat (seq m + 1) = unat (seq m) + 1"
    using s(2) by (intro unat_u64_inc) simp
  have inc: "seq m < seq m + 1"
    using s(2) by (intro u64_less_inc) simp
  have "newer (ts_history h) [m]"
    using less s(1) by (auto simp: newer_single last_seq_def word_neq_0_conv)
  moreover have "no_zero_topic [m]"
    using message_node_id_topic [OF m] by (simp add: no_zero_topic_def)
  moreover have "vector_insert (length (ts_history h)) m (ts_history h) = ts_history h @ [m]"
    by (simp add: vector_insert_def)
  ultimately show ?thesis
    using True room inc less k s(2)
    by (auto simp: AddOldMessage_def Let_def extends_def assert_that_def
        intro: less_trans u64_less_pos)
next
  case False
  with extends_refl [OF I] show ?thesis
    by (auto simp: AddOldMessage_def Let_def assert_that_def)
qed

definition data_ok :: "(bytes \<Rightarrow> TopologyMessage) \<Rightarrow> bytes \<Rightarrow> bool" where
  "data_ok parse bs \<longleftrightarrow> unat (seq (parse bs)) < 2 ^ 63"

abbreviation data_faults :: "fault set" where
  "data_faults \<equiv> {Assertion_failed Uid_nonzero, Assertion_failed Same_message}"

lemma updated_seqs:
  assumes "hub_ok strict h" "map_of (ts_clients h) c = Some cl" "cl_seq cl' = cl_seq cl"
  shows "\<forall>(d, x)\<in>set (AList.update c cl' (ts_clients h)). cl_seq x = last_seq (ts_history h)"
proof -
  have old: "\<forall>x\<in>set (ts_clients h). cl_seq (snd x) = last_seq (ts_history h)"
    using assms(1) by (auto simp: hub_ok_def)
  with map_of_SomeD [OF assms(2)] assms(3) have "cl_seq cl' = last_seq (ts_history h)" by force
  with old have "\<forall>x\<in>insert (c, cl') (set (ts_clients h)). cl_seq (snd x) = last_seq (ts_history h)"
    by simp
  with set_update_subset [of c cl' "ts_clients h"] show ?thesis
    unfolding split_beta by blast
qed

lemma OnData_commit:
  assumes I: "hub_inv strict (Suc k) C U h" and c: "c \<in> C" "C \<subseteq> U"
    and r: "extends k h (cl\<lparr>cl_nodeId := n\<rparr>) r" and cl: "map_of (ts_clients h) c = Some cl"
  shows "outcome T (hub_inv strict k C U) (case r of (client, h) \<Rightarrow>
    Broadcast (PruneRemoved (h\<lparr>ts_clients := AList.update c client (ts_clients h)\<rparr>)))"
proof -
  obtain cl' h' ms where r': "r = (cl', h')" and ms: "ts_history h' = ts_history h @ ms"
      "newer (ts_history h) ms" "no_zero_topic ms"
      "\<forall>m\<in>set (ts_history h @ ms). seq m < ts_nextSeq h'"
    and same: "cl_seq cl' = cl_seq cl" "ts_clients h' = ts_clients h" "ts_wire h' = ts_wire h"
    and room: "unat (ts_nextSeq h') + k < 2 ^ 64" "0 < ts_nextSeq h'"
    using r by (cases r) (auto simp: extends_def)
  let ?h = "h'\<lparr>ts_clients := AList.update c cl' (ts_clients h)\<rparr>"
  have dom: "fst ` set (AList.update c cl' (ts_clients h)) = C"
    using I c(1) by (auto simp: hub_inv_def dom_update)
  have dist: "distinct (map fst (AList.update c cl' (ts_clients h)))"
    using I by (simp add: hub_inv_def hub_ok_def distinct_update)
  have seqs: "\<forall>(d, x)\<in>set (AList.update c cl' (ts_clients h)). cl_seq x = last_seq (ts_history h)"
    using I same(1) by (intro updated_seqs [OF _ cl, of strict]) (simp_all add: hub_inv_def)
  have proj: "ts_history ?h = ts_history h @ ms" "ts_wire ?h = ts_wire h"
      "ts_clients ?h = AList.update c cl' (ts_clients h)" "ts_nextSeq ?h = ts_nextSeq h'"
    using ms(1) same(3) by simp_all
  have "outcome {} (hub_inv strict k C U) (Broadcast (PruneRemoved ?h))"
    by (rule commit_outcome [OF I c(2) proj(1,2) _ _ subset_refl _ ms(2,3)])
      (unfold proj, (fact dist dom seqs ms(4) room)+)
  then show ?thesis by (auto simp: r' same(2) outcome_total)
qed

lemma OnData_outcome:
  assumes I: "hub_inv strict (Suc k) C U h" and c: "c \<in> C" "C \<subseteq> U" and d: "data_ok parse bs"
  shows "outcome data_faults (hub_inv strict k C U) (OnData parse rng c bs h)"
proof -
  let ?m = "parse bs"
  have less: "hub_inv strict k C U h" using I by (rule hub_inv_antimono) simp
  have "map_of (ts_clients h) c \<noteq> None"
    using I c(1) by (auto simp: hub_inv_def map_of_eq_None_iff)
  then obtain cl where cl: "map_of (ts_clients h) c = Some cl" by blast
  let ?cl = "cl\<lparr>cl_nodeId := message_node_id ?m\<rparr>"
  show ?thesis
  proof (cases "bs = [] \<or> message_node_id ?m = 0")
    case True
    with less show ?thesis by (auto simp: OnData_def Let_def)
  next
    case False
    have "outcome data_faults (extends k h ?cl)
        (if seq ?m = 0 then Inr (AddNovelMessage rng ?m ?cl h) else AddOldMessage ?m ?cl h)"
      using False d AddNovelMessage_extends [OF I] AddOldMessage_extends [OF I]
      by (auto simp: data_ok_def)
    from outcome_bind [OF this OnData_commit [OF I c _ cl]] False cl show ?thesis
      by (simp add: OnData_def Let_def)
  qed
qed

subsection \<open>\<open>PurgeDisconnected\<close>\<close>

definition ready :: "nat \<Rightarrow> TopologyServer \<Rightarrow> bool" where
  "ready k h \<longleftrightarrow> (\<forall>m\<in>set (ts_history h). seq m < ts_nextSeq h) \<and>
     0 < ts_nextSeq h \<and> unat (ts_nextSeq h) + k < 2 ^ 64"

lemma ready_mint_leave:
  assumes "ready (Suc k) h"
  shows "ready k (mint_leave n h)" "ts_nextSeq h < ts_nextSeq (mint_leave n h)"
proof -
  have less: "ts_nextSeq h < ts_nextSeq h + 1"
    using assms by (intro u64_less_inc) (simp add: ready_def)
  with assms unat_u64_inc [of "ts_nextSeq h"] u64_less_pos [OF less]
  show "ready k (mint_leave n h)" "ts_nextSeq h < ts_nextSeq (mint_leave n h)"
    by (auto simp: ready_def mint_leave_def intro: less_trans)
qed

lemma purge_loop_effect:
  assumes "ready (k + length ns) h"
  shows "ready k (purge_loop con ns h) \<and>
    ts_clients (purge_loop con ns h) = ts_clients h \<and> ts_wire (purge_loop con ns h) = ts_wire h \<and>
    (\<exists>ms. ts_history (purge_loop con ns h) = ts_history h @ ms \<and>
      list_all leaves ms \<and> left_ids ms = set ns - con \<and> ordered True ms \<and>
      (\<forall>m\<in>set ms. ts_nextSeq h \<le> seq m \<and> (\<exists>n. m = leave_message (seq m) n)))"
  using assms
proof (induction ns arbitrary: h)
  case Nil
  then show ?case by auto
next
  case (Cons n ns)
  show ?case
  proof (cases "n \<in> con")
    case True
    have "ready (k + length ns) h" using Cons.prems by (simp add: ready_def)
    with Cons.IH [OF this] True show ?thesis by auto
  next
    case False
    have "ready (Suc (k + length ns)) h" using Cons.prems by simp
    note mint = ready_mint_leave [OF this, of n]
    from Cons.IH [OF mint(1)] obtain ms where ms:
        "ts_history (purge_loop con ns (mint_leave n h)) = ts_history (mint_leave n h) @ ms"
        "list_all leaves ms" "left_ids ms = set ns - con" "ordered True ms"
        "\<forall>m\<in>set ms. ts_nextSeq (mint_leave n h) \<le> seq m"
        "\<forall>m\<in>set ms. \<exists>n. m = leave_message (seq m) n"
      and rest: "ready k (purge_loop con ns (mint_leave n h))"
        "ts_clients (purge_loop con ns (mint_leave n h)) = ts_clients h"
        "ts_wire (purge_loop con ns (mint_leave n h)) = ts_wire h"
      by (auto simp: mint_leave_def)
    let ?m = "leave_message (ts_nextSeq h) n"
    have "ts_history (purge_loop con ns (mint_leave n h)) = ts_history h @ (?m # ms)"
      "list_all leaves (?m # ms)" "left_ids (?m # ms) = set (n # ns) - con"
      using ms False by (auto simp: mint_leave_def)
    moreover have above: "\<forall>m\<in>set ms. ts_nextSeq h < seq m"
      using ms(5) mint(2) by (auto intro: less_le_trans)
    moreover from this ms(4) Cons.prems have "ordered True (?m # ms)"
      by (simp add: ordered_Cons ready_def)
    moreover have "\<forall>m\<in>set (?m # ms). ts_nextSeq h \<le> seq m"
      using above by (auto intro: less_imp_le)
    moreover have "\<forall>m\<in>set (?m # ms). \<exists>n. m = leave_message (seq m) n" using ms(6) by auto
    ultimately show ?thesis using rest False by auto
  qed
qed

lemma hub_ready: "hub_inv strict k C U h \<Longrightarrow> ready k h"
  by (simp add: ready_def hub_inv_def hub_ok_def)

lemma leaves_no_topic: "list_all leaves ms \<Longrightarrow> no_zero_topic ms"
  by (auto simp: no_zero_topic_def leaves_def list_all_iff oneof_defs split: oneof_op.splits)

lemma PurgeDisconnected_outcome:
  assumes I: "hub_inv strict (Suc (k + length (order (historicallyActive (ts_history h) [])))) C U h"
    and CU: "C \<subseteq> U"
  shows "outcome {} (hub_inv strict k C U) (PurgeDisconnected order h)"
proof -
  let ?ns = "order (historicallyActive (ts_history h) [])"
  let ?h = "purge_loop (connected_ids h) ?ns h"
  have "ready (k + length ?ns) h" using hub_ready [OF I] by (simp add: ready_def)
  from purge_loop_effect [OF this, of "connected_ids h"] obtain ms where
    ms: "ts_history ?h = ts_history h @ ms" "list_all leaves ms" "ordered True ms"
      "\<forall>m\<in>set ms. ts_nextSeq h \<le> seq m"
    and r: "ready k ?h" and same: "ts_clients ?h = ts_clients h" "ts_wire ?h = ts_wire h" by blast
  have I': "hub_inv strict (Suc k) C U h" using I by (rule hub_inv_antimono) simp
  have cs: "distinct (map fst (ts_clients h))" "fst ` set (ts_clients h) = C"
      "\<forall>(c, cl)\<in>set (ts_clients h). cl_seq cl = last_seq (ts_history h)"
    using I by (auto simp: hub_inv_def hub_ok_def)
  have new: "newer (ts_history h) ms"
    using ms(3,4) last_seq_less_next [of strict h] I by (auto simp: newer_def hub_inv_def intro: less_le_trans)
  have r': "\<forall>m\<in>set (ts_history h @ ms). seq m < ts_nextSeq ?h"
      "unat (ts_nextSeq ?h) + k < 2 ^ 64" "0 < ts_nextSeq ?h"
    using r ms(1) by (simp_all add: ready_def del: set_append)
  show ?thesis
    unfolding PurgeDisconnected_def Let_def
    by (rule commit_outcome [OF I' CU ms(1) same(2) _ _ subset_refl _ new leaves_no_topic [OF ms(2)]])
      (unfold same, (fact cs r')+)
qed

subsection \<open>The constructor\<close>

lemma digest_next_seq_eq: "digest_next_seq ms n = (if ms = [] then n else last_seq ms + 1)"
  by (induction ms arbitrary: n) (auto simp: last_seq_def)

lemma TopologyServer_init_inv:
  assumes "ordered strict digest" "settled {} digest" "no_zero_topic digest"
    and "unat (last_seq digest) + 1 + k < 2 ^ 64" "k < 2 ^ 63"
  shows "hub_inv strict k {} {} (TopologyServer_init digest)"
proof -
  have "unat (last_seq digest) + 1 < 2 ^ 64" using assms(4) by linarith
  then have "last_seq digest < last_seq digest + 1" "unat (last_seq digest + 1) = unat (last_seq digest) + 1"
    by (rule u64_less_inc, rule unat_u64_inc)
  with assms ordered_le_last [OF assms(1)] show ?thesis
    by (auto simp: hub_inv_def hub_ok_def TopologyServer_init_def digest_next_seq_eq
        intro: le_less_trans u64_less_pos)
qed

section \<open>The hub's handlers satisfy the contract of \<open>UDSServer::MainLoop\<close>\<close>

interpretation hub: uds_handlers OnConnect OnDisconnect "OnData parse rng" "hub_inv strict"
  "data_ok parse" data_faults for parse rng strict
  by unfold_locales
    (auto intro: hub_inv_antimono OnConnect_outcome OnDisconnect_outcome OnData_outcome)

end
