(* ===== verification/HubEffects.thy ===== *)
theory HubEffects
  imports HubInvariant
begin

text \<open>
  Runs of \<open>UDSServer::MainLoop\<close> over the handlers of \<open>lib/TopologyServer.cc\<close>, and what each
  handler does to the history and to the topology it describes: the facts \<open>HubProperties\<close>
  rests on.
\<close>

section \<open>Runs of the main loop over the hub's handlers\<close>

text \<open>The three lambdas the constructor hands to \<open>UDSServer::Create\<close>.\<close>

definition hub_callbacks ::
  "(bytes \<Rightarrow> TopologyMessage) \<Rightarrow> (nat \<Rightarrow> u64) \<Rightarrow> TopologyServer uds_callbacks" where
  "hub_callbacks parse rng =
     \<lparr>onConnect = Some OnConnect, onDisconnect = Some OnDisconnect, onData = Some (OnData parse rng)\<rparr>"

definition hub_run ::
  "(bytes \<Rightarrow> TopologyMessage) \<Rightarrow> (nat \<Rightarrow> u64) \<Rightarrow> TopologyMessage list \<Rightarrow> int \<Rightarrow> int \<Rightarrow>
   uds_iteration list \<Rightarrow> (loop_status \<times> UDSServer \<times> TopologyServer) res" where
  "hub_run parse rng digest listenFd shutdownFd its =
     MainLoop (hub_callbacks parse rng) its
       (UDSServer_init listenFd shutdownFd, TopologyServer_init digest)"

text \<open>A digest a hub can start from with room for \<open>k\<close> handler calls.\<close>

definition digest_ok :: "bool \<Rightarrow> nat \<Rightarrow> TopologyMessage list \<Rightarrow> bool" where
  "digest_ok strict k digest \<longleftrightarrow> ordered strict digest \<and> settled {} digest \<and> no_zero_topic digest \<and>
     unat (last_seq digest) + 1 + k < 2 ^ 64 \<and> k < 2 ^ 63"

text \<open>What holds of a hub and its connections between two handler calls.\<close>

definition consistent :: "bool \<Rightarrow> UDSServer \<Rightarrow> TopologyServer \<Rightarrow> bool" where
  "consistent strict s h \<longleftrightarrow> fst ` set (ts_clients h) = set (us_clients s) \<and>
     (\<forall>c\<in>set (us_clients s). view_ok strict h c)"

lemma digest_start:
  assumes "digest_ok strict k digest"
  shows "hub.joint strict k (UDSServer_init l sh, TopologyServer_init digest)"
  using assms TopologyServer_init_inv [of strict digest k]
  by (simp add: digest_ok_def hub.joint_def UDSServer_init_def)

lemma joint_consistent: "hub.joint strict k (s, h) \<Longrightarrow> consistent strict s h"
  by (auto simp: hub.joint_def consistent_def hub_inv_def)

lemma hub_run_outcome:
  assumes "digest_ok strict (k + calls_bound 0 its) digest" "script_ok (data_ok parse) [] its"
  shows "outcome data_faults (\<lambda>(st, s, h).
      (st = Running \<longrightarrow> hub.joint strict k (s, h)) \<and> (\<exists>C U. hub_inv strict k C U h))
    (hub_run parse rng digest l sh its)"
proof -
  have "hub.joint strict (k + calls_bound (card (set (us_clients (UDSServer_init l sh)))) its)
      (UDSServer_init l sh, TopologyServer_init digest)"
    using digest_start [OF assms(1)] by (simp add: UDSServer_init_def)
  from hub.MainLoop_outcome [OF this] assms(2) show ?thesis
    by (simp add: hub_run_def hub_callbacks_def UDSServer_init_def)
qed

text \<open>
  Clients that have never been sent anything mint their messages without a sequence number.
  With such messages only, no handler faults.
\<close>

definition novel :: "(bytes \<Rightarrow> TopologyMessage) \<Rightarrow> bytes \<Rightarrow> bool" where
  "novel parse bs \<longleftrightarrow> seq (parse bs) = 0"

lemma OnData_novel_outcome:
  assumes I: "hub_inv strict (Suc k) C U h" and c: "c \<in> C" "C \<subseteq> U" and d: "novel parse bs"
  shows "outcome {} (hub_inv strict k C U) (OnData parse rng c bs h)"
proof -
  have "data_ok parse bs" using d by (simp add: data_ok_def novel_def)
  from OnData_outcome [OF I c this, of rng] have out: "outcome data_faults (hub_inv strict k C U) (OnData parse rng c bs h)" .
  have "map_of (ts_clients h) c \<noteq> None"
    using I c(1) by (auto simp: hub_inv_def map_of_eq_None_iff)
  then obtain cl where cl: "map_of (ts_clients h) c = Some cl" by blast
  let ?cl = "cl\<lparr>cl_nodeId := message_node_id (parse bs)\<rparr>"
  show ?thesis
  proof (cases "bs = [] \<or> message_node_id (parse bs) = 0")
    case True
    have "OnData parse rng c bs h = Inr h" using True by (auto simp: OnData_def Let_def)
    with out show ?thesis by simp
  next
    case False
    have "extends k h ?cl (AddNovelMessage rng (parse bs) ?cl h)"
      using AddNovelMessage_extends [OF I] False by simp
    from OnData_commit [OF I c this cl] False cl d show ?thesis
      by (simp add: OnData_def Let_def novel_def)
  qed
qed

interpretation novel_hub: uds_handlers OnConnect OnDisconnect "OnData parse rng" "hub_inv strict"
  "novel parse" "{}" for parse rng strict
  by unfold_locales
    (auto intro: hub_inv_antimono OnConnect_outcome OnDisconnect_outcome OnData_novel_outcome)

section \<open>The effect of the handlers on the topology\<close>

lemma leaves_kept: "list_all leaves ms \<Longrightarrow> kept hist ms = ms"
  by (auto simp: kept_def filter_id_conv list_all_iff)

lemma topology_step_leave: "leaves m \<Longrightarrow> topology_step m V = V(nc_id (node_change m) := None)"
  by (auto simp: topology_step_def keyed_step_def leaves_key topology_cell_def leaves_def oneof_defs
      split: oneof_op.splits)

lemma topology_step_restamp [simp]: "topology_step (m\<lparr>seq := a, uid := b\<rparr>) = topology_step m"
  by (auto simp: fun_eq_iff topology_step_def keyed_step_def msg_key_def topology_cell_def
      split: option.splits oneof_op.splits)

lemma topology_leaves:
  "list_all leaves ms \<Longrightarrow> fold topology_step ms V = V |` (- left_ids ms)"
proof (induction ms arbitrary: V)
  case Nil
  then show ?case by simp
next
  case (Cons m ms)
  then show ?case by (auto simp: topology_step_leave restrict_map_def fun_eq_iff)
qed

text \<open>Appending departures and committing removes exactly the departed nodes.\<close>

lemma topology_depart:
  assumes "hub_ok strict h" "list_all leaves ms" "1 \<notin> left_ids (ts_history h @ ms)"
  shows "topology (prune (ts_history h @ ms)) = topology (ts_history h) |` (- left_ids ms)"
proof -
  have "no_zero_topic (ts_history h @ ms)"
    using assms leaves_no_topic by (auto simp: hub_ok_def no_zero_topic_def)
  with assms topology_prune [of "ts_history h" ms] show ?thesis
    by (simp add: hub_ok_def leaves_kept topology_append topology_leaves)
qed

lemma OnDisconnect_eq:
  assumes I: "hub_inv strict (Suc k) C U h" and cl: "map_of (ts_clients h) c = Some cl"
  shows "OnDisconnect c h = Inr (synced (ts_history h) [leave_message (ts_nextSeq h) (cl_nodeId cl)]
    (mint_leave (cl_nodeId cl) h\<lparr>ts_clients := AList.delete c (ts_clients h)\<rparr>))"
proof -
  let ?m = "leave_message (ts_nextSeq h) (cl_nodeId cl)"
  let ?h = "mint_leave (cl_nodeId cl) h\<lparr>ts_clients := AList.delete c (ts_clients h)\<rparr>"
  have "Broadcast (PruneRemoved ?h) = Inr (synced (ts_history h) [?m] ?h)"
    by (rule Broadcast_PruneRemoved)
      (use I minted_newer [OF I, of ?m] set_delete_subset [of c "ts_clients h"] in
        \<open>auto simp: hub_inv_def hub_ok_def mint_leave_def\<close>)
  then show ?thesis by (simp add: OnDisconnect_def cl mint_leave_def)
qed

text \<open>\<open>historicallyActive\<close> computes the nodes of the topology.\<close>

lemma set_historicallyActive:
  "dom V = set act \<Longrightarrow> dom (fold topology_step ms V) = set (historicallyActive ms act)"
proof (induction ms arbitrary: V act)
  case Nil
  then show ?case by simp
next
  case (Cons m ms)
  let ?act = "if \<not> has_node_change m then act
     else if nc_op (node_change m) = JOIN then set_emplace (nc_id (node_change m)) act
     else if nc_op (node_change m) = LEAVE then set_erase (nc_id (node_change m)) act else act"
  have "dom (topology_step m V) = set ?act"
    using Cons.prems
    by (cases rule: oneof_exhaust [of m]; cases "nc_op (node_change m)")
      (auto simp: topology_step_def keyed_step_def msg_key_def topology_cell_def
        split: option.splits if_splits)
  from Cons.IH [OF this] show ?case by simp
qed

lemma active_nodes: "set (historicallyActive ms []) = dom (topology ms)"
  using set_historicallyActive [of Map.empty "[]" ms] topology_append [of "[]" ms] by simp

lemma distinct_historicallyActive: "distinct act \<Longrightarrow> distinct (historicallyActive ms act)"
  by (induction ms arbitrary: act) auto

lemma PurgeDisconnected_eq:
  assumes I: "hub_inv strict (Suc (k + length ns)) C U h"
    and ns: "ns = order (historicallyActive (ts_history h) [])"
  obtains ms where "list_all leaves ms" "left_ids ms = set ns - connected_ids h"
    "PurgeDisconnected order h = Inr (synced (ts_history h) ms (purge_loop (connected_ids h) ns h))"
    "newer (ts_history h) ms" "\<forall>m\<in>set ms. \<exists>n. m = leave_message (seq m) n"
    "ts_clients (purge_loop (connected_ids h) ns h) = ts_clients h"
    "ts_wire (purge_loop (connected_ids h) ns h) = ts_wire h"
proof -
  let ?h = "purge_loop (connected_ids h) ns h"
  have "ready (k + length ns) h" using hub_ready [OF I] by (simp add: ready_def)
  from purge_loop_effect [OF this, of "connected_ids h"] obtain ms where
    ms: "ts_history ?h = ts_history h @ ms" "list_all leaves ms" "left_ids ms = set ns - connected_ids h"
      "ordered True ms" "\<forall>m\<in>set ms. ts_nextSeq h \<le> seq m"
      "\<forall>m\<in>set ms. \<exists>n. m = leave_message (seq m) n"
    and r: "ready k ?h" and same: "ts_clients ?h = ts_clients h" "ts_wire ?h = ts_wire h" by blast
  have new: "newer (ts_history h) ms"
    using ms(4,5) last_seq_less_next [of strict h] I by (auto simp: newer_def hub_inv_def intro: less_le_trans)
  have "\<forall>m\<in>set ms. seq m < ts_nextSeq ?h" using r ms(1) by (simp add: ready_def)
  then have "Broadcast (PruneRemoved ?h) = Inr (synced (ts_history h) ms ?h)"
    by (intro Broadcast_PruneRemoved [where strict = strict])
      (use I ms(1) new same in \<open>auto simp: hub_inv_def hub_ok_def\<close>)
  with ms new same show ?thesis by (intro that [of ms]) (simp_all add: PurgeDisconnected_def ns)
qed

section \<open>Old messages\<close>

text \<open>The position \<open>lower_bound\<close> finds in an ordered history.\<close>

lemma lower_bound_hit:
  assumes "ordered strict hist" "lower_bound seq_less hist m < length hist"
  shows "\<forall>x\<in>set hist. seq x = seq m \<longrightarrow> x = hist ! lower_bound seq_less hist m"
    and "hist ! lower_bound seq_less hist m \<in> set hist"
proof -
  let ?i = "lower_bound seq_less hist m"
  have split: "hist = take ?i hist @ hist ! ?i # drop (Suc ?i) hist"
    using assms(2) by (rule id_take_nth_drop)
  have below: "\<forall>y\<in>set (take ?i hist). seq y < seq m"
    by (auto simp: lower_bound_def seq_less_def takeWhile_eq_take [symmetric] dest: set_takeWhileD)
  have le: "seq m \<le> seq (hist ! ?i)"
    using lower_bound_nth [OF assms(2)] by (simp add: seq_less_def)
  have "ordered strict (take ?i hist @ hist ! ?i # drop (Suc ?i) hist)"
    using assms(1) split by simp
  then have above: "\<forall>y\<in>set (drop (Suc ?i) hist). seq (hist ! ?i) < seq y \<or> y = hist ! ?i"
    by (auto simp: ordered_append ordered_Cons)
  show "\<forall>x\<in>set hist. seq x = seq m \<longrightarrow> x = hist ! ?i"
  proof (intro ballI impI)
    fix x assume "x \<in> set hist" "seq x = seq m"
    then have "x \<in> set (take ?i hist @ hist ! ?i # drop (Suc ?i) hist)" using split by simp
    with \<open>seq x = seq m\<close> below above le show "x = hist ! ?i" by auto
  qed
  show "hist ! ?i \<in> set hist" using assms(2) by simp
qed


lemma AddOldMessage_newest:
  assumes "ordered strict (ts_history h)" "\<forall>x\<in>set (ts_history h). seq x < seq m"
  shows "AddOldMessage m cl h =
    (if uid m = 0 then Inl (Assertion_failed Uid_nonzero)
     else Inr (cl\<lparr>cl_history := cl_history cl @ [m]\<rparr>,
       h\<lparr>ts_history := ts_history h @ [m], ts_nextSeq := seq m + 1\<rparr>))"
proof -
  have "lower_bound seq_less (ts_history h) m = length (ts_history h)"
    using assms(2) by (simp add: lower_bound_end_iff seq_less_def)
  then show ?thesis by (simp add: AddOldMessage_def Let_def vector_insert_def)
qed

lemma AddOldMessage_known:
  assumes "ordered strict (ts_history h)" "x \<in> set (ts_history h)" "seq x = seq m" "uid x = uid m"
  shows "AddOldMessage m cl h =
    (if TopologyMessage_eq x m then Inr (cl, h) else Inl (Assertion_failed Same_message))"
proof -
  have "lower_bound seq_less (ts_history h) m \<noteq> length (ts_history h)"
    using assms by (auto simp: lower_bound_end_iff seq_less_def intro!: bexI [of _ x])
  with lower_bound_le have less: "lower_bound seq_less (ts_history h) m < length (ts_history h)"
    by (rule le_neq_implies_less)
  then have "x = ts_history h ! lower_bound seq_less (ts_history h) m"
    using lower_bound_hit(1) [OF assms(1) less] assms(2,3) by blast
  with less assms show ?thesis by (auto simp: AddOldMessage_def Let_def)
qed

lemma AddOldMessage_rejected:
  assumes "ordered strict (ts_history h)" "\<exists>x\<in>set (ts_history h). seq m \<le> seq x"
    and "\<forall>x\<in>set (ts_history h). seq x = seq m \<longrightarrow> uid x \<noteq> uid m"
  shows "AddOldMessage m cl h = Inr (cl, h)"
proof -
  have "lower_bound seq_less (ts_history h) m \<noteq> length (ts_history h)"
    using assms(2) by (force simp: lower_bound_end_iff seq_less_def not_less)
  with lower_bound_le have less: "lower_bound seq_less (ts_history h) m < length (ts_history h)"
    by (rule le_neq_implies_less)
  with lower_bound_hit(2) [OF assms(1) less] assms(3) show ?thesis
    by (auto simp: AddOldMessage_def Let_def)
qed


text \<open>
  What a client sends of its history changes nothing, whether the hub has the message, has erased it
  or has another one under its number, as long as the hub is not behind and no two messages have
  the same number and \<open>uid\<close>.
\<close>

lemma OnData_echo:
  assumes I: "hub_inv strict (Suc k) C U h" and cl: "map_of (ts_clients h) c = Some cl"
    and m: "bs \<noteq> []" "seq (parse bs) \<noteq> 0" "message_node_id (parse bs) \<noteq> 0"
    and known: "seq (parse bs) \<le> last_seq (ts_history h)"
      "\<forall>x\<in>set (ts_history h). seq x = seq (parse bs) \<longrightarrow> uid x = uid (parse bs) \<longrightarrow> x = parse bs"
  shows "OnData parse rng c bs h = Inr (synced (ts_history h) []
    (h\<lparr>ts_clients := AList.update c (cl\<lparr>cl_nodeId := message_node_id (parse bs)\<rparr>) (ts_clients h)\<rparr>))"
proof -
  let ?m = "parse bs" and ?cl = "cl\<lparr>cl_nodeId := message_node_id (parse bs)\<rparr>"
  let ?h = "h\<lparr>ts_clients := AList.update c ?cl (ts_clients h)\<rparr>"
  have ord: "ordered strict (ts_history h)" using I by (simp add: hub_inv_def hub_ok_def)
  have ne: "ts_history h \<noteq> []" using known(1) m(2) by (auto simp: last_seq_def)
  have op: "TopologyMessage_eq ?m ?m"
    using m(3) by (auto simp: TopologyMessage_eq_iff message_node_id_def oneof_defs)
  have "AddOldMessage ?m ?cl h = Inr (?cl, h)"
  proof (cases "?m \<in> set (ts_history h)")
    case True
    from AddOldMessage_known [OF ord this, of ?m] op show ?thesis by simp
  next
    case False
    show ?thesis
      by (rule AddOldMessage_rejected [OF ord])
        (use known ne False in \<open>auto simp: last_seq_def intro!: bexI [of _ "last (ts_history h)"]\<close>)
  qed
  moreover have "Broadcast (PruneRemoved ?h) = Inr (synced (ts_history h) [] ?h)"
    by (rule Broadcast_PruneRemoved)
      (use I updated_seqs [OF _ cl, of strict ?cl] in \<open>auto simp: hub_inv_def hub_ok_def\<close>)
  ultimately show ?thesis using m cl by (simp add: OnData_def Let_def)
qed

section \<open>New messages\<close>

lemma OnData_redundant:
  assumes I: "hub_inv strict (Suc k) C U h" and cl: "map_of (ts_clients h) c = Some cl"
    and m: "bs \<noteq> []" "seq (parse bs) = 0" "message_node_id (parse bs) \<noteq> 0" "IsRedundant (parse bs) cl"
  shows "OnData parse rng c bs h = Inr (synced (ts_history h) []
    (h\<lparr>ts_clients := AList.update c (cl\<lparr>cl_nodeId := message_node_id (parse bs)\<rparr>) (ts_clients h)\<rparr>))"
proof -
  let ?cl = "cl\<lparr>cl_nodeId := message_node_id (parse bs)\<rparr>"
  let ?h = "h\<lparr>ts_clients := AList.update c ?cl (ts_clients h)\<rparr>"
  have "Broadcast (PruneRemoved ?h) = Inr (synced (ts_history h) [] ?h)"
    by (rule Broadcast_PruneRemoved)
      (use I updated_seqs [OF _ cl, of strict ?cl] in \<open>auto simp: hub_inv_def hub_ok_def\<close>)
  with m cl show ?thesis
    by (simp add: OnData_def Let_def AddNovelMessage_def IsRedundant_def)
qed

lemma OnData_fresh:
  assumes I: "hub_inv strict (Suc k) C U h" and cl: "map_of (ts_clients h) c = Some cl"
    and m: "bs \<noteq> []" "seq (parse bs) = 0" "message_node_id (parse bs) \<noteq> 0" "\<not> IsRedundant (parse bs) cl"
  obtains h' where "OnData parse rng c bs h =
      Inr (synced (ts_history h) [(parse bs)\<lparr>seq := ts_nextSeq h, uid := rng (ts_draws h)\<rparr>] h')"
    "ts_wire h' = ts_wire h" "fst ` set (ts_clients h') = C" "distinct (map fst (ts_clients h'))"
    "ts_nextSeq h' = ts_nextSeq h + 1"
    "map_of (ts_clients h') = (map_of (ts_clients h))(c \<mapsto> cl\<lparr>cl_nodeId := message_node_id (parse bs),
      cl_history := cl_history cl @ [(parse bs)\<lparr>seq := ts_nextSeq h, uid := rng (ts_draws h)\<rparr>]\<rparr>)"
proof -
  let ?m = "(parse bs)\<lparr>seq := ts_nextSeq h, uid := rng (ts_draws h)\<rparr>"
  let ?cl = "cl\<lparr>cl_nodeId := message_node_id (parse bs), cl_history := cl_history cl @ [?m]\<rparr>"
  let ?h = "h\<lparr>ts_nextSeq := ts_nextSeq h + 1, ts_draws := Suc (ts_draws h),
    ts_history := ts_history h @ [?m], ts_clients := AList.update c ?cl (ts_clients h)\<rparr>"
  have "Broadcast (PruneRemoved ?h) = Inr (synced (ts_history h) [?m] ?h)"
    by (rule Broadcast_PruneRemoved)
      (use I minted_newer [OF I, of ?m] updated_seqs [OF _ cl, of strict ?cl] in
        \<open>auto simp: hub_inv_def hub_ok_def\<close>)
  then have "OnData parse rng c bs h = Inr (synced (ts_history h) [?m] ?h)"
    using m cl by (simp add: OnData_def Let_def AddNovelMessage_def IsRedundant_def)
  moreover have "fst ` set (ts_clients ?h) = C"
    using I map_of_SomeD [OF cl] by (force simp: hub_inv_def dom_update)
  moreover have "distinct (map fst (ts_clients ?h))"
    using I by (simp add: hub_inv_def hub_ok_def distinct_update)
  ultimately show ?thesis by (intro that [of ?h]) (simp_all add: update_conv')
qed

text \<open>A message survives the commit unless its node has left.\<close>

lemma kept_live:
  assumes "1 \<notin> left_ids hist" "leaves m \<longrightarrow> nc_id (node_change m) \<noteq> 1" "message_node_id m \<notin> left_ids hist"
    and "has_topic_change m \<longrightarrow> tc_node_id (topic_change m) \<noteq> 0"
  shows "kept hist [m] = [m]"
  using assms
  by (cases rule: oneof_exhaust [of m])
    (auto simp: kept_def removed_def message_node_id_def leaves_def word_neq_0_conv)


lemma leave_message_eq: "leave_message s n = node_msg s 0 LEAVE n [] []"
  by (simp add: leave_message_def node_msg_def mutable_node_change_def default_TopologyMessage_def
      default_NodeChange_def node_change_def)

lemma topology_unjoined:
  assumes "\<forall>x\<in>set ms. \<not> (joins x \<and> msg_key x = Some n)"
  shows "topology ms n = None"
  unfolding topology_def keyed_run_at by (rule topo.fold_closed) (use assms in auto)

lemma IsRedundant_in_same_op:
  assumes "m' \<in> set hs" "msg_op m' = msg_op m" "message_node_id m \<noteq> 0"
  shows "IsRedundant_in m hs"
  using assms
  by (induction hs) (auto simp: message_node_id_def oneof_defs split: oneof_op.splits)

text \<open>A broadcast that meets a message not below \<open>mNextSeq\<close> stops at the assertion.\<close>

lemma broadcast_client_stops:
  assumes "m \<in> set ms" "cl_seq cl < seq m" "\<not> seq m < next" "\<forall>x\<in>set ms. seq x \<le> seq m"
    "\<forall>x\<in>set ms. x = m \<or> seq x \<le> cl_seq cl"
  shows "broadcast_client next c ms cl w = Inl (Assertion_failed Seq_below_next)"
  using assms
  by (induction ms arbitrary: cl w) (auto simp: assert_that_def)

end
