(* ===== verification/HubProperties.thy ===== *)
theory HubProperties
  imports HubEffects
begin

text \<open>
  The properties of the hub (\<open>lib/TopologyServer.cc\<close>), on its own and under
  \<open>UDSServer::MainLoop\<close>. A small hub with two clients serves as the concrete instance.
\<close>

section \<open>A concrete hub\<close>

definition sample_log :: "TopologyMessage list" where
  "sample_log = [node_msg 1 11 JOIN 7 ''a'' ''x'', topic_msg 2 12 SUBSCRIBE 7 ''t'' [],
     node_msg 3 13 JOIN 8 ''b'' ''y'']"

definition sample_hub :: TopologyServer where
  "sample_hub = \<lparr>ts_clients =
       [(5, \<lparr>cl_seq = 3, cl_nodeId = 7, cl_history = take 2 sample_log\<rparr>),
        (6, \<lparr>cl_seq = 3, cl_nodeId = 8, cl_history = drop 2 sample_log\<rparr>)],
     ts_nextSeq = 4, ts_history = sample_log,
     ts_wire = map (Pair 5) sample_log @ map (Pair 6) sample_log, ts_draws = 3\<rparr>"

lemma sample_log_ordered [simp]: "ordered strict sample_log"
  by (rule ordered_strictD) (simp add: sample_log_def ordered_strict)

lemma sample_log_facts [simp]:
  "settled {} sample_log" "no_zero_topic sample_log"
  "left_ids sample_log = {}" "last_seq sample_log = 3"
  by (simp_all add: sample_log_def no_zero_topic_def last_seq_def leaves_def removed_def)

lemma sample_hub_simps [simp]:
  "ts_history sample_hub = sample_log" "ts_nextSeq sample_hub = 4" "ts_draws sample_hub = 3"
  "topology sample_log 1 = None"
  by (simp_all add: sample_hub_def)
    (simp add: sample_log_def topology_def keyed_step_def msg_key_def)

lemma sample_hub_inv: "hub_inv strict 100 {5, 6} {5, 6} sample_hub"
proof -
  have "stream 5 (ts_wire sample_hub) = sample_log" "stream 6 (ts_wire sample_hub) = sample_log"
    by (simp_all add: sample_hub_def)
  moreover have "\<forall>m\<in>set sample_log. seq m < 4" by (simp add: sample_log_def)
  moreover have "fst ` set (ts_wire sample_hub) \<subseteq> {5, 6}" by (auto simp: sample_hub_def)
  ultimately show ?thesis
    by (simp add: hub_inv_def hub_ok_def view_ok_def) (simp add: sample_hub_def)
qed

text \<open>The same hub after the client with descriptor 5 has hung up.\<close>

definition departed_hub :: TopologyServer where
  "departed_hub = \<lparr>ts_clients =
       [(6, \<lparr>cl_seq = 4, cl_nodeId = 8, cl_history = drop 2 sample_log\<rparr>)],
     ts_nextSeq = 5, ts_history = drop 1 sample_log @ [node_msg 4 0 LEAVE 7 [] []],
     ts_wire = map (Pair 5) sample_log @ map (Pair 6) (sample_log @ [node_msg 4 0 LEAVE 7 [] []]),
     ts_draws = 3\<rparr>"

lemma OnDisconnect_sample_hub: "OnDisconnect 5 sample_hub = Inr departed_hub"
  by (simp add: OnDisconnect_def sample_hub_def departed_hub_def mint_leave_def sample_log_def
      leave_message_eq PruneRemoved_def prune_def Broadcast_def removed_def leaves_def AList.delete_eq)

lemma departed_hub_inv: "hub_inv strict 99 {6} {5, 6} departed_hub"
proof -
  have "hub_inv strict (Suc 99) {5, 6} {5, 6} sample_hub" using sample_hub_inv by simp
  from OnDisconnect_outcome [OF this, of 5] show ?thesis
    by (simp add: OnDisconnect_sample_hub insert_Diff_if)
qed

text \<open>A parser for one-byte records.\<close>

definition sample_parse :: "bytes \<Rightarrow> TopologyMessage" where
  "sample_parse bs =
     (if bs = [1] then node_msg 0 0 JOIN 7 ''a'' ''x''
      else if bs = [2] then topic_msg 0 0 SUBSCRIBE 7 ''t'' []
      else if bs = [3] then topic_msg 0 0 UNSUBSCRIBE 7 ''t'' []
      else if bs = [4] then topic_msg 2 12 SUBSCRIBE 7 ''t'' []
      else if bs = [5] then node_msg 9 0 LEAVE 8 [] []
      else if bs = [6] then node_msg (-1) 5 JOIN 8 ''b'' ''y''
      else default_TopologyMessage)"

definition sample_script :: "uds_iteration list" where
  "sample_script =
     [\<lparr>it_poll = Poll_ready 0 1 [], it_accept = 5, it_records = []\<rparr>,
      \<lparr>it_poll = Poll_ready 0 1 [(5, 1)], it_accept = 6, it_records = [(5, [1])]\<rparr>,
      \<lparr>it_poll = Poll_ready 0 0 [(5, 1), (6, 16)], it_accept = -1, it_records = [(5, [2])]\<rparr>]"

lemma sample_script_facts [simp]:
  "digest_ok strict (calls_bound 0 sample_script) []" "script_ok (novel sample_parse) [] sample_script"
  "script_ok (data_ok sample_parse) [] sample_script"
  by (simp_all add: sample_script_def digest_ok_def accepted_def novel_def data_ok_def sample_parse_def
      read_into_def UINT16_MAX_def no_zero_topic_def)

section \<open>Consistency of a run\<close>

text \<open>
  C6: Take a run of the server's main loop over the hub's three handlers, with any sequence of accepts,
  records and hang-ups, in which every sequence number received is below \<open>2 ^ 63\<close> (\<open>data_ok\<close>), started from
  a digest that is ordered, has nothing in it about a node after its \<open>LEAVE\<close> and no topic of node 0, and whose last
  number leaves room in 64 bits for all handler calls of the run (\<open>digest_ok\<close>). Then no internal
  assertion fails other than the two that check a message received with a sequence number
  (\<open>msg.uid() != 0\<close>, \<open>*hit == msg\<close>); while the loop runs, the hub knows exactly the connected
  descriptors, and each has been sent messages with increasing sequence numbers, up to the last of the
  history; and unless node 1 has left, these describe the topology of the history. No message
  is sent twice if the digest holds none twice (\<open>strict\<close>); otherwise messages with the same number
  are copies of one another. With a larger number received a third assertion can fail
  (\<open>last_sequence_number_stops_hub\<close>).
\<close>

theorem hub_run_consistent:
  assumes "digest_ok strict (calls_bound 0 its) digest" "script_ok (data_ok parse) [] its"
  shows "outcome {Assertion_failed Uid_nonzero, Assertion_failed Same_message}
    (\<lambda>(st, s, h). st = Running \<longrightarrow>
      fst ` set (ts_clients h) = set (us_clients s) \<and>
      (\<forall>c\<in>set (us_clients s). ordered strict (stream c (ts_wire h)) \<and>
        last_seq (stream c (ts_wire h)) = last_seq (ts_history h) \<and>
        (1 \<notin> left_ids (ts_history h) \<longrightarrow>
          topology (stream c (ts_wire h)) = topology (ts_history h))))
    (hub_run parse rng digest listenFd shutdownFd its)"
proof -
  have "digest_ok strict (0 + calls_bound 0 its) digest" using assms(1) by simp
  from hub_run_outcome [OF this assms(2)] show ?thesis
    by (rule outcome_mono) (clarsimp dest!: joint_consistent simp: consistent_def view_ok_def)
qed

lemma hub_run_consistent_witness:
  "outcome {Assertion_failed Uid_nonzero, Assertion_failed Same_message}
    (\<lambda>(st, s, h). st = Running \<longrightarrow>
      fst ` set (ts_clients h) = set (us_clients s) \<and>
      (\<forall>c\<in>set (us_clients s). ordered True (stream c (ts_wire h)) \<and>
        last_seq (stream c (ts_wire h)) = last_seq (ts_history h) \<and>
        (1 \<notin> left_ids (ts_history h) \<longrightarrow>
          topology (stream c (ts_wire h)) = topology (ts_history h))))
    (hub_run sample_parse (\<lambda>n. of_nat n) [] 3 4 sample_script)"
  by (rule hub_run_consistent) simp_all

text \<open>
  If all records carry messages without a sequence number, which is what every
  operation of a manager other than resending its history produces, the run of the hub never
  faults at all.
\<close>

lemma hub_run_novel_total:
  assumes "digest_ok strict (calls_bound 0 its) digest" "script_ok (novel parse) [] its"
  shows "\<exists>st s h. hub_run parse rng digest listenFd shutdownFd its = Inr (st, s, h) \<and>
    (st = Running \<longrightarrow> fst ` set (ts_clients h) = set (us_clients s))"
proof -
  have "novel_hub.joint strict (0 + calls_bound (card (set (us_clients (UDSServer_init listenFd shutdownFd)))) its)
      (UDSServer_init listenFd shutdownFd, TopologyServer_init digest)"
    using digest_start [OF assms(1)] by (simp add: novel_hub.joint_def hub.joint_def UDSServer_init_def)
  note run = novel_hub.MainLoop_outcome [OF this, of parse rng]
  have "outcome {} (\<lambda>(st, s, h). st = Running \<longrightarrow> fst ` set (ts_clients h) = set (us_clients s))
      (hub_run parse rng digest listenFd shutdownFd its)"
    unfolding hub_run_def hub_callbacks_def
    by (rule outcome_mono [OF run])
      (use assms(2) in \<open>simp_all add: UDSServer_init_def novel_hub.joint_def hub_inv_def split_beta\<close>)
  then show ?thesis by (auto simp: outcome_total)
qed

lemma hub_run_novel_total_witness:
  "\<exists>st s h. hub_run sample_parse (\<lambda>n. of_nat n) [] 3 4 sample_script = Inr (st, s, h) \<and>
    (st = Running \<longrightarrow> fst ` set (ts_clients h) = set (us_clients s))"
  by (rule hub_run_novel_total) simp_all


section \<open>The effect of each handler\<close>

text \<open>
  C10: A message without a sequence number that is not redundant and whose node has not left
  becomes one step of the topology: it is stamped with the next sequence number and a fresh
  uid, and every connected client (the sender too) is sent exactly that message.
\<close>

theorem novel_message_broadcast:
  assumes I: "hub_inv strict (Suc k) C U h" and cl: "map_of (ts_clients h) c = Some cl"
    and m: "bs \<noteq> []" "seq (parse bs) = 0" "message_node_id (parse bs) \<noteq> 0" "\<not> IsRedundant (parse bs) cl"
    and live: "message_node_id (parse bs) \<notin> left_ids (ts_history h)" "1 \<notin> left_ids (ts_history h)"
      "leaves (parse bs) \<longrightarrow> nc_id (node_change (parse bs)) \<noteq> 1"
  shows "\<exists>h' m'. OnData parse rng c bs h = Inr h' \<and>
    m' = (parse bs)\<lparr>seq := ts_nextSeq h, uid := rng (ts_draws h)\<rparr> \<and>
    topology (ts_history h') = topology_step (parse bs) (topology (ts_history h)) \<and>
    (\<forall>d\<in>C. stream d (ts_wire h') = stream d (ts_wire h) @ [m'])"
proof -
  let ?m = "(parse bs)\<lparr>seq := ts_nextSeq h, uid := rng (ts_draws h)\<rparr>"
  obtain h' where run: "OnData parse rng c bs h = Inr (synced (ts_history h) [?m] h')"
    and h': "ts_wire h' = ts_wire h" "fst ` set (ts_clients h') = C" "distinct (map fst (ts_clients h'))"
    by (rule OnData_fresh [where parse = parse and bs = bs, OF I cl m])
  have ok: "settled {} (ts_history h)" "no_zero_topic (ts_history h)"
    using I by (auto simp: hub_inv_def hub_ok_def)
  have zero: "has_topic_change (parse bs) \<longrightarrow> tc_node_id (topic_change (parse bs)) \<noteq> 0"
    using message_node_id_topic [OF m(3)] by blast
  have kept: "kept (ts_history h) [?m] = [?m]"
    by (rule kept_live)
      (use live zero in \<open>auto simp: leaves_def message_node_id_def split: if_splits\<close>)
  have "topology (prune (ts_history h @ [?m])) = topology (ts_history h @ [?m])"
    using topology_prune [OF ok(1), of "[?m]"] live ok(2) zero kept
    by (auto simp: no_zero_topic_def leaves_def)
  moreover have "stream d (ts_wire (synced (ts_history h) [?m] h')) = stream d (ts_wire h) @ [?m]"
    if "d \<in> C" for d
    using that h' kept by (simp add: stream_synced)
  ultimately show ?thesis using run by auto
qed

lemma novel_message_broadcast_witness:
  "\<exists>h' m'. OnData sample_parse (\<lambda>n. of_nat n) 5 [3] sample_hub = Inr h' \<and>
    m' = (sample_parse [3])\<lparr>seq := ts_nextSeq sample_hub, uid := of_nat (ts_draws sample_hub)\<rparr> \<and>
    topology (ts_history h') = topology_step (sample_parse [3]) (topology (ts_history sample_hub)) \<and>
    (\<forall>d\<in>{5, 6}. stream d (ts_wire h') = stream d (ts_wire sample_hub) @ [m'])"
proof (rule novel_message_broadcast)
  show "hub_inv True (Suc 99) {5, 6} {5, 6} sample_hub" using sample_hub_inv by simp
qed (simp_all add: sample_hub_def sample_parse_def message_node_id_def IsRedundant_def leaves_def,
     simp_all add: sample_log_def leaves_def)

text \<open>
  C11: When a client hangs up, its node, and only its node, disappears from the topology, and
  every other client is sent exactly one message, the LEAVE of that node with the next
  sequence number.
\<close>

theorem OnDisconnect_effect:
  assumes I: "hub_inv strict (Suc k) C U h" and cl: "map_of (ts_clients h) c = Some cl"
    and one: "1 \<notin> left_ids (ts_history h)" "cl_nodeId cl \<noteq> 1"
  shows "\<exists>h'. OnDisconnect c h = Inr h' \<and>
    topology (ts_history h') = (topology (ts_history h))(cl_nodeId cl := None) \<and>
    (\<forall>d\<in>C - {c}. stream d (ts_wire h') = stream d (ts_wire h) @
       [node_msg (ts_nextSeq h) 0 LEAVE (cl_nodeId cl) [] []])"
proof -
  let ?n = "cl_nodeId cl" and ?m = "leave_message (ts_nextSeq h) (cl_nodeId cl)"
  let ?h = "mint_leave ?n h\<lparr>ts_clients := AList.delete c (ts_clients h)\<rparr>"
  note run = OnDisconnect_eq [OF I cl]
  have ok: "hub_ok strict h" and C: "fst ` set (ts_clients h) = C" using I by (auto simp: hub_inv_def)
  have "topology (prune (ts_history h @ [?m])) = topology (ts_history h) |` (- left_ids [?m])"
    by (rule topology_depart [OF ok]) (use one in simp_all)
  then have topo: "topology (ts_history (synced (ts_history h) [?m] ?h)) = (topology (ts_history h))(?n := None)"
    by (simp add: restrict_map_def fun_eq_iff)
  have "kept (ts_history h) [?m] = [?m]" by (simp add: leaves_kept)
  moreover have "distinct (map fst (ts_clients ?h))"
    using ok by (simp add: hub_ok_def distinct_delete)
  moreover have "fst ` set (ts_clients ?h) = C - {c}" "ts_wire ?h = ts_wire h"
    using C by (auto simp: AList.delete_eq mint_leave_def)
  ultimately have st: "stream d (ts_wire (synced (ts_history h) [?m] ?h)) = stream d (ts_wire h) @ [?m]"
    if "d \<in> C - {c}" for d
    using that by (subst stream_synced) auto
  have "\<forall>d\<in>C - {c}. stream d (ts_wire (synced (ts_history h) [?m] ?h)) = stream d (ts_wire h) @
      [node_msg (ts_nextSeq h) 0 LEAVE ?n [] []]"
    using st by (simp only: leave_message_eq) blast
  with run topo show ?thesis by blast
qed

lemma OnDisconnect_effect_witness:
  "\<exists>h'. OnDisconnect 6 sample_hub = Inr h' \<and>
    topology (ts_history h') = (topology (ts_history sample_hub))(8 := None) \<and>
    (\<forall>d\<in>{5, 6} - {6}. stream d (ts_wire h') = stream d (ts_wire sample_hub) @
       [node_msg (ts_nextSeq sample_hub) 0 LEAVE 8 [] []])"
  using OnDisconnect_effect [of True 99 "{5, 6}" "{5, 6}" sample_hub 6
      "\<lparr>cl_seq = 3, cl_nodeId = 8, cl_history = drop 2 sample_log\<rparr>"] sample_hub_inv
  by (simp add: sample_hub_def)


text \<open>
  C12: The purge that runs once after start-up restricts the topology to the nodes with a
  connection, whatever the order in which the hash set is traversed.
\<close>

theorem PurgeDisconnected_effect:
  assumes I: "hub_inv strict (Suc (k + length (order (historicallyActive (ts_history h) [])))) C U h"
    and perm: "set (order (historicallyActive (ts_history h) [])) = set (historicallyActive (ts_history h) [])"
    and one: "1 \<notin> left_ids (ts_history h)" "1 \<in> connected_ids h \<or> topology (ts_history h) 1 = None"
  shows "\<exists>h'. PurgeDisconnected order h = Inr h' \<and>
    topology (ts_history h') = topology (ts_history h) |` connected_ids h"
proof -
  let ?ns = "order (historicallyActive (ts_history h) [])" and ?T = "topology (ts_history h)"
  have "hub_inv strict (Suc (k + length ?ns)) C U h" using I .
  then obtain ms where ms: "list_all leaves ms" "left_ids ms = set ?ns - connected_ids h"
    and run: "PurgeDisconnected order h =
      Inr (synced (ts_history h) ms (purge_loop (connected_ids h) ?ns h))"
    by (rule PurgeDisconnected_eq) auto
  have ids: "left_ids ms = dom ?T - connected_ids h" using ms(2) perm by (simp add: active_nodes)
  have "1 \<notin> left_ids (ts_history h @ ms)"
    using one unfolding left_ids_simps ids by auto
  then have "topology (prune (ts_history h @ ms)) = ?T |` (- (dom ?T - connected_ids h))"
    using I ms(1) by (subst topology_depart) (auto simp: hub_inv_def ids)
  also have "\<dots> = ?T |` connected_ids h" by (auto simp: restrict_map_def fun_eq_iff)
  finally show ?thesis using run by simp
qed

lemma PurgeDisconnected_effect_witness:
  "\<exists>h'. PurgeDisconnected rev (sample_hub\<lparr>ts_clients := []\<rparr>) = Inr h' \<and>
    topology (ts_history h') = topology sample_log |` {}"
proof -
  let ?h = "sample_hub\<lparr>ts_clients := []\<rparr>"
  have "hub_inv True 100 {} {5, 6} ?h"
    using sample_hub_inv by (simp add: hub_inv_def hub_ok_def)
  moreover have "length (rev (historicallyActive (ts_history ?h) [])) = 2"
    by (simp add: sample_log_def set_emplace_def)
  ultimately have "hub_inv True (Suc (90 + length (rev (historicallyActive (ts_history ?h) [])))) {} {5, 6} ?h"
    by (simp add: hub_inv_def)
  from PurgeDisconnected_effect [where order = rev, OF this] show ?thesis
    by (simp add: connected_ids_def)
qed

text \<open>
  A message the client already has a sequence number for is, exactly: appended when it is
  newer than everything in the history (an assertion requires a uid), checked against the
  copy in the history when sequence number and uid agree, and dropped otherwise.
\<close>

lemma AddOldMessage_cases:
  assumes "ordered strict (ts_history h)"
  shows "AddOldMessage m cl h =
    (if \<forall>x\<in>set (ts_history h). seq x < seq m then
       if uid m = 0 then Inl (Assertion_failed Uid_nonzero)
       else Inr (cl\<lparr>cl_history := cl_history cl @ [m]\<rparr>,
         h\<lparr>ts_history := ts_history h @ [m], ts_nextSeq := seq m + 1\<rparr>)
     else if \<exists>x\<in>set (ts_history h). seq x = seq m \<and> uid x = uid m then
       if m \<in> set (ts_history h) \<and> msg_op m \<noteq> OP_NOT_SET then Inr (cl, h)
       else Inl (Assertion_failed Same_message)
     else Inr (cl, h))"
proof -
  consider (newest) "\<forall>x\<in>set (ts_history h). seq x < seq m"
    | (known) x where "x \<in> set (ts_history h)" "seq x = seq m" "uid x = uid m"
    | (rejected) "\<exists>x\<in>set (ts_history h). seq m \<le> seq x"
      "\<forall>x\<in>set (ts_history h). seq x = seq m \<longrightarrow> uid x \<noteq> uid m"
    by (meson not_less)
  then show ?thesis
  proof cases
    case newest
    with AddOldMessage_newest [OF assms newest] show ?thesis by simp
  next
    case known
    have "x = m" if "m \<in> set (ts_history h)"
      using that known assms by (metis ordered_seq_inj)
    with known have "TopologyMessage_eq x m \<longleftrightarrow> m \<in> set (ts_history h) \<and> msg_op m \<noteq> OP_NOT_SET"
      by (auto simp: TopologyMessage_eq_iff)
    moreover have "(\<forall>x\<in>set (ts_history h). seq x < seq m) = False"
        "(\<exists>x\<in>set (ts_history h). seq x = seq m \<and> uid x = uid m) = True"
      using known by (auto intro!: bexI [of _ x])
    ultimately show ?thesis
      using AddOldMessage_known [OF assms known] by (simp only: if_True if_False)
  next
    case rejected
    then have "\<not> (\<forall>x\<in>set (ts_history h). seq x < seq m)" by (auto simp: not_less)
    with AddOldMessage_rejected [OF assms rejected] rejected(2) show ?thesis by auto
  qed
qed

lemma AddOldMessage_cases_witness:
  "AddOldMessage (node_msg 9 1 JOIN 8 [] []) default_Client sample_hub =
     Inr (default_Client\<lparr>cl_history := [node_msg 9 1 JOIN 8 [] []]\<rparr>,
       sample_hub\<lparr>ts_history := sample_log @ [node_msg 9 1 JOIN 8 [] []], ts_nextSeq := 10\<rparr>)"
proof -
  have h: "ts_history sample_hub = sample_log" by (simp add: sample_hub_def)
  have less: "\<forall>x\<in>set sample_log. seq x < 9" by (simp add: sample_log_def)
  have "ordered True (ts_history sample_hub)" by (simp add: h)
  from AddOldMessage_cases [OF this, of "node_msg 9 1 JOIN 8 [] []" default_Client] less show ?thesis
    by (simp add: h default_Client_def)
qed


section \<open>Departed nodes\<close>

text \<open>
  The second erasing branch of \<open>PruneRemoved\<close> does not look at the node of the topic
  change: whether a topic message survives depends only on whether node 1 has left. So the
  topics of a departed node stay in the history, and when node 1 leaves all topics of all
  nodes are erased.
\<close>

theorem prune_topics:
  assumes "m \<in> set ms" "has_topic_change m" "tc_node_id (topic_change m) \<noteq> 0"
  shows "m \<in> set (prune ms) \<longleftrightarrow> 1 \<notin> left_ids ms"
proof -
  have "\<not> has_node_change m" using assms(2) by (cases rule: oneof_exhaust [of m]) auto
  with assms show ?thesis by (simp add: prune_def removed_def word_neq_0_conv)
qed

lemma prune_topics_witness:
  "topic_msg 2 12 SUBSCRIBE 7 ''t'' [] \<in> set (prune (sample_log @ [node_msg 4 0 LEAVE 7 [] []]))
     \<longleftrightarrow> (1 :: u64) \<notin> left_ids (sample_log @ [node_msg 4 0 LEAVE 7 [] []])"
  by (rule prune_topics) (simp_all add: sample_log_def)

text \<open>
  A node id that has left cannot be used again: the JOIN of such a node is erased before
  anyone is sent it, and the node stays out of the topology.
\<close>

theorem rejoin_refused:
  assumes I: "hub_inv strict (Suc k) C U h" and cl: "map_of (ts_clients h) c = Some cl"
    and m: "bs \<noteq> []" "seq (parse bs) = 0" "joins (parse bs)" "nc_id (node_change (parse bs)) \<noteq> 0"
    and departed: "nc_id (node_change (parse bs)) \<in> left_ids (ts_history h)"
  shows "\<exists>h'. OnData parse rng c bs h = Inr h' \<and>
    (\<forall>d\<in>C. stream d (ts_wire h') = stream d (ts_wire h)) \<and>
    topology (ts_history h') (nc_id (node_change (parse bs))) = None"
proof -
  let ?n = "nc_id (node_change (parse bs))"
  have id: "message_node_id (parse bs) = ?n" using m(3) by (simp add: message_node_id_def joins_def)
  then have nz: "message_node_id (parse bs) \<noteq> 0" using m(4) by simp
  have out: "\<forall>x\<in>set (prune (ts_history h @ ms)). \<not> (joins x \<and> msg_key x = Some ?n)" for ms
    using departed by (auto simp: prune_def joins_removed joins_key)
  have none: "topology (prune (ts_history h @ ms)) ?n = None" for ms
    using out [of ms] by (rule topology_unjoined)
  show ?thesis
  proof (cases "IsRedundant (parse bs) cl")
    case True
    from OnData_redundant [where parse = parse and bs = bs, OF I cl m(1,2) nz True] none [of "[]"] I
    show ?thesis
      by (auto simp: stream_synced hub_inv_def hub_ok_def distinct_update kept_def)
  next
    case False
    let ?m = "(parse bs)\<lparr>seq := ts_nextSeq h, uid := rng (ts_draws h)\<rparr>"
    obtain h' where run: "OnData parse rng c bs h = Inr (synced (ts_history h) [?m] h')"
      and h': "ts_wire h' = ts_wire h" "distinct (map fst (ts_clients h'))"
      by (rule OnData_fresh [where parse = parse and bs = bs, OF I cl m(1,2) nz False])
    have "kept (ts_history h) [?m] = []"
      using departed m(3) by (simp add: kept_def removed_def joins_def leaves_def)
    with run h' none [of "[?m]"] show ?thesis by (auto simp: stream_synced)
  qed
qed

lemma rejoin_refused_witness:
  "\<exists>h'. OnData sample_parse (\<lambda>n. of_nat n) 6 [1] departed_hub = Inr h' \<and>
    (\<forall>d\<in>{6}. stream d (ts_wire h') = stream d (ts_wire departed_hub)) \<and>
    topology (ts_history h') 7 = None"
  using rejoin_refused [of True 98 "{6}" "{5, 6}" departed_hub 6 _ "[1]" sample_parse "\<lambda>n. of_nat n"]
    departed_hub_inv
  by (simp add: departed_hub_def sample_parse_def joins_def leaves_def)

text \<open>
  The departures a hub mints carry no uid (they are the only messages it stamps that do
  not), so a peer hub that receives such a message as the newest one it knows, which happens
  when a manager resends its history, stops at an assertion.
\<close>

lemma minted_leave_stops_peer:
  assumes I: "hub_inv strict (Suc k) C U h" and cl: "map_of (ts_clients h) c = Some cl"
    and m: "bs \<noteq> []" "parse bs = leave_message s n" "s \<noteq> 0" "n \<noteq> 0"
    and newest: "\<forall>x\<in>set (ts_history h). seq x < s"
  shows "OnData parse rng c bs h = Inl (Assertion_failed Uid_nonzero)"
proof -
  have "ordered strict (ts_history h)" using I by (simp add: hub_inv_def hub_ok_def)
  from AddOldMessage_newest [OF this, of "parse bs"] newest
  have "AddOldMessage (parse bs) cl' h = Inl (Assertion_failed Uid_nonzero)" for cl'
    by (simp add: m(2))
  moreover have "message_node_id (parse bs) = n" "seq (parse bs) = s"
    by (simp_all add: m(2) message_node_id_def leave_message_eq)
  ultimately show ?thesis using m(1,3,4) cl by (simp add: OnData_def Let_def)
qed

lemma minted_leave_stops_peer_witness:
  "OnData (\<lambda>bs. leave_message 9 7) (\<lambda>n. of_nat n) 5 [1] sample_hub = Inl (Assertion_failed Uid_nonzero)"
proof (rule minted_leave_stops_peer [where s = 9 and n = 7])
  show "hub_inv True (Suc 99) {5, 6} {5, 6} sample_hub" using sample_hub_inv by simp
  show "map_of (ts_clients sample_hub) 5 =
      Some \<lparr>cl_seq = 3, cl_nodeId = 7, cl_history = take 2 sample_log\<rparr>"
    by (simp add: sample_hub_def)
  show "\<forall>x\<in>set (ts_history sample_hub). seq x < 9" by simp (simp add: sample_log_def)
qed simp_all

section \<open>Repeated and last messages\<close>

text \<open>
  A message equal to any earlier one of the same client is dropped, also when a later
  message has undone its effect.
\<close>

lemma redundant_message_dropped:
  assumes I: "hub_inv strict (Suc k) C U h" and cl: "map_of (ts_clients h) c = Some cl"
    and m: "bs \<noteq> []" "seq (parse bs) = 0" "message_node_id (parse bs) \<noteq> 0"
    and old: "m' \<in> set (cl_history cl)" "msg_op m' = msg_op (parse bs)"
    and one: "1 \<notin> left_ids (ts_history h)"
  shows "\<exists>h'. OnData parse rng c bs h = Inr h' \<and>
    topology (ts_history h') = topology (ts_history h) \<and> ts_nextSeq h' = ts_nextSeq h \<and>
    (\<forall>d\<in>C. stream d (ts_wire h') = stream d (ts_wire h))"
proof -
  have red: "IsRedundant (parse bs) cl"
    using old m(3) by (auto simp: IsRedundant_def intro: IsRedundant_in_same_op)
  have ok: "settled {} (ts_history h)" "no_zero_topic (ts_history h)"
    using I by (auto simp: hub_inv_def hub_ok_def)
  from topology_prune [OF ok(1), of "[]"] one ok(2)
  have "topology (prune (ts_history h)) = topology (ts_history h)" by (simp add: kept_def)
  with OnData_redundant [where parse = parse and bs = bs, OF I cl m red] I show ?thesis
    by (auto simp: stream_synced hub_inv_def hub_ok_def distinct_update kept_def)
qed

lemma redundant_message_dropped_witness:
  "\<exists>h'. OnData sample_parse (\<lambda>n. of_nat n) 5 [2] sample_hub = Inr h' \<and>
    topology (ts_history h') = topology sample_log \<and> ts_nextSeq h' = 4 \<and>
    (\<forall>d\<in>{5, 6}. stream d (ts_wire h') = stream d (ts_wire sample_hub))"
proof -
  have "hub_inv True (Suc 99) {5, 6} {5, 6} sample_hub" using sample_hub_inv by simp
  from redundant_message_dropped [OF this, of 5 "\<lparr>cl_seq = 3, cl_nodeId = 7, cl_history = take 2 sample_log\<rparr>"
      "[2]" sample_parse "topic_msg 2 12 SUBSCRIBE 7 ''t'' []" "\<lambda>n. of_nat n"]
  show ?thesis
    by (simp add: sample_parse_def message_node_id_def)
      (simp add: sample_hub_def sample_log_def)
qed

text \<open>
  C33: Subscribing, unsubscribing and subscribing again over one connection leaves the node
  unsubscribed: the last request repeats an earlier message of the connection.
\<close>

theorem resubscribe_lost:
  assumes "parse j = node_msg 0 0 JOIN i nm ad" "parse s = topic_msg 0 0 SUBSCRIBE i t []"
    "parse u = topic_msg 0 0 UNSUBSCRIBE i t []" "j \<noteq> []" "s \<noteq> []" "u \<noteq> []" "i \<noteq> 0"
  shows "\<exists>h v. bind_res (OnConnect c (TopologyServer_init []))
      (feed (OnData parse rng c) [j, s, u, s]) = Inr h \<and>
    topology (ts_history h) i = Some v \<and> nv_subs v = {}"
proof -
  have len: "length j \<noteq> 0" "length s \<noteq> 0" "length u \<noteq> 0" using assms by auto
  show ?thesis
    using assms(1-3,7) len
    by (simp add: OnConnect_def TopologyServer_init_def emplace_def default_Client_def OnData_def
        message_node_id_def Let_def AddNovelMessage_def IsRedundant_def PruneRemoved_def prune_def
        Broadcast_def removed_def leaves_def topology_def keyed_step_def msg_key_def topology_cell_def)
qed

lemma resubscribe_lost_witness:
  "\<exists>h v. bind_res (OnConnect 5 (TopologyServer_init []))
      (feed (OnData sample_parse (\<lambda>n. of_nat n) 5) [[1], [2], [3], [2]]) = Inr h \<and>
    topology (ts_history h) 7 = Some v \<and> nv_subs v = {}"
  by (rule resubscribe_lost) (simp_all add: sample_parse_def)

text \<open>
  C34: A message stamped with the largest sequence number wraps \<open>mNextSeq\<close> to zero, and the
  broadcast that follows stops the hub at its assertion: one message from any client is enough.
\<close>

theorem last_sequence_number_stops_hub:
  assumes I: "hub_inv strict (Suc k) C U h" and cl: "map_of (ts_clients h) c = Some cl"
    and m: "bs \<noteq> []" "seq (parse bs) = - 1" "uid (parse bs) \<noteq> 0" "message_node_id (parse bs) \<noteq> 0"
    and live: "message_node_id (parse bs) \<notin> left_ids (ts_history h)" "1 \<notin> left_ids (ts_history h)"
      "leaves (parse bs) \<longrightarrow> nc_id (node_change (parse bs)) \<noteq> 1"
  shows "OnData parse rng c bs h = Inl (Assertion_failed Seq_below_next)"
proof -
  let ?m = "parse bs" and ?cl = "cl\<lparr>cl_nodeId := message_node_id (parse bs)\<rparr>"
  have ok: "hub_ok strict h" and ord: "ordered strict (ts_history h)" using I by (auto simp: hub_inv_def hub_ok_def)
  have max: "x \<le> seq ?m" for x using m(2) by simp
  have below: "\<forall>x\<in>set (ts_history h). seq x < seq ?m"
    using ok max by (auto simp: hub_ok_def intro: less_le_trans)
  have lastless: "last_seq (ts_history h) < seq ?m"
    using last_seq_less_next [OF ok] max by (rule less_le_trans)
  have zero: "has_topic_change ?m \<longrightarrow> tc_node_id (topic_change ?m) \<noteq> 0"
    using message_node_id_topic [OF m(4)] by blast
  have "kept (ts_history h) [?m] = [?m]"
    by (rule kept_live) (use live zero in auto)
  then obtain hist where hist: "prune (ts_history h @ [?m]) = hist @ [?m]" "set hist \<subseteq> set (ts_history h)"
    by (auto simp: prune_kept)
  let ?cs = "AList.update c (?cl\<lparr>cl_history := cl_history cl @ [?m]\<rparr>) (ts_clients h)"
  have seqs: "\<forall>(d, x)\<in>set ?cs. cl_seq x = last_seq (ts_history h)"
    by (rule updated_seqs [OF ok cl]) simp
  have "?cs \<noteq> []" by (cases "ts_clients h") auto
  then obtain d x cs where cs: "?cs = (d, x) # cs" by (cases ?cs) auto
  with seqs have x: "cl_seq x = last_seq (ts_history h)" by simp
  have "broadcast_client 0 d (hist @ [?m]) x w = Inl (Assertion_failed Seq_below_next)" for w
    by (rule broadcast_client_stops [where m = ?m])
      (use hist max lastless x ordered_le_last [OF ord] in auto)
  then have "broadcast_clients 0 (hist @ [?m]) ?cs w = Inl (Assertion_failed Seq_below_next)" for w
    by (simp add: cs)
  moreover have "AddOldMessage ?m ?cl h = Inr (?cl\<lparr>cl_history := cl_history cl @ [?m]\<rparr>,
      h\<lparr>ts_history := ts_history h @ [?m], ts_nextSeq := 0\<rparr>)"
    using AddOldMessage_newest [OF ord below, of ?cl] m(2,3) by simp
  ultimately show ?thesis
    using m cl hist(1) by (simp add: OnData_def Let_def Broadcast_def PruneRemoved_def)
qed

lemma last_sequence_number_stops_hub_witness:
  "OnData sample_parse (\<lambda>n. of_nat n) 5 [6] sample_hub = Inl (Assertion_failed Seq_below_next)"
proof (rule last_sequence_number_stops_hub)
  show "hub_inv True (Suc 99) {5, 6} {5, 6} sample_hub" using sample_hub_inv by simp
  show "map_of (ts_clients sample_hub) 5 =
      Some \<lparr>cl_seq = 3, cl_nodeId = 7, cl_history = take 2 sample_log\<rparr>"
    by (simp add: sample_hub_def)
qed (simp_all add: sample_parse_def message_node_id_def leaves_def)

section \<open>Taking over\<close>

text \<open>What any one client has been sent is enough to start a replacement hub.\<close>

lemma takeover:
  assumes I: "hub_inv strict k C U h" and c: "c \<in> C" and one: "1 \<notin> left_ids (ts_history h)"
    and room: "unat (last_seq (ts_history h)) + 1 + j < 2 ^ 64" "j < 2 ^ 63"
  shows "hub_inv strict j {} {} (TopologyServer_init (stream c (ts_wire h))) \<and>
    topology (ts_history (TopologyServer_init (stream c (ts_wire h)))) = topology (ts_history h) \<and>
    (ts_history h \<noteq> [] \<longrightarrow>
      ts_nextSeq (TopologyServer_init (stream c (ts_wire h))) = last_seq (ts_history h) + 1)"
proof -
  let ?s = "stream c (ts_wire h)"
  have v: "view_ok strict h c" and ok: "hub_ok strict h" using I c by (auto simp: hub_inv_def)
  have "hub_inv strict j {} {} (TopologyServer_init ?s)"
    by (rule TopologyServer_init_inv) (use v room in \<open>simp_all add: view_ok_def\<close>)
  moreover have "ts_history (TopologyServer_init ?s) = ?s" by (simp add: TopologyServer_init_def)
  moreover have "?s \<noteq> []" if "ts_history h \<noteq> []"
  proof -
    have "0 < last_seq (ts_history h)"
      using that ok ordered_pos [of strict "ts_history h"] by (simp add: last_seq_def hub_ok_def)
    with v show ?thesis by (auto simp: view_ok_def)
  qed
  ultimately show ?thesis
    using v one by (auto simp: view_ok_def TopologyServer_init_def digest_next_seq_eq)
qed

end
