(* ===== verification/HubThreads.thy ===== *)
theory HubThreads
  imports HubEffects
begin

text \<open>
  The hub has two threads: \<open>UDSServer\<close>'s main loop calls the three handlers, and the purge thread
  of the constructor calls \<open>PurgeDisconnected\<close> once, 200 ms after the start and so between any two
  handler calls. Each call holds \<open>mMtx\<close> from start to end, so what the threads can do is any
  sequence of calls. \<open>hub_reach\<close> has the states they reach, with the descriptors connected (\<open>C\<close>)
  and ever used (\<open>U\<close>) and an upper bound for the sequence numbers spent.
\<close>

definition active_count :: "TopologyServer \<Rightarrow> nat" where
  "active_count h = length (historicallyActive (ts_history h) [])"

inductive hub_reach ::
  "(bytes \<Rightarrow> TopologyMessage) \<Rightarrow> (nat \<Rightarrow> u64) \<Rightarrow> TopologyMessage list \<Rightarrow>
   bool \<Rightarrow> nat \<Rightarrow> fd set \<Rightarrow> fd set \<Rightarrow> TopologyServer \<Rightarrow> bool"
  for parse rng digest where
  start: "hub_reach parse rng digest False 0 {} {} (TopologyServer_init digest)"
| connect: "hub_reach parse rng digest p n C U h \<Longrightarrow> c \<notin> U \<Longrightarrow> OnConnect c h = Inr h' \<Longrightarrow>
    hub_reach parse rng digest p (Suc n) (insert c C) (insert c U) h'"
| disconnect: "hub_reach parse rng digest p n C U h \<Longrightarrow> c \<in> C \<Longrightarrow> OnDisconnect c h = Inr h' \<Longrightarrow>
    hub_reach parse rng digest p (Suc n) (C - {c}) U h'"
| data: "hub_reach parse rng digest p n C U h \<Longrightarrow> c \<in> C \<Longrightarrow> data_ok parse bs \<Longrightarrow> OnData parse rng c bs h = Inr h' \<Longrightarrow>
    hub_reach parse rng digest p (Suc n) C U h'"
| purge: "hub_reach parse rng digest False n C U h \<Longrightarrow>
    mset (order (historicallyActive (ts_history h) [])) = mset (historicallyActive (ts_history h) []) \<Longrightarrow>
    PurgeDisconnected order h = Inr h' \<Longrightarrow>
    hub_reach parse rng digest True (Suc (n + active_count h)) C U h'"

lemma hub_reach_inv:
  assumes "hub_reach parse rng digest p n C U h" "digest_ok strict (n + k) digest"
  shows "hub_inv strict k C U h \<and> C \<subseteq> U"
  using assms
proof (induction arbitrary: k rule: hub_reach.induct)
  case start
  then show ?case by (auto simp: digest_ok_def intro: TopologyServer_init_inv)
next
  case (connect p n C U h c h')
  have I: "hub_inv strict (Suc k) C U h" "C \<subseteq> U"
    using connect.IH [of "Suc k"] connect.prems by simp_all
  from OnConnect_outcome [OF I connect.hyps(2)] connect.hyps(3) I(2) show ?case by auto
next
  case (disconnect p n C U h c h')
  have I: "hub_inv strict (Suc k) C U h" "C \<subseteq> U"
    using disconnect.IH [of "Suc k"] disconnect.prems by simp_all
  from OnDisconnect_outcome [OF I(1) disconnect.hyps(2) I(2)] disconnect.hyps(3) I(2) show ?case by auto
next
  case (data p n C U h c bs h')
  have I: "hub_inv strict (Suc k) C U h" "C \<subseteq> U"
    using data.IH [of "Suc k"] data.prems by simp_all
  from OnData_outcome [OF I(1) data.hyps(2) I(2) data.hyps(3), of rng] data.hyps(4) I(2) show ?case by auto
next
  case (purge n C U h order h')
  have "length (order (historicallyActive (ts_history h) [])) = active_count h"
    using mset_eq_length [OF purge.hyps(2)] by (simp add: active_count_def)
  moreover have "hub_inv strict (Suc (k + active_count h)) C U h" "C \<subseteq> U"
    using purge.IH [of "Suc (k + active_count h)"] purge.prems by (simp_all add: algebra_simps)
  ultimately show ?case
    using PurgeDisconnected_outcome [of strict k order h C U] purge.hyps(3) by auto
qed

text \<open>
  C20: the hub with both its threads. Whatever sequence of handler calls the server's thread makes,
  and wherever the purge falls in it, every connected client has been sent an increasing
  log (strictly, if the digest holds no copies) that describes the topology of the history, and no call that can come next fails, apart from
  the two assertions on received sequence numbers in \<open>OnData\<close>.
\<close>

theorem hub_threads_consistent:
  assumes reach: "hub_reach parse rng digest p n C U h" and room: "digest_ok strict (n + Suc (active_count h)) digest"
  shows "fst ` set (ts_clients h) = C \<and> (\<forall>c\<in>C. view_ok strict h c) \<and>
    (\<forall>c. c \<notin> U \<longrightarrow> (\<exists>h'. OnConnect c h = Inr h')) \<and>
    (\<forall>c\<in>C. \<exists>h'. OnDisconnect c h = Inr h') \<and>
    (\<forall>c\<in>C. \<forall>bs. data_ok parse bs \<longrightarrow> outcome data_faults (\<lambda>_. True) (OnData parse rng c bs h)) \<and>
    (\<forall>order. mset (order (historicallyActive (ts_history h) [])) = mset (historicallyActive (ts_history h) []) \<longrightarrow>
      (\<exists>h'. PurgeDisconnected order h = Inr h'))"
proof -
  have I: "hub_inv strict (Suc (active_count h)) C U h" and CU: "C \<subseteq> U"
    using hub_reach_inv [OF reach room] by auto
  from I have I1: "hub_inv strict (Suc 0) C U h" by (rule hub_inv_antimono) simp
  have "\<exists>h'. OnConnect c h = Inr h'" if "c \<notin> U" for c
    using OnConnect_outcome [OF I1 CU that] by (auto simp: outcome_total)
  moreover have "\<exists>h'. OnDisconnect c h = Inr h'" if "c \<in> C" for c
    using OnDisconnect_outcome [OF I1 that CU] by (auto simp: outcome_total)
  moreover have "outcome data_faults (\<lambda>_. True) (OnData parse rng c bs h)" if "c \<in> C" "data_ok parse bs" for c bs
    using OnData_outcome [OF I1 that(1) CU that(2), of rng] by (rule outcome_mono) simp
  moreover have "\<exists>h'. PurgeDisconnected order h = Inr h'"
    if "mset (order (historicallyActive (ts_history h) [])) = mset (historicallyActive (ts_history h) [])" for order
  proof -
    have "length (order (historicallyActive (ts_history h) [])) = active_count h"
      using mset_eq_length [OF that] by (simp add: active_count_def)
    with PurgeDisconnected_outcome [of strict 0 order h C U] I CU show ?thesis by (auto simp: outcome_total)
  qed
  ultimately show ?thesis using I by (simp add: hub_inv_def)
qed

text \<open>A client connects to a hub that knows of a node that has gone, the purge comes, and it hangs up.\<close>

definition stale_digest :: "TopologyMessage list" where
  "stale_digest = [node_msg 4 9 JOIN 7 ''a'' ''x'']"

lemma hub_threads_consistent_witness:
  "\<exists>h. hub_reach (\<lambda>_. default_TopologyMessage) (\<lambda>_. 9) stale_digest True 3 {5} {5} h \<and> view_ok True h 5 \<and>
     ts_history h = [leave_message 5 7]"
proof -
  let ?h0 = "TopologyServer_init stale_digest"
  have h0: "?h0 = \<lparr>ts_clients = [], ts_nextSeq = 5, ts_history = stale_digest, ts_wire = [], ts_draws = 0\<rparr>"
    by (simp add: TopologyServer_init_def stale_digest_def)
  define h1 where "h1 = \<lparr>ts_clients = [(5, \<lparr>cl_seq = 4, cl_nodeId = 0, cl_history = []\<rparr>)], ts_nextSeq = 5,
    ts_history = stale_digest, ts_wire = [(5, node_msg 4 9 JOIN 7 ''a'' ''x'')], ts_draws = 0\<rparr>"
  have c: "OnConnect 5 ?h0 = Inr h1"
    unfolding h0
    by (simp add: h1_def OnConnect_def emplace_def default_Client_def stale_digest_def assert_that_def Let_def)
  have r1: "hub_reach (\<lambda>_. default_TopologyMessage) (\<lambda>_. 9) stale_digest False 1 {5} {5} h1"
    using hub_reach.connect [OF hub_reach.start _ c] by simp
  have act: "historicallyActive (ts_history h1) [] = [7]"
    by (simp add: h1_def stale_digest_def set_emplace_def)
  have "digest_ok True (1 + Suc (active_count h1)) stale_digest"
    by (simp add: active_count_def act digest_ok_def stale_digest_def ordered_def no_zero_topic_def last_seq_def
        removed_def)
  from hub_threads_consistent [OF r1 this] have "\<exists>h2. PurgeDisconnected (\<lambda>x. x) h1 = Inr h2"
    by (elim conjE) (drule spec [of _ "\<lambda>x. x"], simp)
  then obtain h2 where p: "PurgeDisconnected (\<lambda>x. x) h1 = Inr h2" by blast
  have r2: "hub_reach (\<lambda>_. default_TopologyMessage) (\<lambda>_. 9) stale_digest True 3 {5} {5} h2"
    using hub_reach.purge [OF r1, of "\<lambda>x. x", OF _ p] by (simp add: active_count_def act numeral_eq_Suc)
  have hist: "ts_history h2 = [leave_message 5 7]"
    using p
    by (simp add: PurgeDisconnected_def act Let_def connected_ids_def)
      (auto simp: h1_def stale_digest_def mint_leave_def PruneRemoved_def prune_def Broadcast_def
        removed_def leaves_def assert_that_def leave_message_eq)
  have "active_count h2 = 0" by (simp add: active_count_def hist leave_message_eq set_erase_def)
  then have "digest_ok True (3 + Suc (active_count h2)) stale_digest"
    by (simp add: digest_ok_def stale_digest_def ordered_def no_zero_topic_def last_seq_def removed_def)
  from hub_threads_consistent [OF r2 this] have "view_ok True h2 5" by blast
  with r2 hist show ?thesis by blast
qed

section \<open>A purge that comes too early\<close>

text \<open>The calls of the handlers and the purge as steps, with any messages, from any state.\<close>

inductive hub_call :: "(bytes \<Rightarrow> TopologyMessage) \<Rightarrow> (nat \<Rightarrow> u64) \<Rightarrow> TopologyServer \<Rightarrow> TopologyServer \<Rightarrow> bool"
  for parse rng where
  connect: "OnConnect c h = Inr h' \<Longrightarrow> hub_call parse rng h h'"
| disconnect: "OnDisconnect c h = Inr h' \<Longrightarrow> hub_call parse rng h h'"
| data: "OnData parse rng c bs h = Inr h' \<Longrightarrow> hub_call parse rng h h'"
| purge: "PurgeDisconnected order h = Inr h' \<Longrightarrow> hub_call parse rng h h'"

definition exiled :: "u64 \<Rightarrow> TopologyServer \<Rightarrow> bool" where
  "exiled i h \<longleftrightarrow> i \<in> left_ids (ts_history h) \<and>
     (\<forall>m\<in>set (ts_history h). joins m \<longrightarrow> nc_id (node_change m) \<noteq> i)"

lemma exiled_topology: "exiled i h \<Longrightarrow> topology (ts_history h) i = None"
  by (rule topology_unjoined) (auto simp: exiled_def joins_key)

lemma Broadcast_history: "Broadcast h = Inr h' \<Longrightarrow> ts_history h' = ts_history h"
  by (auto simp: Broadcast_def bind_res_eq_Inr)

lemma exiled_commit:
  assumes "Broadcast (PruneRemoved h) = Inr h'" "i \<in> left_ids (ts_history h)"
  shows "exiled i h'"
  using Broadcast_history [OF assms(1)] assms(2)
  by (auto simp: exiled_def PruneRemoved_def) (auto simp: prune_def joins_removed)

lemma left_ids_cong: "set ms \<subseteq> set ns \<Longrightarrow> left_ids ms \<subseteq> left_ids ns"
  by (simp add: subset_iff left_ids_mem) blast

lemma purge_loop_left:
  "left_ids (ts_history (purge_loop con ns h)) = left_ids (ts_history h) \<union> (set ns - con)"
  by (induction ns arbitrary: h) (auto simp: mint_leave_def)

lemma AddOldMessage_history:
  assumes "AddOldMessage m cl h = Inr (cl', h')"
  shows "set (ts_history h) \<subseteq> set (ts_history h')"
  using assms
  by (auto simp: AddOldMessage_def Let_def bind_res_eq_Inr assert_that_def set_vector_insert split: if_splits)

lemma exiled_call:
  assumes "hub_call parse rng h h'" "exiled i h"
  shows "exiled i h'"
  using assms(1)
proof cases
  case (connect c)
  then have "ts_history h' = ts_history h" by (auto simp: OnConnect_def Let_def bind_res_eq_Inr)
  with assms(2) show ?thesis by (simp add: exiled_def)
next
  case (disconnect c)
  then obtain cl where cl: "map_of (ts_clients h) c = Some cl" by (auto simp: OnDisconnect_def split: option.splits)
  with disconnect have "Broadcast (PruneRemoved (mint_leave (cl_nodeId cl) h
      \<lparr>ts_clients := AList.delete c (ts_clients (mint_leave (cl_nodeId cl) h))\<rparr>)) = Inr h'"
    by (simp add: OnDisconnect_def Let_def)
  then show ?thesis by (rule exiled_commit) (use assms(2) in \<open>auto simp: exiled_def mint_leave_def\<close>)
next
  case (data c bs)
  show ?thesis
  proof (cases "length bs = 0 \<or> message_node_id (parse bs) = 0")
    case True
    with data have "h' = h" unfolding OnData_def Let_def by (cases "length bs = 0") simp_all
    with assms(2) show ?thesis by simp
  next
    case False
    with data obtain cl cl' h1 where "map_of (ts_clients h) c = Some cl"
      and step: "(if seq (parse bs) = 0 then Inr (AddNovelMessage rng (parse bs) (cl\<lparr>cl_nodeId := message_node_id (parse bs)\<rparr>) h)
        else AddOldMessage (parse bs) (cl\<lparr>cl_nodeId := message_node_id (parse bs)\<rparr>) h) = Inr (cl', h1)"
      and commit: "Broadcast (PruneRemoved (h1\<lparr>ts_clients := AList.update c cl' (ts_clients h1)\<rparr>)) = Inr h'"
      by (auto simp: OnData_def Let_def bind_res_eq_Inr split: option.splits)
    have "set (ts_history h) \<subseteq> set (ts_history h1)"
      using step AddOldMessage_history by (auto simp: AddNovelMessage_def Let_def split: if_splits)
    then have "left_ids (ts_history h) \<subseteq> left_ids (ts_history h1)" by (rule left_ids_cong)
    then show ?thesis using assms(2) by (intro exiled_commit [OF commit]) (auto simp: exiled_def)
  qed
next
  case (purge order)
  then show ?thesis
    using assms(2) by (intro exiled_commit) (auto simp: PurgeDisconnected_def Let_def exiled_def purge_loop_left)
qed

text \<open>
  C32: A purge that comes too early exiles live nodes. A new hub purges 200 ms after it has started,
  however many nodes have found it by then. A node that its history knows and that is not yet
  connected is taken for dead, and nothing that happens to this hub afterwards brings the node
  back: whatever anybody sends, its own \<open>JOIN\<close> after it has connected included, is erased
  before it is sent to anyone, and the node is in no later topology of the hub.
\<close>

theorem early_purge_exiles:
  assumes "i \<in> dom (topology (ts_history h))" "i \<notin> connected_ids h"
    and "set (order (historicallyActive (ts_history h) [])) = set (historicallyActive (ts_history h) [])"
    and "PurgeDisconnected order h = Inr h1" "(hub_call parse rng)\<^sup>*\<^sup>* h1 h2"
  shows "i \<in> left_ids (ts_history h2) \<and> topology (ts_history h2) i = None"
proof -
  have "i \<in> left_ids (ts_history (purge_loop (connected_ids h) (order (historicallyActive (ts_history h) [])) h))"
    using assms(1-3) by (auto simp: purge_loop_left active_nodes)
  with assms(4) have "exiled i h1" by (intro exiled_commit) (auto simp: PurgeDisconnected_def Let_def)
  with assms(5) have "exiled i h2" by (induction rule: rtranclp_induct) (auto intro: exiled_call)
  then show ?thesis using exiled_topology by (auto simp: exiled_def)
qed

text \<open>Node 7 is in the history of the new hub, and connects after the purge.\<close>

definition late_hub :: TopologyServer where
  "late_hub = \<lparr>ts_clients = [(5, \<lparr>cl_seq = 5, cl_nodeId = 0, cl_history = []\<rparr>)], ts_nextSeq = 6,
     ts_history = [leave_message 5 7], ts_wire = [(5, leave_message 5 7)], ts_draws = 0\<rparr>"

definition late_join :: "bytes \<Rightarrow> TopologyMessage" where
  "late_join bs = node_msg 0 0 JOIN 7 ''a'' ''x''"

lemma early_purge_exiles_witness:
  "\<exists>h1 h2. PurgeDisconnected (\<lambda>ns. ns) (TopologyServer_init stale_digest) = Inr h1 \<and> OnConnect 5 h1 = Inr late_hub \<and>
    OnData late_join (\<lambda>_. 9) 5 [1] late_hub = Inr h2 \<and> topology (ts_history h2) 7 = None"
proof -
  let ?h0 = "TopologyServer_init stale_digest"
  have hist: "ts_history ?h0 = [node_msg 4 9 JOIN 7 ''a'' ''x'']" by (simp add: TopologyServer_init_def stale_digest_def)
  have act: "historicallyActive (ts_history ?h0) [] = [7]" unfolding hist by (simp add: set_emplace_def)
  have "7 \<in> set (historicallyActive (ts_history ?h0) [])" unfolding act by simp
  then have dom: "7 \<in> dom (topology (ts_history ?h0))" by (simp only: active_nodes)
  let ?h1 = "?h0\<lparr>ts_nextSeq := 6, ts_history := [leave_message 5 7]\<rparr>"
  have purge: "PurgeDisconnected (\<lambda>ns. ns) ?h0 = Inr ?h1" by code_simp
  have connect: "OnConnect 5 ?h1 = Inr late_hub" by code_simp
  obtain h2 where data: "OnData late_join (\<lambda>_. 9) 5 [1] late_hub = Inr h2"
    by (cases "OnData late_join (\<lambda>_. 9) 5 [1] late_hub")
      (auto simp: OnData_def late_hub_def late_join_def Let_def message_node_id_def AddNovelMessage_def IsRedundant_def
        PruneRemoved_def prune_def removed_def leaves_def Broadcast_def)
  have "(hub_call late_join (\<lambda>_. 9))\<^sup>*\<^sup>* ?h1 h2"
    using hub_call.connect [OF connect] hub_call.data [OF data] by (meson rtranclp.rtrancl_refl rtranclp.rtrancl_into_rtrancl)
  from early_purge_exiles [OF dom _ _ purge this] have "topology (ts_history h2) 7 = None"
    by (simp add: connected_ids_def TopologyServer_init_def)
  with purge connect data show ?thesis by blast
qed

end
