(* ===== verification/UDSClient.thy ===== *)
theory UDSClient
  imports Posix
begin

text \<open>
  \<open>lib/UDSClient.h\<close> and \<open>lib/UDSClient.cc\<close>: the connecting side. The state is the pair of
  descriptors and the counter of the shutdown \<open>eventfd\<close>; the main loop is a function of what
  \<open>poll\<close> and \<open>read\<close> return in each iteration. The locale \<open>uds_receiver\<close> is the contract of
  the data callback, interpreted by \<open>TopologyManager\<close> on \<open>ApplyUpdate\<close>.
\<close>

section \<open>State\<close>

record UDSClient =
  uc_fd :: int
  uc_shutdownFd :: int
  uc_event :: nat        \<comment> \<open>counter of the \<open>eventfd\<close> behind \<open>mShutdownFd\<close>\<close>

datatype client_poll =
    Client_poll_failed
  | Client_poll u16 u16 read_result  \<comment> \<open>\<open>revents\<close> of the event and of the socket, record read\<close>

definition UDSClient_init :: "int \<Rightarrow> int \<Rightarrow> UDSClient" where
  "UDSClient_init sock shutFd = \<lparr>uc_fd = sock, uc_shutdownFd = shutFd, uc_event = 0\<rparr>"

section \<open>Operations\<close>

text \<open>As in the server: the object, and the descriptors left open that no object owns.\<close>

definition UDSClient_Create :: "string \<Rightarrow> create_results \<Rightarrow> (UDSClient option \<times> fd list) res" where
  "UDSClient_Create sockPath r =
     bind_res (Create_address sockPath) (\<lambda>addr.
     let fd = cr_socket r in
     if fd = -1 then Inr (None, [])
     else
       let opened = [fd] in
       if cr_attach r = -1 then Inr (None, removeAll fd opened)
       else if cr_eventfd r = -1 then Inr (None, opened)
       else Inr (Some (UDSClient_init fd (cr_eventfd r)), []))"

text \<open>\<open>None\<close>: the write blocks.\<close>

definition Shutdown :: "UDSClient \<Rightarrow> UDSClient option" where
  "Shutdown s =
     (if uc_shutdownFd s \<noteq> -1
      then map_option (\<lambda>n. s\<lparr>uc_event := n\<rparr>) (eventfd_write UINT32_MAX (uc_event s))
      else Some s)"

text \<open>\<open>Wait\<close> returns at once, or blocks until the event is readable.\<close>

definition Wait_returns :: "UDSClient \<Rightarrow> bool" where
  "Wait_returns s \<longleftrightarrow> uc_shutdownFd s = -1 \<or> eventfd_readable (uc_event s)"

text \<open>\<open>sent\<close> is the result of the system call \<open>send\<close>.\<close>

definition Send_bytes :: "int \<Rightarrow> UDSClient \<Rightarrow> int" where
  "Send_bytes sent s = (if uc_fd s = -1 then -1 else sent)"

definition socket_data :: "read_result \<Rightarrow> bytes option" where
  "socket_data r = (case r of
      Read_error \<Rightarrow> None
    | Read_record b \<Rightarrow> (let buffer = read_into UINT16_MAX b in
        if buffer = [] then None else Some buffer))"

definition client_iteration ::
  "(bytes \<Rightarrow> 'h \<Rightarrow> 'h res) option \<Rightarrow> client_poll \<Rightarrow> 'h \<Rightarrow> (bool \<times> 'h) res" where
  "client_iteration onData it h = (case it of
      Client_poll_failed \<Rightarrow> Inr (False, h)
    | Client_poll shutdown revents r \<Rightarrow>
        if shutdown \<noteq> 0 then Inr (False, h)
        else if revents = 0 then Inr (True, h)
        else
          bind_res
            (if has_flag revents POLLIN then
               (case socket_data r of
                  None \<Rightarrow> Inr h
                | Some buffer \<Rightarrow> (case onData of None \<Rightarrow> Inr h | Some f \<Rightarrow> f buffer h))
             else Inr h) (\<lambda>h.
          if has_flag revents POLLERR then Inr (False, h)
          else if has_flag revents POLLHUP then Inr (False, h)
          else if has_flag revents POLLNVAL then Inr (False, h)
          else Inr (True, h)))"

text \<open>\<open>True\<close>: the loop goes on. What runs after it: \<open>mOnDisconnect\<close> and the closing of both descriptors.\<close>

definition client_exit :: "UDSClient \<Rightarrow> UDSClient" where
  "client_exit s = s\<lparr>
     uc_event := (case eventfd_write UINT32_MAX (uc_event s) of Some n \<Rightarrow> n | None \<Rightarrow> uc_event s),
     uc_fd := -1, uc_shutdownFd := -1\<rparr>"

fun client_MainLoop ::
  "(bytes \<Rightarrow> 'h \<Rightarrow> 'h res) option \<Rightarrow> ('h \<Rightarrow> 'h res) option \<Rightarrow> client_poll list \<Rightarrow>
   UDSClient \<times> 'h \<Rightarrow> (UDSClient \<times> 'h) res" where
  "client_MainLoop onData onDisconnect [] (s, h) = Inr (s, h)"
| "client_MainLoop onData onDisconnect (it # its) (s, h) =
     bind_res (client_iteration onData it h) (\<lambda>(continue, h).
       if continue then client_MainLoop onData onDisconnect its (s, h)
       else
         bind_res (case onDisconnect of None \<Rightarrow> Inr h | Some f \<Rightarrow> f h) (\<lambda>h.
         Inr (client_exit s, h)))"

section \<open>What the callback is given\<close>

text \<open>
  The abstract behaviour of the loop: the non-empty records read up to the iteration that
  ends it, in order; \<open>ends\<close> tells whether some iteration does.
\<close>

definition ends_loop :: "client_poll \<Rightarrow> bool" where
  "ends_loop it = (case it of
      Client_poll_failed \<Rightarrow> True
    | Client_poll shutdown revents r \<Rightarrow> shutdown \<noteq> 0 \<or>
        has_flag revents POLLERR \<or> has_flag revents POLLHUP \<or> has_flag revents POLLNVAL)"

definition iteration_data :: "client_poll \<Rightarrow> bytes list" where
  "iteration_data it = (case it of
      Client_poll_failed \<Rightarrow> []
    | Client_poll shutdown revents r \<Rightarrow>
        if shutdown = 0 \<and> has_flag revents POLLIN
        then opt_list (socket_data r) else [])"

fun received :: "client_poll list \<Rightarrow> bytes list" where
  "received [] = []"
| "received (it # its) = iteration_data it @ (if ends_loop it then [] else received its)"

fun ends :: "client_poll list \<Rightarrow> bool" where
  "ends [] = False"
| "ends (it # its) = (ends_loop it \<or> ends its)"

lemma client_iteration_eq:
  "client_iteration (Some f) it h =
     bind_res (feed f (iteration_data it) h) (\<lambda>h. Inr (\<not> ends_loop it, h))"
  by (auto simp: client_iteration_def iteration_data_def ends_loop_def bind_res_assoc
      split: client_poll.splits option.splits)

lemma client_MainLoop_eq:
  "client_MainLoop (Some f) onDisconnect its (s, h) =
     bind_res (feed f (received its) h) (\<lambda>h.
       if ends its then
         bind_res (case onDisconnect of None \<Rightarrow> Inr h | Some g \<Rightarrow> g h) (\<lambda>h. Inr (client_exit s, h))
       else Inr (s, h))"
proof (induction its arbitrary: h)
  case Nil
  then show ?case by simp
next
  case (Cons it its)
  then show ?case
    by (cases "ends_loop it")
      (simp_all add: client_iteration_eq feed_append bind_res_assoc split_beta)
qed

lemma socket_data_Some:
  "socket_data r = Some b \<longleftrightarrow> (\<exists>x. r = Read_record x \<and> b \<noteq> [] \<and> b = read_into UINT16_MAX x)"
  by (cases r) (auto simp: socket_data_def Let_def)

lemma iteration_data_bounds:
  "b \<in> set (iteration_data it) \<Longrightarrow> b \<noteq> [] \<and> length b \<le> UINT16_MAX"
  by (cases it) (auto simp: iteration_data_def socket_data_Some split: if_splits)

lemma received_bounds: "b \<in> set (received its) \<Longrightarrow> b \<noteq> [] \<and> length b \<le> UINT16_MAX"
  by (induction its) (auto dest: iteration_data_bounds split: if_splits)

section \<open>The contract of the data callback\<close>

locale uds_receiver =
  fixes data :: "bytes \<Rightarrow> 'h \<Rightarrow> 'h res"
    and inv :: "'h \<Rightarrow> bool"
    and tolerated :: "fault set"
  assumes data_law: "inv h \<Longrightarrow> bs \<noteq> [] \<Longrightarrow> length bs \<le> UINT16_MAX \<Longrightarrow> outcome tolerated inv (data bs h)"
begin

lemma feed_outcome:
  "inv h \<Longrightarrow> \<forall>b\<in>set bs. b \<noteq> [] \<and> length b \<le> UINT16_MAX \<Longrightarrow> outcome tolerated inv (feed data bs h)"
  by (induction bs arbitrary: h) (auto intro: outcome_bind data_law)

lemma MainLoop_outcome:
  assumes "inv h"
  shows "outcome tolerated (\<lambda>(s', h'). inv h' \<and> (ends its \<longrightarrow> uc_fd s' = -1 \<and> uc_shutdownFd s' = -1))
    (client_MainLoop (Some data) None its (s, h))"
  unfolding client_MainLoop_eq
  by (rule outcome_bind [OF feed_outcome [OF assms]])
    (auto simp: client_exit_def dest: received_bounds)

end


text \<open>Repeated \<open>Shutdown\<close> calls.\<close>

fun Shutdown_times :: "nat \<Rightarrow> UDSClient \<Rightarrow> UDSClient option" where
  "Shutdown_times 0 s = Some s"
| "Shutdown_times (Suc n) s = Option.bind (Shutdown s) (Shutdown_times n)"

lemma Shutdown_times_eq:
  "uc_shutdownFd s \<noteq> -1 \<Longrightarrow> uc_event s \<le> eventfd_max \<Longrightarrow>
   Shutdown_times n s = (if uc_event s + n * UINT32_MAX \<le> eventfd_max
     then Some (s\<lparr>uc_event := uc_event s + n * UINT32_MAX\<rparr>) else None)"
proof (induction n arbitrary: s)
  case 0
  then show ?case by simp
next
  case (Suc n)
  show ?case
  proof (cases "uc_event s + UINT32_MAX \<le> eventfd_max")
    case True
    let ?s = "s\<lparr>uc_event := uc_event s + UINT32_MAX\<rparr>"
    have "Shutdown s = Some ?s" using Suc.prems True by (simp add: Shutdown_def eventfd_write_def)
    moreover have "Shutdown_times n ?s = (if uc_event ?s + n * UINT32_MAX \<le> eventfd_max
        then Some (?s\<lparr>uc_event := uc_event ?s + n * UINT32_MAX\<rparr>) else None)"
      using Suc.prems True by (intro Suc.IH) simp_all
    ultimately show ?thesis by (simp add: algebra_simps)
  next
    case False
    with Suc.prems show ?thesis by (simp add: Shutdown_def eventfd_write_def)
  qed
qed

end
