(* ===== verification/TopologyManager.thy ===== *)
theory TopologyManager
  imports TopologyView UDSClient
begin

text \<open>
  \<open>lib/TopologyManager.h\<close> and \<open>lib/TopologyManager.cc\<close>: the client side of the topology.
  The manager keeps the messages it received (\<open>mHistory\<close>), the table of nodes built from
  them, the messages that could not be sent (\<open>mBacklog\<close>), and the connection in use. Each
  operation is a function on this state; the callbacks it makes and the messages it hands to
  \<open>UDSClient::Send\<close> are recorded in order. \<open>mMtx\<close> is a flag, so that locking it twice in one
  thread (which never returns for a \<open>std::mutex\<close>) shows as the fault \<open>Self_deadlock\<close>.
\<close>

section \<open>State\<close>

record Publication =
  pub_name :: string
  pub_mime :: string

record Node =
  nd_id :: u64
  nd_name :: string
  nd_address :: string
  nd_publications :: "(string \<times> Publication) list"
  nd_subscriptions :: "string list"

text \<open>Which of the six callbacks are set, and the calls made to them.\<close>

record Handlers =
  has_onJoin :: bool
  has_onLeave :: bool
  has_onAnnounce :: bool
  has_onRetract :: bool
  has_onSubscribe :: bool
  has_onUnsubscribe :: bool

definition all_handlers :: Handlers where
  "all_handlers = \<lparr>has_onJoin = True, has_onLeave = True, has_onAnnounce = True,
     has_onRetract = True, has_onSubscribe = True, has_onUnsubscribe = True\<rparr>"

datatype notification =
    Call_onJoin NodeChange
  | Call_onLeave NodeChange
  | Call_onAnnounce TopicChange
  | Call_onRetract TopicChange
  | Call_onSubscribe TopicChange
  | Call_onUnsubscribe TopicChange

type_synonym client_handle = nat

record TopologyManager =
  tm_nodeId :: u64
  tm_announcePath :: string
  tm_address :: string
  tm_name :: string
  tm_history :: "TopologyMessage list"
  tm_backlog :: "TopologyMessage list"
  tm_nodes :: "u64 \<rightharpoonup> Node"
  tm_client :: "client_handle option"
  tm_locked :: bool
  tm_shutdown :: bool
  tm_calls :: "notification list"
  tm_intro :: "(client_handle \<times> TopologyMessage) list"  \<comment> \<open>sent by \<open>IntroduceOurselves\<close>\<close>
  tm_sent :: "(client_handle \<times> TopologyMessage \<times> int) list" \<comment> \<open>by \<open>Send\<close>, with the result\<close>

definition TopologyManager_init :: "string \<Rightarrow> string \<Rightarrow> u64 \<Rightarrow> string \<Rightarrow> TopologyManager" where
  "TopologyManager_init groupName nodeName nodeId dataPath =
     \<lparr>tm_nodeId = nodeId, tm_announcePath = NUL # groupName, tm_address = dataPath,
      tm_name = nodeName, tm_history = [], tm_backlog = [], tm_nodes = Map.empty,
      tm_client = None, tm_locked = False, tm_shutdown = False, tm_calls = [], tm_intro = [],
      tm_sent = []\<rparr>"

definition with_lock :: "(TopologyManager \<Rightarrow> TopologyManager res) \<Rightarrow> TopologyManager \<Rightarrow> TopologyManager res" where
  "with_lock body m =
     (if tm_locked m then Inl Self_deadlock
      else bind_res (body (m\<lparr>tm_locked := True\<rparr>)) (\<lambda>m. Inr (m\<lparr>tm_locked := False\<rparr>)))"

section \<open>\<open>ApplyUpdate\<close>\<close>

definition notify :: "bool \<Rightarrow> notification \<Rightarrow> TopologyManager \<Rightarrow> TopologyManager" where
  "notify on_set n m = (if on_set then m\<lparr>tm_calls := tm_calls m @ [n]\<rparr> else m)"

definition set_node :: "u64 \<Rightarrow> Node \<Rightarrow> TopologyManager \<Rightarrow> TopologyManager" where
  "set_node i nd m = m\<lparr>tm_nodes := (tm_nodes m)(i \<mapsto> nd)\<rparr>"

definition new_Node :: "NodeChange \<Rightarrow> Node" where
  "new_Node c = \<lparr>nd_id = nc_id c, nd_name = nc_name c, nd_address = nc_address c,
                 nd_publications = [], nd_subscriptions = []\<rparr>"

definition apply_node_change :: "Handlers \<Rightarrow> NodeChange \<Rightarrow> TopologyManager \<Rightarrow> TopologyManager res" where
  "apply_node_change H c m =
     (if nc_op c = JOIN then
        case tm_nodes m (nc_id c) of
          None \<Rightarrow>
            Inr (notify (has_onJoin H) (Call_onJoin c) (set_node (nc_id c) (new_Node c) m))
        | Some nd \<Rightarrow>
            bind_res (assert_that Node_id_matches (nd_id nd = nc_id c) ()) (\<lambda>_.
            if nd_name nd \<noteq> nc_name c \<or> nd_address nd \<noteq> nc_address c
            then Inr (notify (has_onJoin H) (Call_onJoin c) m)
            else Inr m)
      else if nc_op c = LEAVE then
        case tm_nodes m (nc_id c) of
          None \<Rightarrow> Inr m
        | Some _ \<Rightarrow>
            Inr (notify (has_onLeave H) (Call_onLeave c)
              (m\<lparr>tm_nodes := (tm_nodes m)(nc_id c := None)\<rparr>))
      else Inr m)"

definition apply_announce :: "Handlers \<Rightarrow> TopicChange \<Rightarrow> Node \<Rightarrow> TopologyManager \<Rightarrow> TopologyManager res" where
  "apply_announce H c nd m =
     (let inserted = (map_of (nd_publications nd) (tc_name c) = None);
          pubs = emplace (tc_name c) \<lparr>pub_name = tc_name c, pub_mime = tc_mime c\<rparr> (nd_publications nd);
          pub = the (map_of pubs (tc_name c));
          m' = set_node (tc_node_id c) (nd\<lparr>nd_publications := pubs\<rparr>) m
      in if inserted \<and> has_onAnnounce H then Inr (notify True (Call_onAnnounce c) m')
         else if tc_mime c \<noteq> pub_mime pub then
           let pubs' = AList.update (tc_name c) (pub\<lparr>pub_mime := tc_mime c\<rparr>) pubs;
               m'' = set_node (tc_node_id c) (nd\<lparr>nd_publications := pubs'\<rparr>) m
           in if has_onAnnounce H then Inr (notify True (Call_onAnnounce c) m'')
              else Inl Bad_function_call
         else Inr m')"

definition apply_topic_change :: "Handlers \<Rightarrow> TopicChange \<Rightarrow> TopologyManager \<Rightarrow> TopologyManager res" where
  "apply_topic_change H c m =
     (case tm_nodes m (tc_node_id c) of
        None \<Rightarrow> Inr m
      | Some nd \<Rightarrow>
          if tc_op c = ANNOUNCE then apply_announce H c nd m
          else if tc_op c = SUBSCRIBE then
            (let inserted = tc_name c \<notin> set (nd_subscriptions nd);
                 nd' = nd\<lparr>nd_subscriptions := set_emplace (tc_name c) (nd_subscriptions nd)\<rparr>
             in Inr (notify (inserted \<and> has_onSubscribe H) (Call_onSubscribe c)
                  (set_node (tc_node_id c) nd' m)))
          else if tc_op c = UNSUBSCRIBE then
            (let erased = tc_name c \<in> set (nd_subscriptions nd);
                 nd' = nd\<lparr>nd_subscriptions := set_erase (tc_name c) (nd_subscriptions nd)\<rparr>
             in Inr (notify (erased \<and> has_onUnsubscribe H) (Call_onUnsubscribe c)
                  (set_node (tc_node_id c) nd' m)))
          else if tc_op c = RETRACT then
            (let erased = map_of (nd_publications nd) (tc_name c) \<noteq> None;
                 nd' = nd\<lparr>nd_publications := AList.delete (tc_name c) (nd_publications nd)\<rparr>
             in Inr (notify (erased \<and> has_onRetract H) (Call_onRetract c)
                  (set_node (tc_node_id c) nd' m)))
          else Inr m)"

definition seqComp :: "TopologyMessage \<Rightarrow> TopologyMessage \<Rightarrow> bool" where
  "seqComp lhs rhs \<longleftrightarrow> seq lhs < seq rhs"

definition insert_history :: "TopologyMessage \<Rightarrow> TopologyMessage list \<Rightarrow> TopologyMessage list" where
  "insert_history msg hist = vector_insert (lower_bound seqComp hist msg) msg hist"

definition ApplyUpdate_body :: "Handlers \<Rightarrow> TopologyMessage \<Rightarrow> TopologyManager \<Rightarrow> TopologyManager res" where
  "ApplyUpdate_body H msg m =
     (let m = m\<lparr>tm_history := insert_history msg (tm_history m)\<rparr> in
      if has_node_change msg then apply_node_change H (node_change msg) m
      else if has_topic_change msg then apply_topic_change H (topic_change msg) m
      else Inr m)"

definition ApplyUpdate :: "Handlers \<Rightarrow> TopologyMessage \<Rightarrow> TopologyManager \<Rightarrow> TopologyManager res" where
  "ApplyUpdate H msg = with_lock (ApplyUpdate_body H msg)"

definition ApplyUpdate_bytes ::
  "(bytes \<Rightarrow> TopologyMessage) \<Rightarrow> Handlers \<Rightarrow> bytes \<Rightarrow> TopologyManager \<Rightarrow> TopologyManager res" where
  "ApplyUpdate_bytes parse H data = ApplyUpdate H (parse data)"

section \<open>\<open>IntroduceOurselves\<close>\<close>

text \<open>
  The three parts after the history are built in one \<open>TopologyMessage\<close> that is rewritten
  before each send; setters that a part does not call keep the value of the part before.
\<close>

definition introduce_node :: "TopologyManager \<Rightarrow> TopologyMessage" where
  "introduce_node m =
     mutable_node_change
       (\<lambda>c. c\<lparr>nc_id := tm_nodeId m, nc_op := JOIN, nc_name := tm_name m, nc_address := tm_address m\<rparr>)
       default_TopologyMessage"

fun introduce_publications ::
  "u64 \<Rightarrow> (string \<times> Publication) list \<Rightarrow> TopologyMessage \<Rightarrow> TopologyMessage list \<times> TopologyMessage" where
  "introduce_publications i [] msg = ([], msg)"
| "introduce_publications i ((k, pub) # pubs) msg =
     (let msg = mutable_topic_change
            (\<lambda>c. c\<lparr>tc_name := pub_name pub, tc_mime := pub_mime pub, tc_node_id := i,
                   tc_op := ANNOUNCE\<rparr>) msg;
          (rest, last) = introduce_publications i pubs msg
      in (msg # rest, last))"

fun introduce_subscriptions ::
  "u64 \<Rightarrow> string list \<Rightarrow> TopologyMessage \<Rightarrow> TopologyMessage list" where
  "introduce_subscriptions i [] msg = []"
| "introduce_subscriptions i (t # ts) msg =
     (let msg = mutable_topic_change
            (\<lambda>c. c\<lparr>tc_name := t, tc_node_id := i, tc_op := SUBSCRIBE\<rparr>) msg
      in msg # introduce_subscriptions i ts msg)"

definition introduction :: "TopologyManager \<Rightarrow> TopologyMessage list" where
  "introduction m =
     tm_history m @
     (let msg = introduce_node m in
      msg #
      (case tm_nodes m (tm_nodeId m) of
         None \<Rightarrow> []
       | Some nd \<Rightarrow>
           (let (pubs, msg) = introduce_publications (tm_nodeId m) (nd_publications nd) msg
            in pubs @ introduce_subscriptions (tm_nodeId m) (nd_subscriptions nd) msg)))"

definition IntroduceOurselves :: "client_handle \<Rightarrow> TopologyManager \<Rightarrow> TopologyManager res" where
  "IntroduceOurselves c =
     with_lock (\<lambda>m. Inr (m\<lparr>tm_intro := tm_intro m @ map (Pair c) (introduction m)\<rparr>))"

section \<open>\<open>Send\<close> and the public operations\<close>

text \<open>\<open>ret\<close> is the result of \<open>UDSClient::Send\<close>, should the call reach it.\<close>

definition Send_body :: "int \<Rightarrow> TopologyMessage \<Rightarrow> TopologyManager \<Rightarrow> TopologyManager res" where
  "Send_body ret msg m =
     (case tm_client m of
        None \<Rightarrow> Inr (m\<lparr>tm_backlog := tm_backlog m @ [msg]\<rparr>)
      | Some c \<Rightarrow>
          (let m = m\<lparr>tm_sent := tm_sent m @ [(c, msg, ret)]\<rparr> in
           if ret < 0
           then Inr (m\<lparr>tm_client := None, tm_backlog := tm_backlog m @ [msg]\<rparr>)
           else Inr m))"

definition Send :: "int \<Rightarrow> TopologyMessage \<Rightarrow> TopologyManager \<Rightarrow> TopologyManager res" where
  "Send ret msg = with_lock (Send_body ret msg)"

definition topic_message :: "u64 \<Rightarrow> TopicOperation \<Rightarrow> string \<Rightarrow> TopologyMessage" where
  "topic_message i operation topic =
     mutable_topic_change (\<lambda>c. c\<lparr>tc_node_id := i, tc_op := operation, tc_name := topic\<rparr>)
       default_TopologyMessage"

definition Announce :: "int \<Rightarrow> string \<Rightarrow> string \<Rightarrow> TopologyManager \<Rightarrow> TopologyManager res" where
  "Announce ret topic mime m =
     Send ret (mutable_topic_change (\<lambda>c. c\<lparr>tc_mime := mime\<rparr>)
       (topic_message (tm_nodeId m) ANNOUNCE topic)) m"

definition Retract :: "int \<Rightarrow> string \<Rightarrow> TopologyManager \<Rightarrow> TopologyManager res" where
  "Retract ret topic m = Send ret (topic_message (tm_nodeId m) RETRACT topic) m"

definition Subscribe :: "int \<Rightarrow> string \<Rightarrow> TopologyManager \<Rightarrow> TopologyManager res" where
  "Subscribe ret topic m = Send ret (topic_message (tm_nodeId m) SUBSCRIBE topic) m"

text \<open>\<open>Unsubscribe\<close> takes \<open>mMtx\<close> itself before it calls \<open>Send\<close>, which takes it again.\<close>

definition Unsubscribe :: "int \<Rightarrow> string \<Rightarrow> TopologyManager \<Rightarrow> TopologyManager res" where
  "Unsubscribe ret topic =
     with_lock (\<lambda>m. Send ret (topic_message (tm_nodeId m) UNSUBSCRIBE topic) m)"

section \<open>\<open>MainLoop\<close>: using a new connection\<close>

definition adopt_client :: "client_handle \<Rightarrow> TopologyManager \<Rightarrow> (TopologyMessage list \<times> TopologyManager) res" where
  "adopt_client c m =
     bind_res (with_lock (\<lambda>m. Inr (m\<lparr>tm_client := Some c, tm_backlog := []\<rparr>)) m) (\<lambda>m'.
     Inr (tm_backlog m, m'))"

text \<open>Each \<open>Send\<close> of the flush gets the result that the environment has for it.\<close>

fun flush_backlog :: "(TopologyMessage \<times> int) list \<Rightarrow> TopologyManager \<Rightarrow> TopologyManager res" where
  "flush_backlog [] m = Inr m"
| "flush_backlog ((msg, ret) # rest) m = bind_res (Send ret msg m) (flush_backlog rest)"

text \<open>The call \<open>mClient->Wait()\<close> right after the flush.\<close>

definition wait_on_client :: "TopologyManager \<Rightarrow> TopologyManager res" where
  "wait_on_client m = (case tm_client m of None \<Rightarrow> Inl Null_dereference | Some _ \<Rightarrow> Inr m)"

end
