(* ===== verification/ManagerRefinement.thy ===== *)
theory ManagerRefinement
  imports TopologyManager
begin

text \<open>
  The manager's table of nodes refines the abstract topology: each \<open>ApplyUpdate\<close> does to the
  table what \<open>topology_step\<close> does to the abstract map, keeps the table well formed and the
  history sorted, and faults only where the code calls an empty \<open>std::function\<close>.
  \<open>topology_listener\<close> is the contract of the six callbacks; \<open>IPCNode\<close> interprets it.
\<close>

section \<open>Abstraction and invariant\<close>

definition abs_node :: "Node \<Rightarrow> node_view" where
  "abs_node nd = \<lparr>nv_name = nd_name nd, nv_address = nd_address nd,
     nv_pubs = map_option pub_mime \<circ> map_of (nd_publications nd),
     nv_subs = set (nd_subscriptions nd)\<rparr>"

definition abs_topology :: "TopologyManager \<Rightarrow> topology" where
  "abs_topology m = (\<lambda>i. map_option abs_node (tm_nodes m i))"

definition node_ok :: "u64 \<Rightarrow> Node \<Rightarrow> bool" where
  "node_ok i nd \<longleftrightarrow> nd_id nd = i \<and> distinct (map fst (nd_publications nd)) \<and>
     list_all (\<lambda>(t, p). pub_name p = t) (nd_publications nd) \<and> distinct (nd_subscriptions nd)"

definition mgr_ok :: "TopologyManager \<Rightarrow> bool" where
  "mgr_ok m \<longleftrightarrow> (\<forall>i nd. tm_nodes m i = Some nd \<longrightarrow> node_ok i nd) \<and>
     sorted (map seq (tm_history m)) \<and> \<not> tm_locked m"

definition table_ok :: "TopologyManager \<Rightarrow> bool" where
  "table_ok m \<longleftrightarrow> (\<forall>i nd. tm_nodes m i = Some nd \<longrightarrow> node_ok i nd)"

definition manager_faults :: "Handlers \<Rightarrow> fault set" where
  "manager_faults H = (if has_onAnnounce H then {} else {Bad_function_call})"

named_theorems mgr_simps \<open>projections through the manager's small operations\<close>

lemma notify_simps [simp, mgr_simps]:
  "tm_nodes (notify b n m) = tm_nodes m" "tm_history (notify b n m) = tm_history m"
  "tm_locked (notify b n m) = tm_locked m" "tm_client (notify b n m) = tm_client m"
  "tm_backlog (notify b n m) = tm_backlog m" "tm_nodeId (notify b n m) = tm_nodeId m"
  "tm_calls (notify b n m) = tm_calls m @ (if b then [n] else [])"
  by (simp_all add: notify_def)

lemma set_node_simps [simp, mgr_simps]:
  "tm_nodes (set_node i nd m) = (tm_nodes m)(i \<mapsto> nd)"
  "tm_history (set_node i nd m) = tm_history m" "tm_locked (set_node i nd m) = tm_locked m"
  "tm_client (set_node i nd m) = tm_client m" "tm_backlog (set_node i nd m) = tm_backlog m"
  "tm_nodeId (set_node i nd m) = tm_nodeId m" "tm_calls (set_node i nd m) = tm_calls m"
  by (simp_all add: set_node_def)

lemma with_lock_outcome:
  assumes "\<not> tm_locked m" "outcome T P (body (m\<lparr>tm_locked := True\<rparr>))"
    and "\<And>m. P m \<Longrightarrow> Q (m\<lparr>tm_locked := False\<rparr>)"
  shows "outcome T Q (with_lock body m)"
  using assms by (auto simp: with_lock_def intro: outcome_bind)

section \<open>\<open>ApplyUpdate\<close> refines \<open>topology_step\<close>\<close>

lemma abs_set_node:
  "(\<lambda>k. map_option abs_node ((N(i \<mapsto> nd)) k)) = (\<lambda>k. map_option abs_node (N k))(i \<mapsto> abs_node nd)"
  by auto

definition refines_cell ::
  "u64 \<Rightarrow> (node_view option \<Rightarrow> node_view option) \<Rightarrow> TopologyManager \<Rightarrow> TopologyManager \<Rightarrow> bool" where
  "refines_cell i f m m' \<longleftrightarrow> table_ok m' \<and> tm_history m' = tm_history m \<and> tm_locked m' = tm_locked m \<and>
     abs_topology m' = (abs_topology m)(i := f (abs_topology m i))"

lemma refines_cell_refl: "table_ok m \<Longrightarrow> f (abs_topology m i) = abs_topology m i \<Longrightarrow> refines_cell i f m m"
  by (simp add: refines_cell_def)

lemma refines_cell_set:
  "table_ok m \<Longrightarrow> node_ok i nd \<Longrightarrow> Some (abs_node nd) = f (abs_topology m i) \<Longrightarrow>
   refines_cell i f m (notify b n (set_node i nd m))"
  by (auto simp: refines_cell_def table_ok_def abs_topology_def abs_set_node)

lemma refines_cell_notify [simp]: "refines_cell i f m (notify b n m') = refines_cell i f m m'"
  by (simp add: refines_cell_def table_ok_def abs_topology_def)

lemma apply_node_change_refines:
  assumes ok: "table_ok m"
  shows "outcome {} (refines_cell (nc_id c) (node_cell c) m) (apply_node_change H c m)"
proof (cases "tm_nodes m (nc_id c)")
  case None
  then have "abs_topology m (nc_id c) = None" by (simp add: abs_topology_def)
  moreover have "node_ok (nc_id c) (new_Node c)" "abs_node (new_Node c) =
      \<lparr>nv_name = nc_name c, nv_address = nc_address c, nv_pubs = Map.empty, nv_subs = {}\<rparr>"
    by (auto simp: node_ok_def new_Node_def abs_node_def)
  ultimately show ?thesis
    using None ok
    by (auto simp: apply_node_change_def intro!: refines_cell_refl refines_cell_set
        split: NodeOperation.split simp del: refines_cell_notify)
next
  case (Some nd)
  then have "nd_id nd = nc_id c" using ok by (auto simp: table_ok_def node_ok_def)
  moreover have "refines_cell (nc_id c) (node_cell c) m
      (m\<lparr>tm_nodes := (tm_nodes m)(nc_id c := None)\<rparr>)" if "nc_op c = LEAVE"
    using that ok by (auto simp: refines_cell_def table_ok_def abs_topology_def)
  ultimately show ?thesis
    using Some ok
    by (auto simp: apply_node_change_def abs_topology_def intro!: refines_cell_refl
        split: NodeOperation.split)
qed

lemma apply_announce_refines:
  assumes ok: "table_ok m" and nd: "tm_nodes m (tc_node_id c) = Some nd" and opn: "tc_op c = ANNOUNCE"
  shows "outcome (manager_faults H) (refines_cell (tc_node_id c) (map_option (topic_cell c)) m)
    (apply_announce H c nd m)"
proof -
  let ?i = "tc_node_id c" and ?t = "tc_name c" and ?new = "\<lparr>pub_name = tc_name c, pub_mime = tc_mime c\<rparr>"
  have ndok: "node_ok ?i nd" and abs: "abs_topology m ?i = Some (abs_node nd)"
    using ok nd by (auto simp: table_ok_def abs_topology_def)
  show ?thesis
  proof (cases "map_of (nd_publications nd) ?t")
    case None
    let ?nd = "nd\<lparr>nd_publications := nd_publications nd @ [(?t, ?new)]\<rparr>"
    have "node_ok ?i ?nd" using ndok None by (auto simp: node_ok_def map_of_eq_None_iff)
    moreover have "Some (abs_node ?nd) = map_option (topic_cell c) (abs_topology m ?i)"
      using None opn by (auto simp: abs abs_node_def map_add_def fun_eq_iff split: option.splits)
    ultimately have "refines_cell ?i (map_option (topic_cell c)) m (notify b n (set_node ?i ?nd m))" for b n
      by (rule refines_cell_set [OF ok])
    with None show ?thesis by (auto simp: apply_announce_def emplace_new Let_def map_add_def)
  next
    case (Some pub)
    let ?nd = "nd\<lparr>nd_publications := AList.update ?t (pub\<lparr>pub_mime := tc_mime c\<rparr>) (nd_publications nd)\<rparr>"
    have "pub_name pub = ?t"
      using ndok map_of_SomeD [OF Some] by (auto simp: node_ok_def list_all_iff)
    then have "node_ok ?i ?nd"
      using ndok by (auto simp: node_ok_def distinct_update intro!: list_all_update)
    moreover have "Some (abs_node ?nd) = map_option (topic_cell c) (abs_topology m ?i)"
      using opn by (auto simp: abs abs_node_def fun_eq_iff update_conv)
    ultimately have upd: "refines_cell ?i (map_option (topic_cell c)) m (notify b n (set_node ?i ?nd m))" for b n
      by (rule refines_cell_set [OF ok])
    have same: "refines_cell ?i (map_option (topic_cell c)) m (notify b n (set_node ?i nd m))"
      if "pub_mime pub = tc_mime c" for b n
      using ok ndok by (rule refines_cell_set) (use that Some opn in \<open>auto simp: abs abs_node_def fun_eq_iff\<close>)
    from Some upd same show ?thesis
      by (auto simp: apply_announce_def emplace_old Let_def manager_faults_def)
  qed
qed

lemma apply_topic_change_refines:
  assumes ok: "table_ok m"
  shows "outcome (manager_faults H) (refines_cell (tc_node_id c) (map_option (topic_cell c)) m)
    (apply_topic_change H c m)"
proof (cases "tm_nodes m (tc_node_id c)")
  case None
  with ok show ?thesis
    by (auto simp: apply_topic_change_def abs_topology_def intro: refines_cell_refl)
next
  case (Some nd)
  let ?i = "tc_node_id c"
  have ndok: "node_ok ?i nd" and abs: "abs_topology m ?i = Some (abs_node nd)"
    using ok Some by (auto simp: table_ok_def abs_topology_def)
  show ?thesis
  proof (cases "tc_op c")
    case ANNOUNCE
    with apply_announce_refines [OF ok Some] Some show ?thesis by (simp add: apply_topic_change_def)
  next
    case RETRACT
    let ?nd = "nd\<lparr>nd_publications := AList.delete (tc_name c) (nd_publications nd)\<rparr>"
    have "node_ok ?i ?nd"
      using ndok by (auto simp: node_ok_def distinct_delete_keys list_all_delete)
    moreover have "Some (abs_node ?nd) = map_option (topic_cell c) (abs_topology m ?i)"
      using RETRACT by (auto simp: abs abs_node_def fun_eq_iff delete_conv)
    ultimately show ?thesis
      using RETRACT Some ok
      by (auto simp: apply_topic_change_def Let_def intro: refines_cell_set simp del: refines_cell_notify)
  next
    case SUBSCRIBE
    let ?nd = "nd\<lparr>nd_subscriptions := set_emplace (tc_name c) (nd_subscriptions nd)\<rparr>"
    have "node_ok ?i ?nd" "Some (abs_node ?nd) = map_option (topic_cell c) (abs_topology m ?i)"
      using ndok SUBSCRIBE by (auto simp: node_ok_def abs abs_node_def)
    then show ?thesis
      using SUBSCRIBE Some ok
      by (auto simp: apply_topic_change_def Let_def intro: refines_cell_set simp del: refines_cell_notify)
  next
    case UNSUBSCRIBE
    let ?nd = "nd\<lparr>nd_subscriptions := set_erase (tc_name c) (nd_subscriptions nd)\<rparr>"
    have "node_ok ?i ?nd" "Some (abs_node ?nd) = map_option (topic_cell c) (abs_topology m ?i)"
      using ndok UNSUBSCRIBE by (auto simp: node_ok_def abs abs_node_def)
    then show ?thesis
      using UNSUBSCRIBE Some ok
      by (auto simp: apply_topic_change_def Let_def intro: refines_cell_set simp del: refines_cell_notify)
  qed (use Some ok in \<open>auto simp: apply_topic_change_def abs_topology_def map_option.id intro!: refines_cell_refl\<close>)
qed

lemma topology_step_node:
  "has_node_change m \<Longrightarrow> topology_step m V =
     V(nc_id (node_change m) := node_cell (node_change m) (V (nc_id (node_change m))))"
  by (auto simp: topology_step_def keyed_step_def msg_key_def topology_cell_def oneof_defs
      split: oneof_op.splits)

lemma topology_step_topic:
  "has_topic_change m \<Longrightarrow> topology_step m V =
     V(tc_node_id (topic_change m) :=
         map_option (topic_cell (topic_change m)) (V (tc_node_id (topic_change m))))"
  by (auto simp: topology_step_def keyed_step_def msg_key_def topology_cell_def oneof_defs
      split: oneof_op.splits)

lemma topology_step_none:
  "\<not> has_node_change m \<Longrightarrow> \<not> has_topic_change m \<Longrightarrow> topology_step m V = V"
  by (auto simp: topology_step_def keyed_step_def msg_key_def oneof_defs split: oneof_op.splits)

lemma sorted_insert_history:
  "sorted (map seq hist) \<Longrightarrow> sorted (map seq (insert_history msg hist))"
  unfolding insert_history_def seqComp_def [abs_def] by (rule sorted_insert_lower_bound)

lemma insert_history_end:
  "\<forall>h\<in>set hist. seq h < seq msg \<Longrightarrow> insert_history msg hist = hist @ [msg]"
  by (simp add: insert_history_def insert_lower_bound_end seqComp_def)

definition applied :: "TopologyMessage \<Rightarrow> TopologyManager \<Rightarrow> TopologyManager \<Rightarrow> bool" where
  "applied msg m m' \<longleftrightarrow> mgr_ok m' \<and> abs_topology m' = topology_step msg (abs_topology m) \<and>
     tm_history m' = insert_history msg (tm_history m)"

lemma ApplyUpdate_outcome:
  assumes "mgr_ok m"
  shows "outcome (manager_faults H) (applied msg m) (ApplyUpdate H msg m)"
proof -
  let ?m = "m\<lparr>tm_locked := True, tm_history := insert_history msg (tm_history m)\<rparr>"
  let ?P = "\<lambda>m'. table_ok m' \<and> tm_history m' = insert_history msg (tm_history m) \<and>
      abs_topology m' = topology_step msg (abs_topology m)"
  have ok: "table_ok ?m" and lock: "\<not> tm_locked m" and srt: "sorted (map seq (tm_history m))"
    using assms by (auto simp: mgr_ok_def table_ok_def)
  have abs: "abs_topology ?m = abs_topology m" by (simp add: abs_topology_def)
  have "outcome (manager_faults H) ?P (ApplyUpdate_body H msg (m\<lparr>tm_locked := True\<rparr>))"
  proof (cases rule: oneof_exhaust [of msg])
    case none
    with ok abs show ?thesis by (auto simp: ApplyUpdate_body_def Let_def topology_step_none)
  next
    case node
    from apply_node_change_refines [OF ok, of "node_change msg" H]
    obtain m' where "apply_node_change H (node_change msg) ?m = Inr m'"
        "refines_cell (nc_id (node_change msg)) (node_cell (node_change msg)) ?m m'"
      by (auto simp: outcome_total)
    with node abs show ?thesis
      by (auto simp: ApplyUpdate_body_def Let_def refines_cell_def topology_step_node)
  next
    case topic
    from apply_topic_change_refines [OF ok, of H "topic_change msg"] topic abs show ?thesis
      by (auto simp: ApplyUpdate_body_def Let_def refines_cell_def topology_step_topic
          intro: outcome_mono)
  qed
  then show ?thesis
    unfolding ApplyUpdate_def
    by (rule with_lock_outcome [OF lock])
      (use sorted_insert_history [OF srt] in
        \<open>auto simp: applied_def mgr_ok_def table_ok_def abs_topology_def\<close>)
qed

text \<open>A manager that applies a log from the start holds the topology of that log.\<close>

lemma apply_log:
  assumes "mgr_ok m"
  shows "outcome (manager_faults H) (\<lambda>m'. mgr_ok m' \<and>
      abs_topology m' = fold topology_step ms (abs_topology m) \<and>
      (sorted_wrt (<) (map seq (tm_history m @ ms)) \<longrightarrow> tm_history m' = tm_history m @ ms))
    (feed (ApplyUpdate H) ms m)"
  using assms
proof (induction ms arbitrary: m)
  case Nil
  then show ?case by simp
next
  case (Cons msg ms)
  have "outcome (manager_faults H) (\<lambda>m'. mgr_ok m' \<and>
      abs_topology m' = fold topology_step (msg # ms) (abs_topology m) \<and>
      (sorted_wrt (<) (map seq (tm_history m @ msg # ms)) \<longrightarrow> tm_history m' = tm_history m @ msg # ms))
    (feed (ApplyUpdate H) ms m1)" if m1: "applied msg m m1" for m1
  proof -
    have "tm_history m1 = tm_history m @ [msg]" if "sorted_wrt (<) (map seq (tm_history m @ msg # ms))"
      using m1 that by (auto simp: applied_def sorted_wrt_append intro!: insert_history_end)
    with m1 show ?thesis
      by (intro outcome_mono [OF Cons.IH [of m1]]) (auto simp: applied_def)
  qed
  with ApplyUpdate_outcome [OF Cons.prems, of H msg] show ?case
    by (auto intro: outcome_bind)
qed

lemma TopologyManager_init_ok [simp]:
  "mgr_ok (TopologyManager_init g n i p)" "abs_topology (TopologyManager_init g n i p) = Map.empty"
  "tm_history (TopologyManager_init g n i p) = []"
  by (auto simp: mgr_ok_def TopologyManager_init_def abs_topology_def)

text \<open>\<open>ApplyUpdate\<close> is a lawful data callback of \<open>UDSClient\<close>.\<close>

interpretation manager: uds_receiver "ApplyUpdate_bytes parse H" mgr_ok "manager_faults H"
  for parse H
  by unfold_locales
    (auto simp: ApplyUpdate_bytes_def applied_def intro: outcome_mono [OF ApplyUpdate_outcome])

section \<open>The contract of the topology callbacks\<close>

text \<open>
  What a listener has to do so that it stays in step with the manager: \<open>subs\<close> and \<open>path\<close>
  are what can be observed of it per node.
\<close>

definition mgr_subs :: "TopologyManager \<Rightarrow> u64 \<rightharpoonup> string set" where
  "mgr_subs m = (\<lambda>i. map_option (\<lambda>nd. set (nd_subscriptions nd)) (tm_nodes m i))"

definition mgr_path :: "TopologyManager \<Rightarrow> u64 \<rightharpoonup> string" where
  "mgr_path m = (\<lambda>i. map_option nd_address (tm_nodes m i))"

definition address_fits :: "TopologyMessage \<Rightarrow> bool" where
  "address_fits msg \<longleftrightarrow> length (nc_address (node_change msg)) \<le> sun_path_size"

text \<open>A node that joins again does so under the address the table has for it.\<close>

definition same_address :: "TopologyMessage \<Rightarrow> TopologyManager \<Rightarrow> bool" where
  "same_address msg m \<longleftrightarrow> (joins msg \<longrightarrow>
     (case tm_nodes m (nc_id (node_change msg)) of
        None \<Rightarrow> True | Some nd \<Rightarrow> nd_address nd = nc_address (node_change msg)))"

locale topology_listener =
  fixes listen :: "notification \<Rightarrow> 's \<Rightarrow> 's res"
    and subs :: "'s \<Rightarrow> u64 \<rightharpoonup> string set"
    and path :: "'s \<Rightarrow> u64 \<rightharpoonup> string"
    and ok :: "'s \<Rightarrow> bool"
  assumes join_law: "ok s \<Longrightarrow> length (nc_address c) \<le> sun_path_size \<Longrightarrow>
      outcome {} (\<lambda>s'. ok s' \<and> path s' = (path s)(nc_id c \<mapsto> nc_address c) \<and>
        subs s' = (if subs s (nc_id c) = None then (subs s)(nc_id c \<mapsto> {}) else subs s))
      (listen (Call_onJoin c) s)"
    and leave_law: "ok s \<Longrightarrow>
      outcome {} (\<lambda>s'. ok s' \<and> path s' = (path s)(nc_id c := None) \<and>
        subs s' = (subs s)(nc_id c := None)) (listen (Call_onLeave c) s)"
    and announce_law: "ok s \<Longrightarrow>
      outcome {} (\<lambda>s'. ok s' \<and> path s' = path s \<and> subs s' = subs s) (listen (Call_onAnnounce tc) s)"
    and retract_law: "ok s \<Longrightarrow>
      outcome {} (\<lambda>s'. ok s' \<and> path s' = path s \<and> subs s' = subs s) (listen (Call_onRetract tc) s)"
    and subscribe_law: "ok s \<Longrightarrow> subs s (tc_node_id tc) = Some S \<Longrightarrow>
      outcome {} (\<lambda>s'. ok s' \<and> path s' = path s \<and>
        subs s' = (subs s)(tc_node_id tc \<mapsto> insert (tc_name tc) S)) (listen (Call_onSubscribe tc) s)"
    and unsubscribe_law: "ok s \<Longrightarrow> subs s (tc_node_id tc) = Some S \<Longrightarrow>
      outcome {} (\<lambda>s'. ok s' \<and> path s' = path s \<and>
        subs s' = (subs s)(tc_node_id tc \<mapsto> S - {tc_name tc})) (listen (Call_onUnsubscribe tc) s)"
begin

definition mirrors :: "'s \<Rightarrow> TopologyManager \<Rightarrow> bool" where
  "mirrors s m \<longleftrightarrow> ok s \<and> subs s = mgr_subs m"

text \<open>\<open>follows r s m m'\<close>: the calls made from \<open>m\<close> to \<open>m'\<close> take the listener from \<open>m\<close> to \<open>m'\<close>.\<close>

definition follows :: "bool \<Rightarrow> 's \<Rightarrow> TopologyManager \<Rightarrow> TopologyManager \<Rightarrow> bool" where
  "follows agree s m m' \<longleftrightarrow> (\<exists>ns. tm_calls m' = tm_calls m @ ns \<and>
     outcome {} (\<lambda>s'. mirrors s' m' \<and> (agree \<and> path s = mgr_path m \<longrightarrow> path s' = mgr_path m'))
       (feed listen ns s))"

lemma follows_silent:
  assumes "mirrors s m" "tm_calls m' = tm_calls m" "mgr_subs m' = mgr_subs m" "mgr_path m' = mgr_path m"
  shows "follows agree s m m'"
  unfolding follows_def by (rule exI [of _ "[]"]) (use assms in \<open>auto simp: mirrors_def\<close>)

lemma follows_call:
  assumes "tm_calls m' = tm_calls m @ [n]"
    and "outcome {} (\<lambda>s'. mirrors s' m' \<and> (agree \<and> path s = mgr_path m \<longrightarrow> path s' = mgr_path m')) (listen n s)"
  shows "follows agree s m m'"
  unfolding follows_def
  by (rule exI [of _ "[n]"]) (use assms in \<open>auto intro: outcome_bind\<close>)

lemma node_change_followed:
  assumes s: "mirrors s m" and r: "apply_node_change all_handlers c m = Inr m'"
    and fits: "length (nc_address c) \<le> sun_path_size"
    and agree: "agree \<longrightarrow> nc_op c = JOIN \<longrightarrow> (case tm_nodes m (nc_id c) of
      None \<Rightarrow> True | Some nd \<Rightarrow> nd_address nd = nc_address c)"
  shows "follows agree s m m'"
proof -
  let ?i = "nc_id c"
  have ok: "ok s" and sub: "subs s = mgr_subs m" using s by (auto simp: mirrors_def)
  consider (join_new) "nc_op c = JOIN" "tm_nodes m ?i = None"
      "m' = notify True (Call_onJoin c) (set_node ?i (new_Node c) m)"
    | (join_old) nd where "nc_op c = JOIN" "tm_nodes m ?i = Some nd" "m' = notify True (Call_onJoin c) m"
    | (left) nd where "nc_op c = LEAVE" "tm_nodes m ?i = Some nd"
      "m' = notify True (Call_onLeave c) (m\<lparr>tm_nodes := (tm_nodes m)(?i := None)\<rparr>)"
    | (same) "m' = m"
    using r by (auto simp: apply_node_change_def all_handlers_def res_cases split: if_splits option.splits)
  then show ?thesis
  proof cases
    case join_new
    with sub show ?thesis
      by (intro follows_call [OF _ outcome_mono [OF join_law [OF ok fits]]])
        (auto simp: mirrors_def mgr_subs_def mgr_path_def new_Node_def fun_eq_iff)
  next
    case join_old
    with sub agree show ?thesis
      by (intro follows_call [OF _ outcome_mono [OF join_law [OF ok fits]]])
        (auto simp: mirrors_def mgr_subs_def mgr_path_def fun_eq_iff)
  next
    case left
    with sub show ?thesis
      by (intro follows_call [OF _ outcome_mono [OF leave_law [OF ok, where c = c]]])
        (auto simp: mirrors_def mgr_subs_def mgr_path_def fun_eq_iff)
  next
    case same
    with s show ?thesis by (intro follows_silent) auto
  qed
qed

lemma follows_pubs:
  assumes "mirrors s m" "tm_nodes m i = Some nd" "nd_subscriptions nd' = nd_subscriptions nd"
    "nd_address nd' = nd_address nd"
  shows "follows agree s m (set_node i nd' m)"
    and "follows agree s m (notify True (Call_onAnnounce tc) (set_node i nd' m))"
    and "follows agree s m (notify b (Call_onRetract tc) (set_node i nd' m))"
proof -
  have ok: "ok s" and sub: "subs s = mgr_subs m" using assms(1) by (auto simp: mirrors_def)
  have same: "mgr_subs (set_node i nd' m) = mgr_subs m" "mgr_path (set_node i nd' m) = mgr_path m"
    using assms by (auto simp: mgr_subs_def mgr_path_def fun_eq_iff)
  then have eq: "mgr_subs (notify b n (set_node i nd' m)) = mgr_subs m"
      "mgr_path (notify b n (set_node i nd' m)) = mgr_path m" for b n
    by (auto simp: mgr_subs_def mgr_path_def)
  show silent: "follows agree s m (set_node i nd' m)"
    using assms(1) same by (intro follows_silent) auto
  show "follows agree s m (notify True (Call_onAnnounce tc) (set_node i nd' m))"
    using sub eq by (intro follows_call [OF _ outcome_mono [OF announce_law [OF ok, of tc]]]) (auto simp: mirrors_def)
  show "follows agree s m (notify b (Call_onRetract tc) (set_node i nd' m))"
  proof (cases b)
    case True
    with sub eq show ?thesis
      by (intro follows_call [OF _ outcome_mono [OF retract_law [OF ok, of tc]]]) (auto simp: mirrors_def)
  next
    case False
    with silent show ?thesis by (simp add: notify_def)
  qed
qed

lemma announce_followed:
  assumes "mirrors s m" "tm_nodes m (tc_node_id tc) = Some nd"
    and "apply_announce all_handlers tc nd m = Inr m'"
  shows "follows agree s m m'"
proof -
  obtain pubs where "m' = set_node (tc_node_id tc) (nd\<lparr>nd_publications := pubs\<rparr>) m \<or>
      m' = notify True (Call_onAnnounce tc) (set_node (tc_node_id tc) (nd\<lparr>nd_publications := pubs\<rparr>) m)"
    using assms(3) by (auto simp: apply_announce_def all_handlers_def Let_def split: if_splits)
  moreover have "nd_subscriptions (nd\<lparr>nd_publications := pubs\<rparr>) = nd_subscriptions nd"
      "nd_address (nd\<lparr>nd_publications := pubs\<rparr>) = nd_address nd" by simp_all
  ultimately show ?thesis using follows_pubs [OF assms(1,2)] by metis
qed

lemma topic_change_followed:
  assumes s: "mirrors s m" and r: "apply_topic_change all_handlers tc m = Inr m'"
  shows "follows agree s m m'"
proof (cases "tm_nodes m (tc_node_id tc)")
  case None
  with r s show ?thesis by (auto simp: apply_topic_change_def intro: follows_silent)
next
  case (Some nd)
  let ?i = "tc_node_id tc" and ?t = "tc_name tc"
  have ok: "ok s" and sub: "subs s = mgr_subs m" using s by (auto simp: mirrors_def)
  have S: "subs s ?i = Some (set (nd_subscriptions nd))"
    using sub Some by (simp add: mgr_subs_def)
  let ?add = "nd\<lparr>nd_subscriptions := set_emplace ?t (nd_subscriptions nd)\<rparr>"
  let ?del = "nd\<lparr>nd_subscriptions := set_erase ?t (nd_subscriptions nd)\<rparr>"
  show ?thesis
  proof (cases "tc_op tc")
    case ANNOUNCE
    with r Some announce_followed [OF s Some] show ?thesis by (simp add: apply_topic_change_def)
  next
    case RETRACT
    with r Some show ?thesis
      by (auto simp: apply_topic_change_def all_handlers_def Let_def intro!: follows_pubs(3) [OF s Some])
  next
    case SUBSCRIBE
    then have m': "m' = notify (?t \<notin> set (nd_subscriptions nd)) (Call_onSubscribe tc) (set_node ?i ?add m)"
      using r Some by (simp add: apply_topic_change_def all_handlers_def Let_def)
    show ?thesis
    proof (cases "?t \<in> set (nd_subscriptions nd)")
      case True
      then have "?add = nd" by (simp add: set_emplace_def)
      with True m' s Some show ?thesis
        by (intro follows_silent) (auto simp: mgr_subs_def mgr_path_def fun_eq_iff)
    next
      case False
      with m' sub Some show ?thesis
        by (intro follows_call [OF _ outcome_mono [OF subscribe_law [OF ok S]]])
          (auto simp: mirrors_def mgr_subs_def mgr_path_def fun_eq_iff)
    qed
  next
    case UNSUBSCRIBE
    then have m': "m' = notify (?t \<in> set (nd_subscriptions nd)) (Call_onUnsubscribe tc) (set_node ?i ?del m)"
      using r Some by (simp add: apply_topic_change_def all_handlers_def Let_def)
    show ?thesis
    proof (cases "?t \<in> set (nd_subscriptions nd)")
      case False
      with m' s Some show ?thesis
        by (intro follows_silent) (auto simp: mgr_subs_def mgr_path_def fun_eq_iff)
    next
      case True
      with m' sub Some show ?thesis
        by (intro follows_call [OF _ outcome_mono [OF unsubscribe_law [OF ok S]]])
          (auto simp: mirrors_def mgr_subs_def mgr_path_def fun_eq_iff)
    qed
  qed (use r s Some in \<open>auto simp: apply_topic_change_def intro: follows_silent\<close>)
qed

lemma ApplyUpdate_followed:
  assumes s: "mirrors s m" and lock: "\<not> tm_locked m"
    and r: "ApplyUpdate all_handlers msg m = Inr m'" and fits: "address_fits msg"
  shows "follows (same_address msg m) s m m'"
proof -
  let ?m = "m\<lparr>tm_locked := True, tm_history := insert_history msg (tm_history m)\<rparr>"
  have same: "mirrors s ?m" using s by (simp add: mirrors_def mgr_subs_def)
  obtain m1 where body: "ApplyUpdate_body all_handlers msg (m\<lparr>tm_locked := True\<rparr>) = Inr m1"
    and m': "m' = m1\<lparr>tm_locked := False\<rparr>"
    using r lock by (auto simp: ApplyUpdate_def with_lock_def bind_res_eq_Inr)
  have "follows (same_address msg m) s ?m m1"
  proof (cases rule: oneof_exhaust [of msg])
    case none
    with body same show ?thesis by (auto simp: ApplyUpdate_body_def Let_def intro: follows_silent)
  next
    case node
    with body have "apply_node_change all_handlers (node_change msg) ?m = Inr m1"
      by (simp add: ApplyUpdate_body_def Let_def)
    with fits node show ?thesis
      by (intro node_change_followed [OF same])
        (auto simp: address_fits_def same_address_def joins_def)
  next
    case topic
    with body have "apply_topic_change all_handlers (topic_change msg) ?m = Inr m1"
      by (simp add: ApplyUpdate_body_def Let_def)
    then show ?thesis by (rule topic_change_followed [OF same])
  qed
  then show ?thesis
    by (simp add: follows_def mirrors_def mgr_subs_def mgr_path_def m')
qed

end

end
