(* ===== verification/ManagerProperties.thy ===== *)
theory ManagerProperties
  imports ManagerRefinement
begin

text \<open>
  The properties of \<open>lib/TopologyManager.cc\<close>: what its table and its history are after any
  log of updates, what it tells a hub it connects to, and what becomes of the messages it is
  asked to send.
\<close>

section \<open>Applying updates\<close>

lemma insert_history_insort: "insert_history msg hist = insort_key seq msg hist"
  unfolding insert_history_def insert_lower_bound_eq seqComp_def
  by (induction hist) auto

lemma apply_history:
  assumes "mgr_ok m"
  shows "outcome (manager_faults H) (\<lambda>m'. tm_history m' = fold (insort_key seq) ms (tm_history m))
    (feed (ApplyUpdate H) ms m)"
  using assms
proof (induction ms arbitrary: m)
  case Nil
  then show ?case by simp
next
  case (Cons msg ms)
  have "outcome (manager_faults H) (\<lambda>m'. tm_history m' = fold (insort_key seq) (msg # ms) (tm_history m))
      (feed (ApplyUpdate H) ms m1)" if "applied msg m m1" for m1
    using that by (intro outcome_mono [OF Cons.IH [of m1]]) (auto simp: applied_def insert_history_insort)
  with ApplyUpdate_outcome [OF Cons.prems, of H msg] show ?case by (auto intro: outcome_bind)
qed

lemma outcome_conj: "outcome T P r \<Longrightarrow> outcome T Q r \<Longrightarrow> outcome T (\<lambda>x. P x \<and> Q x) r"
  by (cases r) auto

lemma fold_insort: "fold (insort_key f) xs [] = sort_key f (rev xs)"
  by (simp add: sort_key_def foldr_conv_fold)

text \<open>
  C9: A manager that is given any sequence of updates, in any order, holds the topology of that
  sequence as its table of nodes and the updates sorted by sequence number as its history; the
  only way it can fail is the call of an empty announce handler.
\<close>

theorem manager_refines_topology:
  "outcome (if has_onAnnounce H then {} else {Bad_function_call})
    (\<lambda>m. abs_topology m = topology ms \<and> tm_history m = sort_key seq (rev ms))
    (feed (ApplyUpdate H) ms (TopologyManager_init groupName nodeName nodeId dataPath))"
proof -
  let ?m = "TopologyManager_init groupName nodeName nodeId dataPath"
  have topo: "outcome (manager_faults H) (\<lambda>m. abs_topology m = topology ms)
      (feed (ApplyUpdate H) ms ?m)"
    by (rule outcome_mono [OF apply_log]) (simp_all add: topology_append [of "[]", simplified])
  have hist: "outcome (manager_faults H) (\<lambda>m. tm_history m = sort_key seq (rev ms))
      (feed (ApplyUpdate H) ms ?m)"
    using apply_history [of ?m H ms] by (simp add: fold_insort)
  show ?thesis using outcome_conj [OF topo hist] by (simp add: manager_faults_def)
qed

text \<open>
  C35: With a consistent table, \<open>ApplyUpdate\<close> fails in exactly one situation: the message
  changes the mime type of a topic that is already announced and the announce handler, which
  is tested before the first call only, is not set.
\<close>

theorem ApplyUpdate_fails_iff:
  assumes "mgr_ok m"
  shows "ApplyUpdate H msg m = Inl e \<longleftrightarrow> e = Bad_function_call \<and> \<not> has_onAnnounce H \<and>
    \<not> has_node_change msg \<and> has_topic_change msg \<and> tc_op (topic_change msg) = ANNOUNCE \<and>
    (\<exists>nd pub. tm_nodes m (tc_node_id (topic_change msg)) = Some nd \<and>
      map_of (nd_publications nd) (tc_name (topic_change msg)) = Some pub \<and>
      pub_mime pub \<noteq> tc_mime (topic_change msg))"
proof -
  have lock: "\<not> tm_locked m" and ids: "\<And>i nd. tm_nodes m i = Some nd \<Longrightarrow> nd_id nd = i"
    using assms by (auto simp: mgr_ok_def node_ok_def)
  let ?m = "m\<lparr>tm_locked := True, tm_history := insert_history msg (tm_history m)\<rparr>"
  have node: "apply_node_change H (node_change msg) ?m \<noteq> Inl e"
    using ids by (auto simp: apply_node_change_def split: option.splits)
  have topic: "apply_topic_change H (topic_change msg) ?m = Inl e \<longleftrightarrow>
      e = Bad_function_call \<and> \<not> has_onAnnounce H \<and> tc_op (topic_change msg) = ANNOUNCE \<and>
      (\<exists>nd pub. tm_nodes m (tc_node_id (topic_change msg)) = Some nd \<and>
        map_of (nd_publications nd) (tc_name (topic_change msg)) = Some pub \<and>
        pub_mime pub \<noteq> tc_mime (topic_change msg))"
    by (auto simp: apply_topic_change_def apply_announce_def Let_def map_of_emplace
        split: option.splits)
  show ?thesis
    using lock node topic
    by (simp add: ApplyUpdate_def with_lock_def ApplyUpdate_body_def Let_def bind_res_eq_Inl)
qed

definition silent_handlers :: Handlers where
  "silent_handlers = \<lparr>has_onJoin = False, has_onLeave = False, has_onAnnounce = False,
     has_onRetract = False, has_onSubscribe = False, has_onUnsubscribe = False\<rparr>"

definition announcing_manager :: TopologyManager where
  "announcing_manager = (TopologyManager_init ''g'' ''n'' 7 ''p'')\<lparr>
     tm_nodes := [7 \<mapsto> \<lparr>nd_id = 7, nd_name = ''n'', nd_address = ''p'',
       nd_publications = [(''t'', \<lparr>pub_name = ''t'', pub_mime = ''text''\<rparr>)],
       nd_subscriptions = [''u'', ''v'']\<rparr>]\<rparr>"

lemma announcing_manager_ok [simp]: "mgr_ok announcing_manager"
  by (auto simp: announcing_manager_def mgr_ok_def node_ok_def TopologyManager_init_def)

lemma ApplyUpdate_fails_iff_witness:
  "ApplyUpdate silent_handlers (topic_msg 9 9 ANNOUNCE 7 ''t'' ''json'') announcing_manager =
     Inl Bad_function_call"
  using ApplyUpdate_fails_iff [OF announcing_manager_ok, of silent_handlers
      "topic_msg 9 9 ANNOUNCE 7 ''t'' ''json''" Bad_function_call]
  by (simp add: silent_handlers_def announcing_manager_def)

section \<open>The introduction\<close>

lemma topology_step_mutable:
  "topology_step (mutable_topic_change f msg) V =
     V(tc_node_id (f (topic_change msg)) :=
         map_option (topic_cell (f (topic_change msg))) (V (tc_node_id (f (topic_change msg)))))"
  by (subst topology_step_topic) (simp_all add: mutable_topic_change_def oneof_defs)

lemma topic_change_mutable [simp]: "topic_change (mutable_topic_change f msg) = f (topic_change msg)"
  by (simp add: mutable_topic_change_def topic_change_def)

lemma introduce_publications_view:
  assumes "distinct (map fst pubs)" "list_all (\<lambda>(t, p). pub_name p = t) pubs" "V i = Some v"
  shows "fold topology_step (fst (introduce_publications i pubs msg)) V =
    V(i \<mapsto> v\<lparr>nv_pubs := nv_pubs v ++ (map_option pub_mime \<circ> map_of pubs)\<rparr>)"
  using assms
proof (induction pubs arbitrary: msg V v)
  case Nil
  then show ?case by (simp add: fun_upd_idem comp_def)
next
  case (Cons x pubs)
  obtain t p where x: "x = (t, p)" by fastforce
  let ?f = "\<lambda>c. c\<lparr>tc_name := pub_name p, tc_mime := pub_mime p, tc_node_id := i, tc_op := ANNOUNCE\<rparr>"
  let ?v = "v\<lparr>nv_pubs := (nv_pubs v)(t \<mapsto> pub_mime p)\<rparr>"
  have "topology_step (mutable_topic_change ?f msg) V = V(i \<mapsto> ?v)"
    using Cons.prems x by (simp add: topology_step_mutable)
  moreover have "fold topology_step (fst (introduce_publications i pubs (mutable_topic_change ?f msg))) (V(i \<mapsto> ?v)) =
      (V(i \<mapsto> ?v))(i \<mapsto> ?v\<lparr>nv_pubs := nv_pubs ?v ++ (map_option pub_mime \<circ> map_of pubs)\<rparr>)"
    using Cons.prems x by (intro Cons.IH) auto
  moreover have "map_of pubs t = None" using Cons.prems(1) x by (simp add: map_of_eq_None_iff)
  then have eq: "nv_pubs v ++ (map_option pub_mime \<circ> map_of (x # pubs)) =
      (nv_pubs v)(t \<mapsto> pub_mime p) ++ (map_option pub_mime \<circ> map_of pubs)"
    by (auto simp: x fun_eq_iff map_add_def split: option.splits)
  ultimately show ?case unfolding eq by (simp add: x split_beta Let_def)
qed

lemma introduce_subscriptions_view:
  assumes "V i = Some v"
  shows "fold topology_step (introduce_subscriptions i ts msg) V =
    V(i \<mapsto> v\<lparr>nv_subs := nv_subs v \<union> set ts\<rparr>)"
  using assms
proof (induction ts arbitrary: msg V v)
  case Nil
  then show ?case by (simp add: fun_upd_idem)
next
  case (Cons t ts)
  let ?f = "\<lambda>c. c\<lparr>tc_name := t, tc_node_id := i, tc_op := SUBSCRIBE\<rparr>"
  let ?v = "v\<lparr>nv_subs := insert t (nv_subs v)\<rparr>"
  have "topology_step (mutable_topic_change ?f msg) V = V(i \<mapsto> ?v)"
    using Cons.prems by (simp add: topology_step_mutable)
  moreover have "fold topology_step (introduce_subscriptions i ts (mutable_topic_change ?f msg)) (V(i \<mapsto> ?v)) =
      (V(i \<mapsto> ?v))(i \<mapsto> ?v\<lparr>nv_subs := nv_subs ?v \<union> set ts\<rparr>)"
    by (rule Cons.IH) simp
  ultimately show ?case by (simp add: Let_def)
qed

text \<open>
  What a manager says of itself when it connects (after its history, which it sends
  first) is complete: a hub that knows nothing and applies these messages knows exactly this
  node, under its current name and address, with the publications and subscriptions the
  manager's own table has for it.
\<close>

lemma introduction_describes_node:
  assumes "mgr_ok m"
  shows "fold topology_step (drop (length (tm_history m)) (introduction m)) Map.empty =
    [tm_nodeId m \<mapsto> \<lparr>nv_name = tm_name m, nv_address = tm_address m,
       nv_pubs = (case abs_topology m (tm_nodeId m) of None \<Rightarrow> Map.empty | Some v \<Rightarrow> nv_pubs v),
       nv_subs = (case abs_topology m (tm_nodeId m) of None \<Rightarrow> {} | Some v \<Rightarrow> nv_subs v)\<rparr>]"
proof -
  let ?i = "tm_nodeId m"
  let ?v = "\<lparr>nv_name = tm_name m, nv_address = tm_address m, nv_pubs = Map.empty, nv_subs = {}\<rparr>"
  have join: "topology_step (introduce_node m) Map.empty = [?i \<mapsto> ?v]"
    by (subst topology_step_node) (simp_all add: introduce_node_def mutable_node_change_def oneof_defs)
  show ?thesis
  proof (cases "tm_nodes m ?i")
    case None
    with join show ?thesis by (simp add: introduction_def Let_def abs_topology_def)
  next
    case (Some nd)
    have nd: "distinct (map fst (nd_publications nd))"
        "list_all (\<lambda>(t, p). pub_name p = t) (nd_publications nd)"
      using assms Some by (auto simp: mgr_ok_def node_ok_def)
    let ?pubs = "introduce_publications ?i (nd_publications nd) (introduce_node m)"
    let ?w = "?v\<lparr>nv_pubs := map_option pub_mime \<circ> map_of (nd_publications nd)\<rparr>"
    have "fold topology_step (fst ?pubs) [?i \<mapsto> ?v] = [?i \<mapsto> ?w]"
      using introduce_publications_view [OF nd, of "[?i \<mapsto> ?v]" ?i ?v "introduce_node m"] by simp
    moreover have "fold topology_step (introduce_subscriptions ?i (nd_subscriptions nd) (snd ?pubs)) [?i \<mapsto> ?w] =
        [?i \<mapsto> ?w\<lparr>nv_subs := set (nd_subscriptions nd)\<rparr>]"
      using introduce_subscriptions_view [of "[?i \<mapsto> ?w]" ?i ?w] by simp
    ultimately show ?thesis
      using join Some by (simp add: introduction_def Let_def split_beta abs_topology_def abs_node_def)
  qed
qed

lemma introduction_describes_node_witness:
  "fold topology_step (drop 0 (introduction announcing_manager)) Map.empty =
     [7 \<mapsto> \<lparr>nv_name = ''n'', nv_address = ''p'', nv_pubs = [''t'' \<mapsto> ''text''],
       nv_subs = {''u'', ''v''}\<rparr>]"
  using introduction_describes_node [OF announcing_manager_ok]
  by (simp add: announcing_manager_def TopologyManager_init_def abs_topology_def abs_node_def
      fun_upd_def comp_def fun_eq_iff)


lemma introduce_publications_last:
  "pubs \<noteq> [] \<Longrightarrow> tc_mime (topic_change (snd (introduce_publications i pubs msg))) = pub_mime (snd (last pubs))"
proof (induction pubs arbitrary: msg)
  case Nil
  then show ?case by simp
next
  case (Cons x pubs)
  then show ?case by (cases x; cases "pubs = []") (simp_all add: split_beta Let_def)
qed

lemma introduce_subscriptions_mime:
  "s \<in> set (introduce_subscriptions i ts msg) \<Longrightarrow>
   tc_mime (topic_change s) = tc_mime (topic_change msg) \<and> tc_op (topic_change s) = SUBSCRIBE"
  by (induction ts arbitrary: msg) (auto simp: Let_def)

lemma introduce_publications_op:
  "s \<in> set (fst (introduce_publications i pubs msg)) \<Longrightarrow> tc_op (topic_change s) = ANNOUNCE"
  by (induction i pubs msg rule: introduce_publications.induct) (auto simp: split_beta Let_def)

text \<open>
  The messages of the introduction share one buffer that is not cleared in between: every
  SUBSCRIBE it contains carries the mime type of the publication sent last, although only
  announcements are meant to have one.
\<close>

lemma introduced_subscription_mime:
  assumes "tm_nodes m (tm_nodeId m) = Some nd" "nd_publications nd \<noteq> []"
    and "msg \<in> set (drop (length (tm_history m)) (introduction m))"
      "has_topic_change msg" "tc_op (topic_change msg) = SUBSCRIBE"
  shows "tc_mime (topic_change msg) = pub_mime (snd (last (nd_publications nd)))"
proof -
  let ?pubs = "introduce_publications (tm_nodeId m) (nd_publications nd) (introduce_node m)"
  have "msg \<noteq> introduce_node m"
    using assms(4) by (auto simp: introduce_node_def mutable_node_change_def oneof_defs)
  moreover have "msg \<notin> set (fst ?pubs)"
    using introduce_publications_op [of msg] assms(5) by auto
  ultimately have "msg \<in> set (introduce_subscriptions (tm_nodeId m) (nd_subscriptions nd) (snd ?pubs))"
    using assms(1,3) by (auto simp: introduction_def Let_def split_beta)
  with introduce_publications_last [OF assms(2)] show ?thesis
    by (simp add: introduce_subscriptions_mime)
qed

lemma announcing_introduction:
  "introduction announcing_manager = [node_msg 0 0 JOIN 7 ''n'' ''p'',
     topic_msg 0 0 ANNOUNCE 7 ''t'' ''text'', topic_msg 0 0 SUBSCRIBE 7 ''u'' ''text'',
     topic_msg 0 0 SUBSCRIBE 7 ''v'' ''text'']"
  by (simp add: announcing_manager_def TopologyManager_init_def introduction_def introduce_node_def
      mutable_topic_change_def mutable_node_change_def Let_def node_msg_def topic_msg_def oneof_defs
      default_TopologyMessage_def default_NodeChange_def default_TopicChange_def)

lemma introduced_subscription_mime_witness:
  "tc_mime (topic_change (last (introduction announcing_manager))) = ''text''"
proof -
  have node: "tm_nodes announcing_manager (tm_nodeId announcing_manager) = Some \<lparr>nd_id = 7,
      nd_name = ''n'', nd_address = ''p'',
      nd_publications = [(''t'', \<lparr>pub_name = ''t'', pub_mime = ''text''\<rparr>)],
      nd_subscriptions = [''u'', ''v'']\<rparr>" "tm_history announcing_manager = []"
    by (simp_all add: announcing_manager_def TopologyManager_init_def)
  from introduced_subscription_mime [OF node(1), of "last (introduction announcing_manager)"]
  show ?thesis by (simp add: node(2) announcing_introduction)
qed

section \<open>Requests\<close>

definition queued :: "TopologyMessage \<Rightarrow> int \<Rightarrow> TopologyManager \<Rightarrow> TopologyManager \<Rightarrow> bool" where
  "queued msg ret m m' \<longleftrightarrow>
     (case tm_client m of
        None \<Rightarrow> m' = m\<lparr>tm_backlog := tm_backlog m @ [msg]\<rparr>
      | Some c \<Rightarrow>
          if ret < 0
          then m' = m\<lparr>tm_sent := tm_sent m @ [(c, msg, ret)], tm_client := None,
                     tm_backlog := tm_backlog m @ [msg]\<rparr>
          else m' = m\<lparr>tm_sent := tm_sent m @ [(c, msg, ret)]\<rparr>)"

lemma Send_queued: "\<not> tm_locked m \<Longrightarrow> \<exists>m'. Send ret msg m = Inr m' \<and> queued msg ret m m'"
  by (cases "tm_client m") (auto simp: Send_def with_lock_def Send_body_def queued_def Let_def)

lemma queued_unlocked: "queued msg ret m m' \<Longrightarrow> \<not> tm_locked m \<Longrightarrow> \<not> tm_locked m'"
  by (auto simp: queued_def split: option.splits if_splits)

lemma topic_message_eq: "topic_message i p t = topic_msg 0 0 p i t []"
  by (simp add: topic_message_def topic_msg_def mutable_topic_change_def default_TopologyMessage_def
      default_TopicChange_def topic_change_def)

text \<open>
  \<open>Announce\<close>, \<open>Retract\<close> and \<open>Subscribe\<close> always return, with their message handed to the
  connection or kept in the backlog (a failed send also gives the connection up);
  \<open>Unsubscribe\<close> never returns: it locks the mutex that \<open>Send\<close> locks again.
\<close>

lemma requests_return_except_Unsubscribe:
  assumes "\<not> tm_locked m"
  shows "(\<exists>m'. Announce ret topic mime m = Inr m' \<and>
      queued (topic_msg 0 0 ANNOUNCE (tm_nodeId m) topic mime) ret m m') \<and>
    (\<exists>m'. Retract ret topic m = Inr m' \<and> queued (topic_msg 0 0 RETRACT (tm_nodeId m) topic []) ret m m') \<and>
    (\<exists>m'. Subscribe ret topic m = Inr m' \<and>
      queued (topic_msg 0 0 SUBSCRIBE (tm_nodeId m) topic []) ret m m') \<and>
    Unsubscribe ret topic m = Inl Self_deadlock"
proof -
  have "mutable_topic_change (\<lambda>c. c\<lparr>tc_mime := mime\<rparr>) (topic_msg 0 0 ANNOUNCE (tm_nodeId m) topic []) =
      topic_msg 0 0 ANNOUNCE (tm_nodeId m) topic mime"
    by (simp add: mutable_topic_change_def topic_msg_def topic_change_def)
  moreover have "Unsubscribe ret topic m = Inl Self_deadlock"
    using assms by (simp add: Unsubscribe_def Send_def with_lock_def)
  ultimately show ?thesis
    using Send_queued [OF assms]
    by (simp add: Announce_def Retract_def Subscribe_def topic_message_eq)
qed

lemma requests_return_except_Unsubscribe_witness:
  "Unsubscribe 0 ''t'' announcing_manager = Inl Self_deadlock"
  using requests_return_except_Unsubscribe [of announcing_manager 0 "''t''" "[]"]
  by (simp add: announcing_manager_def TopologyManager_init_def)

lemma flush_backlog_stored:
  assumes "\<not> tm_locked m" "tm_client m = None"
  shows "\<exists>m'. flush_backlog xs m = Inr m' \<and> tm_client m' = None \<and>
    tm_backlog m' = tm_backlog m @ map fst xs \<and> tm_sent m' = tm_sent m"
  using assms
proof (induction xs arbitrary: m)
  case Nil
  then show ?case by simp
next
  case (Cons x xs)
  obtain msg ret where x: "x = (msg, ret)" by fastforce
  obtain m1 where one: "Send ret msg m = Inr m1" "queued msg ret m m1"
    using Send_queued [OF Cons.prems(1)] by blast
  then have "\<not> tm_locked m1" "tm_client m1 = None" "tm_backlog m1 = tm_backlog m @ [msg]" "tm_sent m1 = tm_sent m"
    using Cons.prems queued_unlocked [OF one(2)] by (auto simp: queued_def)
  with Cons.IH [of m1] one(1) x show ?case by auto
qed

text \<open>
  C27: When a new connection is adopted and no other thread sends or destroys the manager meanwhile,
  the flush of the backlog loses nothing: what is handed to the connection, each message once and in order,
  are the messages up to and including the first whose send fails, and nothing else; the failed one
  and all later ones are back in the backlog, in order. But then \<open>mClient\<close> is null, and the \<open>Wait\<close>
  that follows the flush goes through it: the main thread dereferences null exactly when some send of
  the flush failed.
\<close>

theorem flush_backlog_effect:
  assumes "\<not> tm_locked m" "tm_client m = Some c" "tm_backlog m = []"
  shows "\<exists>m'. flush_backlog xs m = Inr m' \<and>
    tm_sent m' = tm_sent m @ map (\<lambda>(msg, ret). (c, msg, ret))
      (takeWhile (\<lambda>(msg, ret). 0 \<le> ret) xs @ take 1 (dropWhile (\<lambda>(msg, ret). 0 \<le> ret) xs)) \<and>
    tm_backlog m' = map fst (dropWhile (\<lambda>(msg, ret). 0 \<le> ret) xs) \<and>
    tm_client m' = (if \<exists>(msg, ret)\<in>set xs. ret < 0 then None else Some c) \<and>
    (wait_on_client m' = Inl Null_dereference \<longleftrightarrow> (\<exists>(msg, ret)\<in>set xs. ret < 0))"
  using assms
proof (induction xs arbitrary: m)
  case Nil
  then show ?case by (simp add: wait_on_client_def)
next
  case (Cons x xs)
  obtain msg ret where x: "x = (msg, ret)" by fastforce
  obtain m1 where one: "Send ret msg m = Inr m1" "queued msg ret m m1"
    using Send_queued [OF Cons.prems(1)] by blast
  note unl = queued_unlocked [OF one(2) Cons.prems(1)]
  have sent: "tm_sent m1 = tm_sent m @ [(c, msg, ret)]"
    using one(2) Cons.prems by (auto simp: queued_def split: if_splits)
  show ?case
  proof (cases "ret < 0")
    case True
    then have "tm_client m1 = None" "tm_backlog m1 = [msg]"
      using one(2) Cons.prems by (auto simp: queued_def)
    with flush_backlog_stored [OF unl, of xs] one(1) x True sent show ?thesis
      by (auto simp: wait_on_client_def)
  next
    case False
    then have "tm_client m1 = Some c" "tm_backlog m1 = []"
      using one(2) Cons.prems by (auto simp: queued_def)
    from Cons.IH [OF unl this] one(1) x False sent show ?thesis by auto
  qed
qed

lemma flush_backlog_effect_witness:
  "\<exists>m'. flush_backlog [(topic_msg 0 0 SUBSCRIBE 7 ''t'' [], 4), (topic_msg 0 0 RETRACT 7 ''t'' [], -1),
        (topic_msg 0 0 SUBSCRIBE 7 ''u'' [], 4)] (announcing_manager\<lparr>tm_client := Some 1\<rparr>) = Inr m' \<and>
    map fst (map snd (tm_sent m')) = [topic_msg 0 0 SUBSCRIBE 7 ''t'' [], topic_msg 0 0 RETRACT 7 ''t'' []] \<and>
    tm_backlog m' = [topic_msg 0 0 RETRACT 7 ''t'' [], topic_msg 0 0 SUBSCRIBE 7 ''u'' []] \<and>
    wait_on_client m' = Inl Null_dereference"
  using flush_backlog_effect [of "announcing_manager\<lparr>tm_client := Some 1\<rparr>" 1
      "[(topic_msg 0 0 SUBSCRIBE 7 ''t'' [], 4), (topic_msg 0 0 RETRACT 7 ''t'' [], -1),
        (topic_msg 0 0 SUBSCRIBE 7 ''u'' [], 4)]"]
  by (auto simp: announcing_manager_def TopologyManager_init_def)

end
