(* ===== verification/ManagerLoop.thy ===== *)
theory ManagerLoop
  imports ManagerProperties
begin

text \<open>
  The threads around one \<open>TopologyManager\<close>: its main thread (\<open>MainLoop\<close>), the user's
  requests, the thread of the connection that applies updates, and the destructor, as a step
  relation. Each step is one section of the code that runs under \<open>mMtx\<close>, or one unlocked
  access to \<open>mClient\<close>; the program counter of the main thread names the statement it is at.
\<close>

section \<open>State\<close>

text \<open>A client handle names one \<open>UDSClient\<close> object, in the order they were created.\<close>

datatype main_pc =
    At_top                                            \<comment> \<open>\<open>while (!mShutdown)\<close>\<close>
  | Introduce client_handle                           \<comment> \<open>\<open>IntroduceOurselves(client)\<close>\<close>
  | Adopt client_handle                               \<comment> \<open>the locked block\<close>
  | Flush client_handle "TopologyMessage list"        \<comment> \<open>\<open>for (msg : backlog) Send(msg)\<close>\<close>
  | Calling_wait client_handle                        \<comment> \<open>reading \<open>mClient\<close> for \<open>mClient->Wait()\<close>\<close>
  | Waiting client_handle                             \<comment> \<open>inside \<open>Wait\<close>\<close>
  | Reset                                             \<comment> \<open>\<open>mClient = nullptr\<close>\<close>
  | Check                                             \<comment> \<open>\<open>if (mShutdown) break\<close>\<close>
  | Serve                                             \<comment> \<open>\<open>make_shared<TopologyServer>\<close>\<close>
  | Finished
  | Crashed
  | Torn "TopologyMessage list"                       \<comment> \<open>dead inside \<open>Send\<close>, with these in hand\<close>

record manager_threads =
  mt_pc :: main_pc
  mt_manager :: TopologyManager
  mt_clients :: nat                             \<comment> \<open>\<open>UDSClient\<close> objects created so far\<close>
  mt_gone :: "client_handle set"                \<comment> \<open>whose loop has ended\<close>
  mt_requested :: "TopologyMessage list"        \<comment> \<open>what the user asked to send\<close>
  mt_digests :: "TopologyMessage list list"     \<comment> \<open>of the servers constructed\<close>
  mt_destroying :: bool                         \<comment> \<open>the destructor has set \<open>mShutdown\<close>\<close>
  mt_joining :: bool                            \<comment> \<open>and reset \<open>mClient\<close>: it is in \<open>join\<close>\<close>

definition threads_init :: "string \<Rightarrow> string \<Rightarrow> u64 \<Rightarrow> string \<Rightarrow> manager_threads" where
  "threads_init groupName nodeName nodeId dataPath =
     \<lparr>mt_pc = At_top, mt_manager = TopologyManager_init groupName nodeName nodeId dataPath,
      mt_clients = 0, mt_gone = {}, mt_requested = [], mt_digests = [], mt_destroying = False,
      mt_joining = False\<rparr>"

fun pc_client :: "main_pc \<Rightarrow> client_handle option" where
  "pc_client (Introduce c) = Some c"
| "pc_client (Adopt c) = Some c"
| "pc_client (Flush c ms) = Some c"
| "pc_client (Calling_wait c) = Some c"
| "pc_client (Waiting c) = Some c"
| "pc_client _ = None"

section \<open>Steps\<close>

text \<open>The two statements of the destructor before its \<open>join\<close>.\<close>

definition set_shutdown :: "manager_threads \<Rightarrow> manager_threads" where
  "set_shutdown s = s\<lparr>mt_destroying := True, mt_manager := (mt_manager s)\<lparr>tm_shutdown := True\<rparr>\<rparr>"

definition release_client :: "manager_threads \<Rightarrow> manager_threads" where
  "release_client s = s\<lparr>mt_joining := True, mt_manager := (mt_manager s)\<lparr>tm_client := None\<rparr>\<rparr>"

lemma destructor_simps [simp]:
  "mt_pc (set_shutdown s) = mt_pc s" "mt_pc (release_client s) = mt_pc s"
  "mt_gone (set_shutdown s) = mt_gone s" "mt_gone (release_client s) = mt_gone s"
  "mt_requested (set_shutdown s) = mt_requested s" "mt_requested (release_client s) = mt_requested s"
  "mt_manager (set_shutdown s) = (mt_manager s)\<lparr>tm_shutdown := True\<rparr>"
  "mt_manager (release_client s) = (mt_manager s)\<lparr>tm_client := None\<rparr>"
  by (simp_all add: set_shutdown_def release_client_def)

inductive threads_step :: "Handlers \<Rightarrow> manager_threads \<Rightarrow> manager_threads \<Rightarrow> bool" for H where
  connected: "mt_pc s = At_top \<Longrightarrow> \<not> tm_shutdown (mt_manager s) \<Longrightarrow>
    threads_step H s (s\<lparr>mt_pc := Introduce (mt_clients s), mt_clients := Suc (mt_clients s)\<rparr>)"
| not_connected: "mt_pc s = At_top \<Longrightarrow> \<not> tm_shutdown (mt_manager s) \<Longrightarrow>
    threads_step H s (s\<lparr>mt_pc := Check\<rparr>)"
| loop_ends: "mt_pc s = At_top \<Longrightarrow> tm_shutdown (mt_manager s) \<Longrightarrow>
    threads_step H s (s\<lparr>mt_pc := Finished\<rparr>)"
| introduce: "mt_pc s = Introduce c \<Longrightarrow> IntroduceOurselves c (mt_manager s) = Inr m \<Longrightarrow>
    threads_step H s (s\<lparr>mt_pc := Adopt c, mt_manager := m\<rparr>)"
| adopt: "mt_pc s = Adopt c \<Longrightarrow> adopt_client c (mt_manager s) = Inr (backlog, m) \<Longrightarrow>
    threads_step H s (s\<lparr>mt_pc := Flush c backlog, mt_manager := m\<rparr>)"
| flush: "mt_pc s = Flush c (msg # backlog) \<Longrightarrow> Send ret msg (mt_manager s) = Inr m \<Longrightarrow>
    threads_step H s (s\<lparr>mt_pc := Flush c backlog, mt_manager := m\<rparr>)"
| flushed: "mt_pc s = Flush c [] \<Longrightarrow> threads_step H s (s\<lparr>mt_pc := Calling_wait c\<rparr>)"
| wait: "mt_pc s = Calling_wait c \<Longrightarrow> wait_on_client (mt_manager s) = Inr m \<Longrightarrow>
    threads_step H s (s\<lparr>mt_pc := Waiting c\<rparr>)"
| crash: "mt_pc s = Calling_wait c \<Longrightarrow> wait_on_client (mt_manager s) = Inl e \<Longrightarrow>
    threads_step H s (s\<lparr>mt_pc := Crashed\<rparr>)"
| woken: "mt_pc s = Waiting c \<Longrightarrow> c \<in> mt_gone s \<Longrightarrow> threads_step H s (s\<lparr>mt_pc := Reset\<rparr>)"
| reset: "mt_pc s = Reset \<Longrightarrow>
    threads_step H s (s\<lparr>mt_pc := Check, mt_manager := (mt_manager s)\<lparr>tm_client := None\<rparr>\<rparr>)"
| check_break: "mt_pc s = Check \<Longrightarrow> tm_shutdown (mt_manager s) \<Longrightarrow>
    threads_step H s (s\<lparr>mt_pc := Finished\<rparr>)"
| check_go: "mt_pc s = Check \<Longrightarrow> \<not> tm_shutdown (mt_manager s) \<Longrightarrow>
    threads_step H s (s\<lparr>mt_pc := Serve\<rparr>)"
| serve: "mt_pc s = Serve \<Longrightarrow>
    threads_step H s (s\<lparr>mt_pc := At_top, mt_digests := mt_digests s @ [tm_history (mt_manager s)]\<rparr>)"
| request: "\<not> mt_destroying s \<Longrightarrow> Send ret msg (mt_manager s) = Inr m \<Longrightarrow>
    threads_step H s (s\<lparr>mt_manager := m, mt_requested := mt_requested s @ [msg]\<rparr>)"
| update: "pc_client (mt_pc s) = Some c \<Longrightarrow> c \<notin> mt_gone s \<Longrightarrow>
    ApplyUpdate H msg (mt_manager s) = Inr m \<Longrightarrow> threads_step H s (s\<lparr>mt_manager := m\<rparr>)"
| hang_up: "c < mt_clients s \<Longrightarrow> threads_step H s (s\<lparr>mt_gone := insert c (mt_gone s)\<rparr>)"
| destroy: "\<not> mt_destroying s \<Longrightarrow> threads_step H s (set_shutdown s)"
| release: "mt_destroying s \<Longrightarrow> \<not> mt_joining s \<Longrightarrow> threads_step H s (release_client s)"
| torn_request: "mt_pc s = Reset \<Longrightarrow> \<not> mt_destroying s \<Longrightarrow> tm_client (mt_manager s) = Some c \<Longrightarrow>
    threads_step H s (s\<lparr>mt_pc := Torn [msg], mt_manager := (mt_manager s)\<lparr>tm_client := None\<rparr>,
      mt_requested := mt_requested s @ [msg]\<rparr>)"
| torn_flush: "mt_pc s = Flush c (msg # backlog) \<Longrightarrow> mt_destroying s \<Longrightarrow> \<not> mt_joining s \<Longrightarrow>
    tm_client (mt_manager s) = Some d \<Longrightarrow>
    threads_step H s ((release_client s)\<lparr>mt_pc := Torn (msg # backlog)\<rparr>)"

text \<open>
  The last two rules: \<open>Send\<close> tests \<open>mClient\<close> and then calls through it. It holds \<open>mMtx\<close>, but the main
  thread's and the destructor's assignments to \<open>mClient\<close> do not take it. One that falls between test
  and call makes \<open>Send\<close> dereference null, and the process dies with the message in hand.
\<close>

inductive_cases threads_stepE: "threads_step H s s'"

abbreviation threads_steps :: "Handlers \<Rightarrow> manager_threads \<Rightarrow> manager_threads \<Rightarrow> bool" where
  "threads_steps H \<equiv> rtranclp (threads_step H)"

section \<open>No request is lost or duplicated\<close>

definition pending :: "main_pc \<Rightarrow> TopologyMessage list" where
  "pending pc = (case pc of Flush c ms \<Rightarrow> ms | Torn ms \<Rightarrow> ms | _ \<Rightarrow> [])"

definition handed_over :: "TopologyManager \<Rightarrow> TopologyMessage list" where
  "handed_over m = map (fst \<circ> snd) (filter (\<lambda>(c, msg, ret). 0 \<le> ret) (tm_sent m))"

definition conserved :: "manager_threads \<Rightarrow> bool" where
  "conserved s \<longleftrightarrow> \<not> tm_locked (mt_manager s) \<and>
     mset (mt_requested s) =
       mset (handed_over (mt_manager s)) + mset (tm_backlog (mt_manager s)) + mset (pending (mt_pc s))"

lemma pending_simps [simp]:
  "pending At_top = []" "pending (Introduce c) = []" "pending (Adopt c) = []"
  "pending (Flush c ms) = ms" "pending (Calling_wait c) = []" "pending (Waiting c) = []"
  "pending Reset = []" "pending Check = []" "pending Serve = []" "pending Finished = []"
  "pending Crashed = []" "pending (Torn ms) = ms"
  by (simp_all add: pending_def)

lemma queued_conserves:
  "queued msg ret m m' \<Longrightarrow>
   mset (handed_over m') + mset (tm_backlog m') =
   add_mset msg (mset (handed_over m) + mset (tm_backlog m))"
  by (auto simp: queued_def handed_over_def split: option.splits if_splits)

lemma Send_conserves:
  assumes "\<not> tm_locked m" "Send ret msg m = Inr m'"
  shows "\<not> tm_locked m'" and "mset (handed_over m') + mset (tm_backlog m') =
    add_mset msg (mset (handed_over m) + mset (tm_backlog m))"
proof -
  have q: "queued msg ret m m'" using Send_queued [OF assms(1), of ret msg] assms(2) by simp
  show "\<not> tm_locked m'" using queued_unlocked [OF q assms(1)] .
  show "mset (handed_over m') + mset (tm_backlog m') =
      add_mset msg (mset (handed_over m) + mset (tm_backlog m))"
    using queued_conserves [OF q] .
qed

text \<open>What \<open>ApplyUpdate\<close> leaves alone.\<close>

definition same_frame :: "TopologyManager \<Rightarrow> TopologyManager \<Rightarrow> bool" where
  "same_frame m m' \<longleftrightarrow> tm_sent m' = tm_sent m \<and> tm_backlog m' = tm_backlog m \<and> tm_client m' = tm_client m \<and>
     tm_intro m' = tm_intro m \<and> tm_nodeId m' = tm_nodeId m \<and> tm_name m' = tm_name m \<and> tm_address m' = tm_address m"

lemma apply_node_change_frame:
  "apply_node_change H c m = Inr m' \<Longrightarrow> same_frame m m'"
  unfolding same_frame_def
  by (auto simp: apply_node_change_def notify_def set_node_def res_cases split: option.splits if_splits)

lemma apply_topic_change_frame:
  "apply_topic_change H c m = Inr m' \<Longrightarrow> same_frame m m'"
  unfolding same_frame_def
  by (auto simp: apply_topic_change_def apply_announce_def notify_def set_node_def Let_def
      split: option.splits if_splits)

lemma ApplyUpdate_frame:
  assumes "ApplyUpdate H msg m = Inr m'"
  shows "\<not> tm_locked m' \<and> same_frame m m'"
proof -
  obtain m1 where "ApplyUpdate_body H msg (m\<lparr>tm_locked := True\<rparr>) = Inr m1" "m' = m1\<lparr>tm_locked := False\<rparr>"
    using assms by (auto simp: ApplyUpdate_def with_lock_def bind_res_eq_Inr split: if_splits)
  then show ?thesis
    by (auto simp: ApplyUpdate_body_def Let_def same_frame_def [of m] split: if_splits
        dest!: apply_node_change_frame apply_topic_change_frame)
      (auto simp: same_frame_def)
qed

lemma threads_step_conserved:
  assumes "threads_step H s s'" "conserved s"
  shows "conserved s'"
  using assms(1)
proof cases
  case (introduce c m)
  with assms(2) show ?thesis
    by (auto simp: conserved_def IntroduceOurselves_def with_lock_def handed_over_def)
next
  case (adopt c backlog m)
  with assms(2) show ?thesis
    by (auto simp: conserved_def adopt_client_def with_lock_def handed_over_def)
next
  case (flush c msg backlog ret m)
  have lock: "\<not> tm_locked (mt_manager s)" using assms(2) by (simp add: conserved_def)
  with Send_conserves [OF lock flush(3)] flush assms(2) show ?thesis
    by (simp add: conserved_def)
next
  case (request ret msg m)
  have lock: "\<not> tm_locked (mt_manager s)" using assms(2) by (simp add: conserved_def)
  with Send_conserves [OF lock request(3)] request assms(2) show ?thesis
    by (simp add: conserved_def)
next
  case (update c msg m)
  with ApplyUpdate_frame [OF update(4)] assms(2) show ?thesis
    by (simp add: conserved_def handed_over_def same_frame_def)
qed (use assms(2) in \<open>auto simp: conserved_def handed_over_def\<close>)

lemma threads_init_conserved [simp]: "conserved (threads_init g n i p)"
  by (simp add: conserved_def threads_init_def TopologyManager_init_def handed_over_def)

text \<open>
  C13: In every reachable state of the manager's threads, each message the user asked to send is
  in exactly one place: handed to a connection that accepted it, in the backlog, or in the rest
  of the backlog that the main thread is flushing (or was in the hands of \<open>Send\<close> when the process died
  there). No interleaving of requests, failed sends, reconnections, updates and destruction loses or
  duplicates one.
\<close>

theorem requests_conserved:
  assumes "threads_steps H (threads_init groupName nodeName nodeId dataPath) s"
  shows "mset (mt_requested s) =
    mset (map (fst \<circ> snd) (filter (\<lambda>(c, msg, ret). 0 \<le> ret) (tm_sent (mt_manager s)))) +
    mset (tm_backlog (mt_manager s)) + mset (pending (mt_pc s))"
proof -
  have "conserved s" using assms by (induction rule: rtranclp_induct) (auto dest: threads_step_conserved)
  then show ?thesis by (simp add: conserved_def handed_over_def)
qed

section \<open>The destructor\<close>

lemma gone_step: "threads_step H s s' \<Longrightarrow> mt_gone s \<subseteq> mt_gone s'"
  by (erule threads_stepE) auto

text \<open>
  Once the main thread waits on a connection, nothing but the end of that connection's loop
  gets it out of there: neither the destructor's shutdown flag nor its resetting of \<open>mClient\<close>
  does, because the main thread holds its own reference. So the \<open>join\<close> in the destructor
  returns only after the server has closed the connection.
\<close>

lemma destructor_waits_for_server:
  assumes "threads_steps H s s'" "mt_pc s = Waiting c" "c \<notin> mt_gone s'"
  shows "mt_pc s' = Waiting c"
  using assms(1,3)
proof (induction rule: rtranclp_induct)
  case base
  show ?case by (rule assms(2))
next
  case (step t u)
  have "c \<notin> mt_gone t" using gone_step [OF step(2)] step.prems by blast
  with step.IH have "mt_pc t = Waiting c" by blast
  with step(2) \<open>c \<notin> mt_gone t\<close> show ?case by (cases rule: threads_step.cases) auto
qed

section \<open>A concrete run\<close>

text \<open>A manager that connects and whose main thread gets to the call of \<open>Wait\<close>.\<close>

definition connected_manager :: TopologyManager where
  "connected_manager = (TopologyManager_init ''g'' ''n'' 7 ''p'')\<lparr>tm_client := Some 0,
     tm_intro := [(0, node_msg 0 0 JOIN 7 ''n'' ''p'')]\<rparr>"

definition calling_wait :: manager_threads where
  "calling_wait = (threads_init ''g'' ''n'' 7 ''p'')\<lparr>mt_pc := Calling_wait 0,
     mt_manager := connected_manager, mt_clients := 1\<rparr>"

lemma introduction_init:
  "introduction (TopologyManager_init g n i p) = [node_msg 0 0 JOIN i n p]"
  by (simp add: introduction_def TopologyManager_init_def introduce_node_def Let_def node_msg_def
      mutable_node_change_def default_TopologyMessage_def default_NodeChange_def node_change_def)

lemma reach_calling_wait: "threads_steps H (threads_init ''g'' ''n'' 7 ''p'') calling_wait"
proof -
  let ?s0 = "threads_init ''g'' ''n'' 7 ''p''"
  let ?m0 = "TopologyManager_init ''g'' ''n'' 7 ''p''"
  let ?m1 = "?m0\<lparr>tm_intro := [(0, node_msg 0 0 JOIN 7 ''n'' ''p'')]\<rparr>"
  let ?s1 = "?s0\<lparr>mt_pc := Introduce 0, mt_clients := 1\<rparr>"
  let ?s2 = "?s1\<lparr>mt_pc := Adopt 0, mt_manager := ?m1\<rparr>"
  let ?s3 = "?s2\<lparr>mt_pc := Flush 0 [], mt_manager := connected_manager\<rparr>"
  have "threads_step H ?s0 ?s1"
    using threads_step.connected [of ?s0 H] by (simp add: threads_init_def TopologyManager_init_def)
  moreover have "IntroduceOurselves 0 ?m0 = Inr ?m1"
    using introduction_init [of "''g''" "''n''" 7 "''p''"]
    by (simp add: IntroduceOurselves_def with_lock_def introduction_def)
      (simp add: TopologyManager_init_def introduce_node_def)
  then have "threads_step H ?s1 ?s2"
    using threads_step.introduce [of ?s1 0 ?m1 H] by (simp add: threads_init_def)
  moreover have "adopt_client 0 ?m1 = Inr ([], connected_manager)"
    by (simp add: adopt_client_def with_lock_def connected_manager_def TopologyManager_init_def)
  then have "threads_step H ?s2 ?s3"
    using threads_step.adopt [of ?s2 0 "[]" connected_manager H] by (simp add: threads_init_def)
  moreover have "threads_step H ?s3 calling_wait"
    using threads_step.flushed [of ?s3 0 H] by (simp add: calling_wait_def threads_init_def)
  ultimately show ?thesis by (meson rtranclp.intros converse_rtranclp_into_rtranclp)
qed

text \<open>
  C31: Destroying a manager can crash it without any failure of the system: if the destructor
  resets \<open>mClient\<close> after the main thread has stored it and before it calls \<open>Wait\<close> through it,
  the main thread dereferences null.
\<close>

theorem destruction_can_crash:
  "\<exists>s. threads_steps H (threads_init ''g'' ''n'' 7 ''p'') s \<and> mt_pc s = Crashed \<and>
    tm_sent (mt_manager s) = [] \<and> mt_gone s = {}"
proof -
  let ?s = "set_shutdown calling_wait" and ?t = "release_client (set_shutdown calling_wait)"
  have "threads_step H calling_wait ?s"
    by (rule threads_step.destroy) (simp add: calling_wait_def threads_init_def)
  moreover have "threads_step H ?s ?t"
    by (rule threads_step.release) (simp_all add: set_shutdown_def calling_wait_def threads_init_def)
  moreover have "threads_step H ?t (?t\<lparr>mt_pc := Crashed\<rparr>)"
    by (rule threads_step.crash [where e = Null_dereference])
      (simp_all add: calling_wait_def wait_on_client_def)
  ultimately have "threads_steps H (threads_init ''g'' ''n'' 7 ''p'') (?t\<lparr>mt_pc := Crashed\<rparr>)"
    using reach_calling_wait [of H] by (meson rtranclp.rtrancl_into_rtrancl)
  moreover have "tm_sent (mt_manager (?t\<lparr>mt_pc := Crashed\<rparr>)) = []" "mt_gone (?t\<lparr>mt_pc := Crashed\<rparr>) = {}"
    by (simp_all add: calling_wait_def connected_manager_def TopologyManager_init_def threads_init_def)
  ultimately show ?thesis by (intro exI [of _ "?t\<lparr>mt_pc := Crashed\<rparr>"]) simp
qed

text \<open>
  C14: Requests can overtake one another. What a user asks for before the connection is up waits in the
  backlog; while the main thread sends the backlog, \<open>mClient\<close> is already set, so what the user asks
  for now goes out at once. A topic announced before and retracted after that moment is retracted
  first and announced last, and everyone who applies the two messages as sent has it announced for good,
  although no send failed.
\<close>

theorem flush_reorders_requests:
  "\<exists>s. threads_steps H (threads_init groupName nodeName nodeId dataPath) s \<and> mt_pc s = Calling_wait 0 \<and>
    mt_requested s = [topic_msg 0 0 ANNOUNCE nodeId topic mime, topic_msg 0 0 RETRACT nodeId topic []] \<and>
    tm_sent (mt_manager s) =
      [(0, topic_msg 0 0 RETRACT nodeId topic [], 0), (0, topic_msg 0 0 ANNOUNCE nodeId topic mime, 0)] \<and>
    (\<forall>V v. (\<exists>w. fold topology_step (mt_requested s) (V(nodeId \<mapsto> v)) nodeId = Some w \<and> nv_pubs w topic = None) \<and>
      (\<exists>w. fold topology_step (map (fst \<circ> snd) (tm_sent (mt_manager s))) (V(nodeId \<mapsto> v)) nodeId = Some w \<and>
        nv_pubs w topic = Some mime))"
proof -
  let ?A = "topic_msg 0 0 ANNOUNCE nodeId topic mime" and ?R = "topic_msg 0 0 RETRACT nodeId topic []"
  let ?s0 = "threads_init groupName nodeName nodeId dataPath"
  let ?m0 = "TopologyManager_init groupName nodeName nodeId dataPath"
  let ?m1 = "?m0\<lparr>tm_backlog := [?A]\<rparr>"
  let ?m2 = "?m1\<lparr>tm_intro := [(0, node_msg 0 0 JOIN nodeId nodeName dataPath)]\<rparr>"
  let ?m3 = "?m2\<lparr>tm_client := Some 0, tm_backlog := []\<rparr>"
  let ?m4 = "?m3\<lparr>tm_sent := [(0, ?R, 0)]\<rparr>"
  let ?m5 = "?m3\<lparr>tm_sent := [(0, ?R, 0), (0, ?A, 0)]\<rparr>"
  let ?s1 = "?s0\<lparr>mt_manager := ?m1, mt_requested := [?A]\<rparr>"
  let ?s2 = "?s1\<lparr>mt_pc := Introduce 0, mt_clients := 1\<rparr>"
  let ?s3 = "?s2\<lparr>mt_pc := Adopt 0, mt_manager := ?m2\<rparr>"
  let ?s4 = "?s3\<lparr>mt_pc := Flush 0 [?A], mt_manager := ?m3\<rparr>"
  let ?s5 = "?s4\<lparr>mt_manager := ?m4, mt_requested := [?A, ?R]\<rparr>"
  let ?s6 = "?s5\<lparr>mt_pc := Flush 0 [], mt_manager := ?m5\<rparr>"
  let ?s7 = "?s6\<lparr>mt_pc := Calling_wait 0\<rparr>"
  have "Send 0 ?A ?m0 = Inr ?m1"
    by (simp add: Send_def with_lock_def Send_body_def TopologyManager_init_def)
  then have "threads_step H ?s0 ?s1"
    using threads_step.request [of ?s0 0 ?A ?m1 H] by (simp add: threads_init_def)
  moreover have "threads_step H ?s1 ?s2"
    using threads_step.connected [of ?s1 H] by (simp add: threads_init_def TopologyManager_init_def)
  moreover have "IntroduceOurselves 0 ?m1 = Inr ?m2"
    using introduction_init [of groupName nodeName nodeId dataPath]
    by (simp add: IntroduceOurselves_def with_lock_def introduction_def)
      (simp add: TopologyManager_init_def introduce_node_def)
  then have "threads_step H ?s2 ?s3"
    using threads_step.introduce [of ?s2 0 ?m2 H] by (simp add: threads_init_def)
  moreover have "adopt_client 0 ?m2 = Inr ([?A], ?m3)"
    by (simp add: adopt_client_def with_lock_def TopologyManager_init_def)
  then have "threads_step H ?s3 ?s4"
    using threads_step.adopt [of ?s3 0 "[?A]" ?m3 H] by (simp add: threads_init_def)
  moreover have "Send 0 ?R ?m3 = Inr ?m4" "Send 0 ?A ?m4 = Inr ?m5"
    by (simp_all add: Send_def with_lock_def Send_body_def TopologyManager_init_def)
  then have "threads_step H ?s4 ?s5" "threads_step H ?s5 ?s6"
    using threads_step.request [of ?s4 0 ?R ?m4 H] threads_step.flush [of ?s5 0 ?A "[]" 0 ?m5 H]
    by (simp_all add: threads_init_def)
  moreover have "threads_step H ?s6 ?s7" using threads_step.flushed [of ?s6 0 H] by simp
  ultimately have "threads_steps H ?s0 ?s7" by (meson rtranclp.intros converse_rtranclp_into_rtranclp)
  then show ?thesis
    by (intro exI [of _ ?s7]) (simp add: topology_step_topic)
qed

definition requested_once :: manager_threads where
  "requested_once = (threads_init ''g'' ''n'' 7 ''p'')\<lparr>
     mt_manager := (TopologyManager_init ''g'' ''n'' 7 ''p'')\<lparr>tm_backlog := [topic_msg 0 0 SUBSCRIBE 7 ''t'' []]\<rparr>,
     mt_requested := [topic_msg 0 0 SUBSCRIBE 7 ''t'' []]\<rparr>"

lemma requests_conserved_witness:
  "mset (mt_requested requested_once) =
    mset (map (fst \<circ> snd) (filter (\<lambda>(c, msg, ret). 0 \<le> ret) (tm_sent (mt_manager requested_once)))) +
    mset (tm_backlog (mt_manager requested_once)) + mset (pending (mt_pc requested_once))"
proof (rule requests_conserved)
  let ?s = "threads_init ''g'' ''n'' 7 ''p''" and ?msg = "topic_msg 0 0 SUBSCRIBE 7 ''t'' []"
  have "Send 0 ?msg (mt_manager ?s) = Inr (mt_manager requested_once)"
    by (simp add: Send_def with_lock_def Send_body_def requested_once_def threads_init_def
        TopologyManager_init_def)
  then have "threads_step all_handlers ?s requested_once"
    using threads_step.request [of ?s 0 ?msg "mt_manager requested_once" all_handlers]
    by (simp add: requested_once_def threads_init_def)
  then show "threads_steps all_handlers (threads_init ''g'' ''n'' 7 ''p'') requested_once" by blast
qed

lemma destructor_waits_for_server_witness:
  "mt_pc (release_client (set_shutdown (calling_wait\<lparr>mt_pc := Waiting 0\<rparr>))) = Waiting 0"
proof (rule destructor_waits_for_server)
  let ?s = "calling_wait\<lparr>mt_pc := Waiting 0\<rparr>"
  have "threads_step all_handlers ?s (set_shutdown ?s)"
    by (rule threads_step.destroy) (simp add: calling_wait_def threads_init_def)
  moreover have "threads_step all_handlers (set_shutdown ?s) (release_client (set_shutdown ?s))"
    by (rule threads_step.release) (simp_all add: set_shutdown_def calling_wait_def threads_init_def)
  ultimately show "threads_steps all_handlers ?s (release_client (set_shutdown ?s))"
    by (meson rtranclp.intros)
qed (simp_all add: calling_wait_def threads_init_def)

end
