(* ===== verification/HubElection.thy ===== *)
theory HubElection
  imports ManagerLoop
begin

text \<open>
  A group of managers that share one announce path, and the servers they construct in their main
  loops. Which server holds the path is decided by the kernel: \<open>UDSClient::Create\<close> needs a server
  that listens on it, \<open>UDSServer::Create\<close> a path that no server is bound to. The main loop is the
  one of \<open>ManagerLoop\<close>, seen through the phase its main thread is in.
\<close>

section \<open>The phases of one main loop\<close>

text \<open>The numbers name the server a client is connected to.\<close>

datatype phase =
    Connecting         \<comment> \<open>at the loop test and \<open>UDSClient::Create\<close>\<close>
  | Entering nat       \<comment> \<open>connected, before \<open>mClient->Wait()\<close>\<close>
  | Attached nat       \<comment> \<open>inside \<open>Wait\<close>\<close>
  | Deciding           \<comment> \<open>after \<open>Wait\<close>, at \<open>if (mShutdown) break\<close>\<close>
  | Serving            \<comment> \<open>at \<open>make_shared<TopologyServer>\<close>\<close>
  | Done               \<comment> \<open>left \<open>MainLoop\<close>, or crashed\<close>

datatype phase_event = Connects nat | Refused | Waits nat | Lost nat | Leaves | Goes_on | Serves | Crashes

inductive phase_step :: "bool \<Rightarrow> phase_event \<Rightarrow> phase \<Rightarrow> phase \<Rightarrow> bool" where
  "phase_step False (Connects k) Connecting (Entering k)"
| "phase_step False Refused Connecting Deciding"
| "phase_step True Leaves Connecting Done"
| "phase_step sh (Waits k) (Entering k) (Attached k)"
| "phase_step sh Crashes (Entering k) Done"
| "phase_step sh Crashes Deciding Done"
| "phase_step sh (Lost k) (Attached k) Deciding"
| "phase_step True Leaves Deciding Done"
| "phase_step False Goes_on Deciding Serving"
| "phase_step sh Serves Serving Connecting"

declare phase_step.intros [intro]

inductive_simps phase_step_simps [simp]:
  "phase_step sh (Connects k) ph ph'" "phase_step sh Refused ph ph'" "phase_step sh (Waits k) ph ph'"
  "phase_step sh (Lost k) ph ph'" "phase_step sh Leaves ph ph'" "phase_step sh Goes_on ph ph'"
  "phase_step sh Serves ph ph'" "phase_step sh Crashes ph ph'"

fun phase_of :: "main_pc \<Rightarrow> phase" where
  "phase_of At_top = Connecting"
| "phase_of (Introduce c) = Entering c"
| "phase_of (Adopt c) = Entering c"
| "phase_of (Flush c ms) = Entering c"
| "phase_of (Calling_wait c) = Entering c"
| "phase_of (Waiting c) = Attached c"
| "phase_of Reset = Deciding"
| "phase_of Check = Deciding"
| "phase_of Serve = Serving"
| "phase_of Finished = Done"
| "phase_of Crashed = Done"
| "phase_of (Torn ms) = Done"

text \<open>
  The phases follow the detailed model: every step of the threads around a manager leaves the phase
  alone or is a step of the phases, taken under the value \<open>mShutdown\<close> has.
\<close>

lemma threads_step_phase:
  assumes "threads_step H s s'"
  shows "phase_of (mt_pc s') = phase_of (mt_pc s) \<or>
    (\<exists>e. phase_step (tm_shutdown (mt_manager s)) e (phase_of (mt_pc s)) (phase_of (mt_pc s')))"
  using assms by (induction rule: threads_step.induct) auto

section \<open>The group\<close>

record group =
  gr_hubs :: nat                        \<comment> \<open>servers bound so far\<close>
  gr_listening :: "nat option"          \<comment> \<open>the one that holds the path\<close>
  gr_server :: "nat \<Rightarrow> nat option"      \<comment> \<open>the \<open>UDSServer\<close> behind the local \<open>server\<close> of each manager\<close>
  gr_phase :: "nat \<Rightarrow> phase"
  gr_shutdown :: "nat set"              \<comment> \<open>managers whose destructor has begun\<close>

definition group_init :: group where
  "group_init = \<lparr>gr_hubs = 0, gr_listening = None, gr_server = Map.empty, gr_phase = (\<lambda>p. Connecting),
     gr_shutdown = {}\<rparr>"

text \<open>The destructor of the old server object closes its listening socket and its connections.\<close>

definition drop_server :: "nat \<Rightarrow> group \<Rightarrow> group" where
  "drop_server p g = g\<lparr>gr_server := (gr_server g)(p := None),
     gr_listening := (if gr_server g p = gr_listening g then None else gr_listening g)\<rparr>"

text \<open>
  \<open>server = std::make_shared<TopologyServer>(mAnnouncePath, mHistory)\<close>: the new object is constructed
  while the old one still exists, then the assignment destroys the old one. If the path is taken,
  the new object has no \<open>UDSServer\<close>.
\<close>

definition construct_server :: "nat \<Rightarrow> group \<Rightarrow> group" where
  "construct_server p g =
     (case gr_listening g of
        None \<Rightarrow> g\<lparr>gr_hubs := Suc (gr_hubs g), gr_listening := Some (gr_hubs g),
                  gr_server := (gr_server g)(p := Some (gr_hubs g))\<rparr>
      | Some k \<Rightarrow> drop_server p g)"

definition enter_phase :: "nat \<Rightarrow> phase \<Rightarrow> group \<Rightarrow> group" where
  "enter_phase p ph g = g\<lparr>gr_phase := (gr_phase g)(p := ph)\<rparr>"

text \<open>
  \<open>P\<close> is the group; \<open>faulty\<close> admits failures: system calls of \<open>Create\<close> that fail for other reasons,
  connections that break, a server whose loop ends by itself, sends that fail and so crash the
  main thread in front of \<open>Wait\<close>, and requests that meet the resetting of \<open>mClient\<close> and crash there.
\<close>

inductive group_step :: "nat set \<Rightarrow> bool \<Rightarrow> group \<Rightarrow> group \<Rightarrow> bool" for P faulty where
  connects: "p \<in> P \<Longrightarrow> gr_listening g = Some k \<Longrightarrow>
    phase_step (p \<in> gr_shutdown g) (Connects k) (gr_phase g p) ph \<Longrightarrow> group_step P faulty g (enter_phase p ph g)"
| refused: "p \<in> P \<Longrightarrow> gr_listening g = None \<or> faulty \<Longrightarrow>
    phase_step (p \<in> gr_shutdown g) Refused (gr_phase g p) ph \<Longrightarrow> group_step P faulty g (enter_phase p ph g)"
| waits: "p \<in> P \<Longrightarrow> phase_step (p \<in> gr_shutdown g) (Waits k) (gr_phase g p) ph \<Longrightarrow>
    group_step P faulty g (enter_phase p ph g)"
| lost: "p \<in> P \<Longrightarrow> gr_listening g \<noteq> Some k \<or> faulty \<Longrightarrow>
    phase_step (p \<in> gr_shutdown g) (Lost k) (gr_phase g p) ph \<Longrightarrow> group_step P faulty g (enter_phase p ph g)"
| goes_on: "p \<in> P \<Longrightarrow> phase_step (p \<in> gr_shutdown g) Goes_on (gr_phase g p) ph \<Longrightarrow>
    group_step P faulty g (enter_phase p ph g)"
| serves: "p \<in> P \<Longrightarrow> phase_step (p \<in> gr_shutdown g) Serves (gr_phase g p) ph \<Longrightarrow>
    group_step P faulty g (enter_phase p ph (construct_server p g))"
| serves_not: "p \<in> P \<Longrightarrow> faulty \<Longrightarrow> phase_step (p \<in> gr_shutdown g) Serves (gr_phase g p) ph \<Longrightarrow>
    group_step P faulty g (enter_phase p ph (drop_server p g))"
| leaves: "p \<in> P \<Longrightarrow> phase_step (p \<in> gr_shutdown g) Leaves (gr_phase g p) ph \<Longrightarrow>
    group_step P faulty g (enter_phase p ph (drop_server p g))"
| crashes: "p \<in> P \<Longrightarrow> p \<in> gr_shutdown g \<or> faulty \<Longrightarrow>
    phase_step (p \<in> gr_shutdown g) Crashes (gr_phase g p) ph \<Longrightarrow>
    group_step P faulty g (enter_phase p ph (drop_server p g))"
| shutdown: "p \<in> P \<Longrightarrow> group_step P faulty g (g\<lparr>gr_shutdown := insert p (gr_shutdown g)\<rparr>)"
| hub_ends: "faulty \<Longrightarrow> group_step P faulty g (g\<lparr>gr_listening := None\<rparr>)"

abbreviation group_steps :: "nat set \<Rightarrow> bool \<Rightarrow> group \<Rightarrow> group \<Rightarrow> bool" where
  "group_steps P faulty \<equiv> (group_step P faulty)\<^sup>*\<^sup>*"

lemmas group_defs = enter_phase_def drop_server_def construct_server_def

section \<open>One host\<close>

definition group_wf :: "nat set \<Rightarrow> group \<Rightarrow> bool" where
  "group_wf P g \<longleftrightarrow>
     (\<forall>k. gr_listening g = Some k \<longrightarrow> (\<exists>p\<in>P. gr_server g p = Some k)) \<and>
     (\<forall>p k. gr_server g p = Some k \<longrightarrow> k < gr_hubs g \<and> gr_phase g p \<noteq> Done) \<and>
     (\<forall>p q k. gr_server g p = Some k \<longrightarrow> gr_server g q = Some k \<longrightarrow> p = q)"

lemma group_wf_init [simp]: "group_wf P group_init"
  by (simp add: group_wf_def group_init_def)

lemma group_wfD:
  assumes "group_wf P g" "gr_server g p = Some k"
  shows "k < gr_hubs g" "gr_phase g p \<noteq> Done" "gr_server g q = Some k \<Longrightarrow> q = p"
  using assms unfolding group_wf_def by blast+

lemma group_wf_host: "group_wf P g \<Longrightarrow> gr_listening g = Some k \<Longrightarrow> \<exists>p\<in>P. gr_server g p = Some k"
  by (simp add: group_wf_def)

lemma group_wf_enter:
  "group_wf P g \<Longrightarrow> ph \<noteq> Done \<or> gr_server g p = None \<Longrightarrow> group_wf P (enter_phase p ph g)"
  by (auto simp: group_wf_def enter_phase_def)

lemma group_wf_drop:
  assumes "group_wf P g"
  shows "group_wf P (drop_server p g)"
proof -
  have "\<exists>q\<in>P. q \<noteq> p \<and> gr_server g q = Some k" if "gr_listening g = Some k" "gr_server g p \<noteq> Some k" for k
    using group_wf_host [OF assms that(1)] that(2) by auto
  with assms show ?thesis by (auto simp: group_wf_def drop_server_def)
qed

lemma group_wf_construct:
  assumes "group_wf P g" "p \<in> P" "gr_phase g p \<noteq> Done"
  shows "group_wf P (construct_server p g)"
proof (cases "gr_listening g")
  case None
  with assms show ?thesis
    unfolding group_wf_def construct_server_def by (auto simp: less_Suc_eq)
next
  case (Some k)
  with group_wf_drop [OF assms(1)] show ?thesis by (simp add: construct_server_def)
qed

lemma drop_server_fields [simp]:
  "gr_server (drop_server p g) p = None" "gr_phase (drop_server p g) = gr_phase g"
  "gr_shutdown (drop_server p g) = gr_shutdown g" "gr_hubs (drop_server p g) = gr_hubs g"
  by (simp_all add: drop_server_def)

lemma construct_server_fields [simp]:
  "gr_phase (construct_server p g) = gr_phase g" "gr_shutdown (construct_server p g) = gr_shutdown g"
  by (simp_all add: construct_server_def split: option.split)

lemma enter_phase_fields [simp]:
  "gr_phase (enter_phase p ph g) = (gr_phase g)(p := ph)" "gr_server (enter_phase p ph g) = gr_server g"
  "gr_listening (enter_phase p ph g) = gr_listening g" "gr_hubs (enter_phase p ph g) = gr_hubs g"
  "gr_shutdown (enter_phase p ph g) = gr_shutdown g"
  by (simp_all add: enter_phase_def)

lemma group_wf_step: "group_step P faulty g g' \<Longrightarrow> group_wf P g \<Longrightarrow> group_wf P g'"
proof (induction rule: group_step.induct)
  case (serves p g ph)
  then show ?case using group_wf_construct [of P g p] by (auto intro!: group_wf_enter)
next
  case (shutdown p g)
  then show ?case by (simp add: group_wf_def)
next
  case (hub_ends g)
  then show ?case by (simp add: group_wf_def)
qed (auto intro!: group_wf_enter group_wf_drop)

lemma group_wf_steps: "group_steps P faulty g g' \<Longrightarrow> group_wf P g \<Longrightarrow> group_wf P g'"
  by (induction rule: rtranclp_induct) (auto intro: group_wf_step)

section \<open>What a group that nothing fails in can do\<close>

text \<open>
  \<open>settles\<close>: the manager gets to \<open>Wait\<close> on a listening server; the others stay where they are, and so
  does a listening server that is not its own.
\<close>

definition settles :: "nat set \<Rightarrow> nat \<Rightarrow> group \<Rightarrow> bool" where
  "settles P p g \<longleftrightarrow> (\<exists>g' k. group_steps P False g g' \<and> gr_phase g' = (gr_phase g)(p := Attached k) \<and>
     gr_listening g' = Some k \<and> gr_shutdown g' = gr_shutdown g \<and>
     (\<forall>q. q \<noteq> p \<longrightarrow> gr_server g' q = gr_server g q) \<and>
     (\<forall>j. gr_listening g = Some j \<longrightarrow> gr_server g p \<noteq> Some j \<longrightarrow> k = j))"

lemma settles_step:
  assumes "group_step P False g g1" "settles P p g1" "gr_shutdown g1 = gr_shutdown g"
    and "\<forall>q. q \<noteq> p \<longrightarrow> gr_phase g1 q = gr_phase g q \<and> gr_server g1 q = gr_server g q"
    and "\<forall>j. gr_listening g = Some j \<longrightarrow> gr_server g p \<noteq> Some j \<longrightarrow>
      gr_listening g1 = Some j \<and> gr_server g1 p \<noteq> Some j"
  shows "settles P p g"
proof -
  obtain g' k where g': "group_steps P False g1 g'" "gr_phase g' = (gr_phase g1)(p := Attached k)"
    "gr_listening g' = Some k" "gr_shutdown g' = gr_shutdown g1"
    "\<forall>q. q \<noteq> p \<longrightarrow> gr_server g' q = gr_server g1 q"
    "\<forall>j. gr_listening g1 = Some j \<longrightarrow> gr_server g1 p \<noteq> Some j \<longrightarrow> k = j"
    using assms(2) by (auto simp: settles_def)
  have "gr_phase g' = (gr_phase g)(p := Attached k)" using g'(2) assms(4) by (auto simp: fun_eq_iff)
  moreover have "group_steps P False g g'" using assms(1) g'(1) by (rule converse_rtranclp_into_rtranclp)
  ultimately show ?thesis using g' assms(3-5) unfolding settles_def by (intro exI [of _ g'] exI [of _ k]) auto
qed

lemma settles_Attached: "gr_phase g p = Attached k \<Longrightarrow> gr_listening g = Some k \<Longrightarrow> settles P p g"
  unfolding settles_def by (intro exI [of _ g] exI [of _ k]) auto

lemma settles_Entering_listening:
  assumes "p \<in> P" "gr_phase g p = Entering k" "gr_listening g = Some k"
  shows "settles P p g"
  by (rule settles_step [OF group_step.waits [of p P g k "Attached k"] settles_Attached [where k = k]])
    (use assms in auto)

lemma settles_Connecting_listening:
  assumes "p \<in> P" "p \<notin> gr_shutdown g" "gr_phase g p = Connecting" "gr_listening g = Some k"
  shows "settles P p g"
  by (rule settles_step [OF group_step.connects [of p P g k "Entering k"] settles_Entering_listening [where k = k]])
    (use assms in auto)

lemma settles_Serving_free:
  assumes "p \<in> P" "p \<notin> gr_shutdown g" "gr_phase g p = Serving" "gr_listening g = None"
  shows "settles P p g"
  by (rule settles_step [OF group_step.serves [of p P g Connecting]
        settles_Connecting_listening [where k = "gr_hubs g"]])
    (use assms in \<open>auto simp: construct_server_def\<close>)

lemma settles_Deciding_free:
  assumes "p \<in> P" "p \<notin> gr_shutdown g" "gr_phase g p = Deciding" "gr_listening g = None"
  shows "settles P p g"
  by (rule settles_step [OF group_step.goes_on [of p P g Serving] settles_Serving_free]) (use assms in auto)

lemma settles_Connecting:
  assumes "p \<in> P" "p \<notin> gr_shutdown g" "gr_phase g p = Connecting"
  shows "settles P p g"
proof (cases "gr_listening g")
  case None
  then show ?thesis
    by (intro settles_step [OF group_step.refused [of p P g False Deciding] settles_Deciding_free])
      (use assms in auto)
next
  case (Some k)
  then show ?thesis using settles_Connecting_listening [OF assms] by simp
qed

lemma settles_Serving:
  assumes "p \<in> P" "p \<notin> gr_shutdown g" "gr_phase g p = Serving"
  shows "settles P p g"
  by (rule settles_step [OF group_step.serves [of p P g Connecting] settles_Connecting])
    (use assms in \<open>auto simp: construct_server_def drop_server_def split: option.splits\<close>)

lemma settles_Deciding:
  assumes "p \<in> P" "p \<notin> gr_shutdown g" "gr_phase g p = Deciding"
  shows "settles P p g"
  by (rule settles_step [OF group_step.goes_on [of p P g Serving] settles_Serving]) (use assms in auto)

lemma settles_Lost:
  assumes "p \<in> P" "p \<notin> gr_shutdown g" "gr_phase g p = Attached k"
  shows "settles P p g"
proof (cases "gr_listening g = Some k")
  case False
  then show ?thesis
    by (intro settles_step [OF group_step.lost [of p P g k False Deciding] settles_Deciding]) (use assms in auto)
qed (use settles_Attached assms in blast)

lemma settles_Entering:
  assumes "p \<in> P" "p \<notin> gr_shutdown g" "gr_phase g p = Entering k"
  shows "settles P p g"
  by (rule settles_step [OF group_step.waits [of p P g k "Attached k"] settles_Lost [where k = k]])
    (use assms in auto)

lemma settles_alive:
  assumes "p \<in> P" "p \<notin> gr_shutdown g" "gr_phase g p \<noteq> Done"
  shows "settles P p g"
proof (cases "gr_phase g p")
  case (Entering k)
  then show ?thesis using settles_Entering [OF assms(1,2)] by simp
next
  case (Attached k)
  then show ?thesis using settles_Lost [OF assms(1,2)] by simp
qed (use assms settles_Connecting settles_Deciding settles_Serving in auto)

text \<open>A server that listens after some steps did so before them or was bound in them.\<close>

lemma listening_step:
  "group_step P faulty g g' \<Longrightarrow> gr_hubs g \<le> gr_hubs g' \<and>
    (\<forall>k. gr_listening g' = Some k \<longrightarrow> gr_listening g = Some k \<or> gr_hubs g \<le> k)"
  by (induction rule: group_step.induct) (auto simp: group_defs split: option.splits if_splits)

lemma listening_steps:
  "group_steps P faulty g g' \<Longrightarrow> gr_hubs g \<le> gr_hubs g' \<and>
    (\<forall>k. gr_listening g' = Some k \<longrightarrow> gr_listening g = Some k \<or> gr_hubs g \<le> k)"
proof (induction rule: rtranclp_induct)
  case (step g1 g2)
  then show ?case using listening_step [of P faulty g1 g2] by (meson le_trans)
qed simp

text \<open>The host settles first, or any manager if there is none.\<close>

lemma host_settles:
  assumes "group_wf P g" "gr_shutdown g = {}" "p \<in> P" "gr_phase g p \<noteq> Done"
  shows "\<exists>g' h k. group_steps P False g g' \<and> h \<in> P \<and> gr_phase g h \<noteq> Done \<and>
    gr_phase g' = (gr_phase g)(h := Attached k) \<and> gr_shutdown g' = {} \<and>
    gr_listening g' = Some k \<and> gr_server g' h = Some k"
proof -
  obtain h where h: "h \<in> P" "gr_phase g h \<noteq> Done" "\<forall>j. gr_listening g = Some j \<longrightarrow> gr_server g h = Some j"
  proof (cases "gr_listening g")
    case (Some j)
    with group_wf_host [OF assms(1)] group_wfD(2) [OF assms(1)] that show ?thesis by force
  qed (use that assms in auto)
  obtain g' k where g': "group_steps P False g g'" "gr_phase g' = (gr_phase g)(h := Attached k)"
    "gr_listening g' = Some k" "gr_shutdown g' = {}" "\<forall>q. q \<noteq> h \<longrightarrow> gr_server g' q = gr_server g q"
    using settles_alive [of h P g] h(1,2) assms(2) by (auto simp: settles_def)
  obtain h' where h': "gr_server g' h' = Some k"
    using group_wf_host [OF group_wf_steps [OF g'(1) assms(1)] g'(3)] by blast
  have "h' = h"
  proof (rule ccontr)
    assume "h' \<noteq> h"
    with g'(5) h' have old: "gr_server g h' = Some k" by simp
    with listening_steps [OF g'(1)] g'(3) group_wfD(1) [OF assms(1) old] have "gr_listening g = Some k" by auto
    with h(3) group_wfD(3) [OF assms(1) old] \<open>h' \<noteq> h\<close> show False by auto
  qed
  with g' h h' show ?thesis by blast
qed

lemma others_settle:
  assumes "finite Q" "Q \<subseteq> P" "group_wf P g" "gr_shutdown g = {}" "gr_listening g = Some k"
    "gr_server g h = Some k" "h \<notin> Q"
  shows "\<exists>g'. group_steps P False g g' \<and> gr_listening g' = Some k \<and>
    gr_phase g' = (\<lambda>q. if q \<in> Q \<and> gr_phase g q \<noteq> Done then Attached k else gr_phase g q)"
  using assms
proof (induction Q arbitrary: g rule: finite_induct)
  case empty
  then show ?case by (intro exI [of _ g]) auto
next
  case (insert p Q)
  show ?case
  proof (cases "gr_phase g p = Done")
    case True
    with insert.IH [of g] insert.prems show ?thesis by (auto cong: if_cong) (metis (no_types, lifting))
  next
    case False
    have own: "gr_server g p \<noteq> Some k" using insert.prems group_wfD(3) by blast
    have "settles P p g" using settles_alive insert.prems False by simp
    then obtain g1 where g1: "group_steps P False g g1" "gr_phase g1 = (gr_phase g)(p := Attached k)"
      "gr_listening g1 = Some k" "gr_shutdown g1 = {}" "\<forall>q. q \<noteq> p \<longrightarrow> gr_server g1 q = gr_server g q"
      using own insert.prems unfolding settles_def by auto
    moreover have "group_wf P g1" using group_wf_steps [OF g1(1)] insert.prems by simp
    ultimately obtain g' where g': "group_steps P False g1 g'" "gr_listening g' = Some k"
      "gr_phase g' = (\<lambda>q. if q \<in> Q \<and> gr_phase g1 q \<noteq> Done then Attached k else gr_phase g1 q)"
      using insert.IH [of g1] insert.prems by auto
    have "gr_phase g' = (\<lambda>q. if q \<in> insert p Q \<and> gr_phase g q \<noteq> Done then Attached k else gr_phase g q)"
      using g'(3) g1(2) False by auto
    with g1(1) g' show ?thesis by (meson rtranclp_trans)
  qed
qed

section \<open>Properties\<close>

text \<open>
  C16: The managers of a group find one another again. In every state that a group can reach through
  any failures and shutdowns, the listening server has exactly one owner; and if no destructor has
  begun and at least one main loop still runs, the group can get, without any further failure, to
  a state in which one server listens and every running manager waits on it.
\<close>

theorem election_converges:
  assumes reach: "group_steps P True group_init g" and fin: "finite P"
  shows "(\<forall>k. gr_listening g = Some k \<longrightarrow> (\<exists>!p. p \<in> P \<and> gr_server g p = Some k)) \<and>
    (gr_shutdown g = {} \<and> (\<exists>p\<in>P. gr_phase g p \<noteq> Done) \<longrightarrow>
      (\<exists>g' k. group_steps P False g g' \<and> gr_listening g' = Some k \<and>
        (\<forall>p\<in>P. gr_phase g' p = (if gr_phase g p = Done then Done else Attached k))))"
proof -
  have wf: "group_wf P g" using group_wf_steps [OF reach] by simp
  have "\<exists>!p. p \<in> P \<and> gr_server g p = Some k" if "gr_listening g = Some k" for k
    using group_wf_host [OF wf that] group_wfD(3) [OF wf] by metis
  moreover have "\<exists>g' k. group_steps P False g g' \<and> gr_listening g' = Some k \<and>
      (\<forall>p\<in>P. gr_phase g' p = (if gr_phase g p = Done then Done else Attached k))"
    if quiet: "gr_shutdown g = {}" and alive: "p \<in> P" "gr_phase g p \<noteq> Done" for p
  proof -
    from host_settles [OF wf quiet alive] obtain g1 h k where g1: "group_steps P False g g1" "h \<in> P"
      "gr_phase g h \<noteq> Done" "gr_phase g1 = (gr_phase g)(h := Attached k)" "gr_shutdown g1 = {}"
      "gr_listening g1 = Some k" "gr_server g1 h = Some k" by blast
    moreover have "group_wf P g1" using group_wf_steps [OF g1(1) wf] .
    ultimately obtain g' where g': "group_steps P False g1 g'" "gr_listening g' = Some k"
      "gr_phase g' = (\<lambda>q. if q \<in> P - {h} \<and> gr_phase g1 q \<noteq> Done then Attached k else gr_phase g1 q)"
      using others_settle [of "P - {h}" P g1 k h] fin by auto
    have "\<forall>p\<in>P. gr_phase g' p = (if gr_phase g p = Done then Done else Attached k)"
      using g'(3) g1(3,4) by auto
    with g1(1) g' show ?thesis by (meson rtranclp_trans)
  qed
  ultimately show ?thesis by blast
qed

text \<open>
  C17: A group whose managers all wait on the listening server does not stop: as long as no system
  call or connection fails, any number of destructors may begin, but none of the main loops they
  join ever ends, since the server goes away only with the main loop of its owner, and that one
  waits on the server too.
\<close>

theorem attached_group_never_stops:
  assumes "group_steps P False g g'" "gr_listening g = Some k" "\<forall>p\<in>P. gr_phase g p = Attached k"
  shows "gr_listening g' = Some k \<and> (\<forall>p\<in>P. gr_phase g' p = Attached k)"
  using assms
proof (induction rule: rtranclp_induct)
  case (step g1 g2)
  then have "gr_listening g1 = Some k" "\<forall>p\<in>P. gr_phase g1 p = Attached k" by auto
  with step.hyps(2) show ?case by (induction rule: group_step.induct) auto
qed auto

lemma cut_off_steps:
  assumes "group_steps P faulty g g'" "gr_server g h = Some k" "gr_phase g h \<in> {Deciding, Serving}"
    "k < gr_hubs g"
  shows "k < gr_hubs g' \<and> (gr_listening g' \<noteq> Some k \<or>
    gr_server g' h = Some k \<and> gr_phase g' h \<in> {Deciding, Serving})"
  using assms
proof (induction rule: rtranclp_induct)
  case (step g1 g2)
  then have IH: "k < gr_hubs g1" "gr_listening g1 \<noteq> Some k \<or>
    gr_server g1 h = Some k \<and> gr_phase g1 h \<in> {Deciding, Serving}" by auto
  show ?case
  proof (cases "gr_listening g1 = Some k")
    case True
    with step.hyps(2) IH show ?thesis
      by (induction rule: group_step.induct) (auto simp: group_defs)
  next
    case False
    with listening_step [OF step.hyps(2)] IH(1) show ?thesis by auto
  qed
qed auto

text \<open>The step that takes the host past the construction, when its own server holds the path.\<close>

lemma past_construction:
  assumes "group_step P faulty g g'" "gr_listening g = Some k" "gr_server g h = Some k"
    and "gr_phase g h \<in> {Deciding, Serving}" "gr_phase g' h \<notin> {Deciding, Serving}"
  shows "gr_listening g' = None \<and> gr_server g' h = None \<and> gr_hubs g' = gr_hubs g"
  using assms by (induction rule: group_step.induct) (auto simp: group_defs split: if_splits)

lemma free_path_bound:
  assumes "q \<in> P" "gr_phase g q = Serving" "gr_listening g = None"
  shows "\<exists>g'. group_step P False g g' \<and> gr_listening g' = Some (gr_hubs g) \<and> gr_server g' q = Some (gr_hubs g)"
proof -
  have "group_step P False g (enter_phase q Connecting (construct_server q g))"
    using group_step.serves [of q P g Connecting] assms by simp
  then show ?thesis using assms(3) by (intro exI conjI) (assumption, simp_all add: construct_server_def)
qed

text \<open>
  C18: A manager whose own server is alive but whose connection to it is lost takes the hub away from
  everybody. It constructs the new server while the old one still holds the path, so the new one is
  bound to nothing; then the old one is destroyed. So whatever step takes the main loop past the
  construction (or ends it) while the old server listens leaves no server at all: none listens, the
  manager has none, and none was bound; the path is free for whoever constructs a server next. From
  then on the old server never listens again, and every manager that still waits on it is cut off.
\<close>

theorem host_reconnect_ends_hub:
  assumes reach: "group_steps P True group_init g" and host: "gr_server g h = Some k"
    and phase: "gr_phase g h \<in> {Deciding, Serving}"
  shows "(\<forall>faulty g1 g2. group_steps P faulty g g1 \<and> gr_listening g1 = Some k \<and>
        group_step P faulty g1 g2 \<and> gr_phase g2 h \<notin> {Deciding, Serving} \<longrightarrow>
      gr_listening g2 = None \<and> gr_server g2 h = None \<and> gr_hubs g2 = gr_hubs g1 \<and>
      (\<forall>q\<in>P. gr_phase g2 q = Serving \<longrightarrow> (\<exists>g3. group_step P False g2 g3 \<and>
        gr_listening g3 = Some (gr_hubs g2) \<and> gr_server g3 q = Some (gr_hubs g2)))) \<and>
    (\<forall>faulty g'. group_steps P faulty g g' \<and> gr_phase g' h \<notin> {Deciding, Serving} \<longrightarrow>
      gr_listening g' \<noteq> Some k \<and>
      (\<forall>p\<in>P. gr_phase g' p = Attached k \<longrightarrow> group_step P False g' (enter_phase p Deciding g')))"
proof -
  have k: "k < gr_hubs g" using group_wfD(1) [OF group_wf_steps [OF reach group_wf_init] host] .
  note inside = cut_off_steps [OF _ host phase k]
  show ?thesis
  proof (intro conjI allI impI)
    fix faulty g1 g2
    assume s: "group_steps P faulty g g1 \<and> gr_listening g1 = Some k \<and> group_step P faulty g1 g2 \<and>
      gr_phase g2 h \<notin> {Deciding, Serving}"
    then have r: "gr_listening g2 = None \<and> gr_server g2 h = None \<and> gr_hubs g2 = gr_hubs g1"
      using past_construction [of P faulty g1 g2 k h] inside [of P faulty g1] by blast
    then show "gr_listening g2 = None" "gr_server g2 h = None" "gr_hubs g2 = gr_hubs g1" by blast+
    from r show "\<forall>q\<in>P. gr_phase g2 q = Serving \<longrightarrow> (\<exists>g3. group_step P False g2 g3 \<and>
        gr_listening g3 = Some (gr_hubs g2) \<and> gr_server g3 q = Some (gr_hubs g2))"
      using free_path_bound by blast
  next
    fix faulty g' assume s: "group_steps P faulty g g' \<and> gr_phase g' h \<notin> {Deciding, Serving}"
    then show other: "gr_listening g' \<noteq> Some k" using inside [of P faulty g'] by auto
    show "\<forall>p\<in>P. gr_phase g' p = Attached k \<longrightarrow> group_step P False g' (enter_phase p Deciding g')"
    proof (intro ballI impI)
      fix p assume "p \<in> P" "gr_phase g' p = Attached k"
      then show "group_step P False g' (enter_phase p Deciding g')"
        using group_step.lost [of p P g' k False Deciding] other by simp
    qed
  qed
qed

section \<open>A concrete group\<close>

text \<open>Manager 0 hosts server 0; its connection breaks before manager 1 has connected.\<close>

definition host_group :: "phase \<Rightarrow> phase \<Rightarrow> group" where
  "host_group ph ph' = \<lparr>gr_hubs = 1, gr_listening = Some 0, gr_server = [0 \<mapsto> 0],
     gr_phase = (\<lambda>p. Connecting)(0 := ph, 1 := ph'), gr_shutdown = {}\<rparr>"

lemma enter_host_group [simp]:
  "enter_phase 0 ph (host_group ph1 ph2) = host_group ph ph2"
  "enter_phase (Suc 0) ph (host_group ph1 ph2) = host_group ph1 ph"
  by (auto simp: enter_phase_def host_group_def)

lemma host_group_fields [simp]:
  "gr_listening (host_group ph1 ph2) = Some 0" "gr_server (host_group ph1 ph2) = [0 \<mapsto> 0]"
  "gr_phase (host_group ph1 ph2) 0 = ph1" "gr_phase (host_group ph1 ph2) (Suc 0) = ph2"
  "gr_shutdown (host_group ph1 ph2) = {}"
  by (simp_all add: host_group_def)

lemma host_group_joined: "group_steps {0, 1} faulty (host_group Connecting ph) (host_group (Attached 0) ph)"
proof -
  have "group_step {0, 1} faulty (host_group Connecting ph) (host_group (Entering 0) ph)"
    using group_step.connects [of 0 "{0, 1}" "host_group Connecting ph" 0 "Entering 0"] by simp
  moreover have "group_step {0, 1} faulty (host_group (Entering 0) ph) (host_group (Attached 0) ph)"
    using group_step.waits [of 0 "{0, 1}" "host_group (Entering 0) ph" 0 "Attached 0"] by simp
  ultimately show ?thesis by (meson rtranclp.intros)
qed

lemma reach_host_group: "group_steps {0, 1} True group_init (host_group Deciding Connecting)"
proof -
  let ?g1 = "enter_phase 0 Deciding group_init" and ?g2 = "enter_phase 0 Serving group_init"
  have "group_step {0, 1} True group_init ?g1"
    by (rule group_step.refused) (simp_all add: group_init_def)
  moreover have "group_step {0, 1} True ?g1 ?g2"
    using group_step.goes_on [of 0 "{0, 1}" ?g1 Serving] by (simp add: group_init_def enter_phase_def)
  moreover have "group_step {0, 1} True ?g2 (host_group Connecting Connecting)"
    using group_step.serves [of 0 "{0, 1}" ?g2 Connecting]
    by (simp add: group_init_def group_defs host_group_def fun_upd_idem)
  ultimately have "group_steps {0, 1} True group_init (host_group Connecting Connecting)"
    by (meson rtranclp.intros)
  moreover have "group_step {0, 1} True (host_group (Attached 0) Connecting) (host_group Deciding Connecting)"
    using group_step.lost [of 0 "{0, 1}" "host_group (Attached 0) Connecting" 0 True Deciding] by simp
  ultimately show ?thesis using host_group_joined by (meson rtranclp.rtrancl_into_rtrancl rtranclp_trans)
qed

lemma election_converges_witness:
  "\<exists>g' k. group_steps {0, 1} False (host_group Deciding Connecting) g' \<and> gr_listening g' = Some k \<and>
    gr_phase g' 0 = Attached k \<and> gr_phase g' 1 = Attached k"
  using election_converges [OF reach_host_group] by auto

lemma attached_group_never_stops_witness:
  "\<exists>g'. group_step {0, 1} False (host_group (Attached 0) (Attached 0)) g' \<and> gr_shutdown g' = {0} \<and>
    gr_phase g' 0 = Attached 0"
proof -
  let ?g = "host_group (Attached 0) (Attached 0)" and ?g' = "host_group (Attached 0) (Attached 0)\<lparr>gr_shutdown := {0}\<rparr>"
  have step: "group_step {0, 1} False ?g ?g'" using group_step.shutdown [of 0 "{0, 1}" False ?g] by simp
  then have "group_steps {0, 1} False ?g ?g'" by blast
  from attached_group_never_stops [OF this, of 0] step show ?thesis by (intro exI [of _ ?g']) simp
qed

lemma host_reconnect_ends_hub_witness:
  "\<exists>g g'. group_steps {0, 1} False (host_group Deciding Connecting) g \<and> group_step {0, 1} False g g' \<and>
    gr_phase g' 0 = Connecting \<and> gr_listening g = Some 0 \<and> gr_listening g' = None \<and> gr_server g' 0 = None"
proof -
  let ?g1 = "host_group Serving Connecting"
  let ?g2 = "enter_phase 0 Connecting (construct_server 0 ?g1)"
  have run: "group_steps {0, 1} False (host_group Deciding Connecting) ?g1"
    using group_step.goes_on [of 0 "{0, 1}" "host_group Deciding Connecting" Serving] by auto
  have step: "group_step {0, 1} False ?g1 ?g2" by (rule group_step.serves) simp_all
  have "gr_listening ?g2 = None \<and> gr_server ?g2 0 = None"
    using host_reconnect_ends_hub [OF reach_host_group, of 0 0] run step by fastforce
  with run step show ?thesis by (intro exI [of _ ?g1] exI [of _ ?g2]) simp
qed

end
