(* ===== verification/Reconnect.thy ===== *)
theory Reconnect
  imports HubEffects ManagerProperties
begin

text \<open>
  A manager that loses its hub connects again and is sent the whole history of the hub once more,
  on top of the table it already has (\<open>TopologyManager::MainLoop\<close>, \<open>TopologyServer::OnConnect\<close>).
  The lemmas show that replaying a log is harmless as long as every node joins before it names
  topics; the property says what becomes of the manager.
\<close>

section \<open>Replaying the log of one node\<close>

definition sets_pub :: "TopologyMessage \<Rightarrow> string \<Rightarrow> bool" where
  "sets_pub m t \<longleftrightarrow> has_topic_change m \<and> tc_name (topic_change m) = t \<and>
     tc_op (topic_change m) \<in> {ANNOUNCE, RETRACT}"

definition sets_sub :: "TopologyMessage \<Rightarrow> string \<Rightarrow> bool" where
  "sets_sub m t \<longleftrightarrow> has_topic_change m \<and> tc_name (topic_change m) = t \<and>
     tc_op (topic_change m) \<in> {SUBSCRIBE, UNSUBSCRIBE}"

text \<open>Two views of a node that differ at most in topics the log decides.\<close>

definition covered :: "TopologyMessage list \<Rightarrow> node_view \<Rightarrow> node_view \<Rightarrow> bool" where
  "covered ms v w \<longleftrightarrow> nv_name v = nv_name w \<and> nv_address v = nv_address w \<and>
     (\<forall>t. nv_pubs v t \<noteq> nv_pubs w t \<longrightarrow> (\<exists>m\<in>set ms. sets_pub m t)) \<and>
     (\<forall>t. (t \<in> nv_subs v) \<noteq> (t \<in> nv_subs w) \<longrightarrow> (\<exists>m\<in>set ms. sets_sub m t))"

lemma covered_Nil [simp]: "covered [] v w \<longleftrightarrow> v = w"
  by (cases v; cases w) (auto simp: covered_def)

lemma covered_mono: "covered ms v w \<Longrightarrow> set ms \<subseteq> set ns \<Longrightarrow> covered ns v w"
  unfolding covered_def by blast

text \<open>A message without effect on a view that is there leaves it alone; the others set one topic.\<close>

lemma topology_cell_live:
  assumes "\<not> leaves m"
  obtains v' where "topology_cell m (Some v) = Some v'" "nv_name v' = nv_name v"
    "nv_address v' = nv_address v"
    "\<And>t. nv_pubs v' t = (if sets_pub m t then
      (if tc_op (topic_change m) = ANNOUNCE then Some (tc_mime (topic_change m)) else None) else nv_pubs v t)"
    "\<And>t. t \<in> nv_subs v' \<longleftrightarrow> (if sets_sub m t then tc_op (topic_change m) = SUBSCRIBE else t \<in> nv_subs v)"
proof (cases rule: oneof_exhaust [of m])
  case none
  then show ?thesis by (intro that [of v]) (simp_all add: topology_cell_def sets_pub_def sets_sub_def)
next
  case node
  then show ?thesis using assms
    by (intro that [of v])
      (auto simp: topology_cell_def sets_pub_def sets_sub_def leaves_def split: NodeOperation.splits)
next
  case topic
  then show ?thesis
    by (intro that [of "topic_cell (topic_change m) v"])
      (auto simp: topology_cell_def sets_pub_def sets_sub_def split: TopicOperation.splits)
qed

lemma covered_step:
  assumes "covered (m # ms) v w" "\<not> leaves m"
  obtains v' w' where "topology_cell m (Some v) = Some v'" "topology_cell m (Some w) = Some w'"
    "covered ms v' w'"
proof -
  obtain v' where v: "topology_cell m (Some v) = Some v'" "nv_name v' = nv_name v"
    "nv_address v' = nv_address v"
    "\<And>t. nv_pubs v' t = (if sets_pub m t then
      (if tc_op (topic_change m) = ANNOUNCE then Some (tc_mime (topic_change m)) else None) else nv_pubs v t)"
    "\<And>t. t \<in> nv_subs v' \<longleftrightarrow> (if sets_sub m t then tc_op (topic_change m) = SUBSCRIBE else t \<in> nv_subs v)"
    using topology_cell_live [OF assms(2)] by metis
  obtain w' where w: "topology_cell m (Some w) = Some w'" "nv_name w' = nv_name w"
    "nv_address w' = nv_address w"
    "\<And>t. nv_pubs w' t = (if sets_pub m t then
      (if tc_op (topic_change m) = ANNOUNCE then Some (tc_mime (topic_change m)) else None) else nv_pubs w t)"
    "\<And>t. t \<in> nv_subs w' \<longleftrightarrow> (if sets_sub m t then tc_op (topic_change m) = SUBSCRIBE else t \<in> nv_subs w)"
    using topology_cell_live [OF assms(2)] by metis
  have "covered ms v' w'" using assms(1) by (auto simp: covered_def v(2-) w(2-))
  with v w show ?thesis using that by blast
qed

lemma covered_run:
  assumes "covered ms v w" "\<forall>m\<in>set ms. \<not> leaves m"
  shows "fold topology_cell ms (Some v) = fold topology_cell ms (Some w)"
  using assms
proof (induction ms arbitrary: v w)
  case (Cons m ms)
  then have "\<not> leaves m" by simp
  from covered_step [OF Cons.prems(1) this] obtain v' w' where
    "topology_cell m (Some v) = Some v'" "topology_cell m (Some w) = Some w'" "covered ms v' w'" .
  with Cons show ?case by simp
qed simp

lemma run_covered:
  assumes "\<forall>m\<in>set ms. \<not> leaves m"
  shows "\<exists>v. fold topology_cell ms (Some w) = Some v \<and> covered ms v w"
  using assms
proof (induction ms rule: rev_induct)
  case (snoc m ms)
  then obtain v where v: "fold topology_cell ms (Some w) = Some v" "covered ms v w" by auto
  obtain v' where v': "topology_cell m (Some v) = Some v'" "nv_name v' = nv_name v"
    "nv_address v' = nv_address v" "\<And>t. \<not> sets_pub m t \<Longrightarrow> nv_pubs v' t = nv_pubs v t"
    "\<And>t. \<not> sets_sub m t \<Longrightarrow> t \<in> nv_subs v' \<longleftrightarrow> t \<in> nv_subs v"
    using topology_cell_live [of m v] snoc.prems by (metis in_set_conv_decomp)
  have "covered (ms @ [m]) v' w"
    using v(2) v'(2,3) v'(4,5) unfolding covered_def by simp metis
  with v(1) v'(1) show ?case by simp
qed simp

text \<open>Replaying the log of a node that is there on top of any prefix of it changes nothing.\<close>

lemma replay_cell:
  assumes "j = x # rest" "j = ps @ qs" "joins x" "\<forall>m\<in>set j. \<not> leaves m"
  shows "fold topology_cell j (fold topology_cell ps None) = fold topology_cell j None"
proof (cases ps)
  case (Cons y ps')
  with assms have ps: "ps = x # ps'" "rest = ps' @ qs" by auto
  have node: "has_node_change x" "nc_op (node_change x) = JOIN" using assms(3) by (auto simp: joins_def)
  then have stays: "topology_cell x (Some v) = Some v" for v
    by (cases rule: oneof_exhaust [of x]) (auto simp: topology_cell_def)
  obtain w where w: "topology_cell x None = Some w"
    using node by (cases rule: oneof_exhaust [of x]) (auto simp: topology_cell_def)
  obtain v where v: "fold topology_cell ps' (Some w) = Some v" "covered ps' v w"
    using run_covered [of ps' w] assms(1,4) ps by auto
  have "covered rest v w" using v(2) ps by (auto intro: covered_mono)
  then have "fold topology_cell rest (Some v) = fold topology_cell rest (Some w)"
    by (rule covered_run) (use assms(1,4) in auto)
  with v w stays ps assms(1) show ?thesis by simp
qed simp

section \<open>Replaying the log of the hub\<close>

fun joined_first :: "u64 set \<Rightarrow> TopologyMessage list \<Rightarrow> bool" where
  "joined_first J [] = True"
| "joined_first J (m # ms) = (case msg_key m of
      None \<Rightarrow> joined_first J ms
    | Some n \<Rightarrow> (n \<in> J \<or> joins m \<or> leaves m) \<and> joined_first (insert n J) ms)"

lemma joined_first_hd:
  assumes "joined_first J ms" "n \<notin> J" "filter (\<lambda>m. msg_key m = Some n) ms = x # xs"
  shows "joins x \<or> leaves x"
  using assms
  by (induction ms arbitrary: J) (auto split: option.splits if_splits)

lemma topology_fold_at:
  "fold topology_step ms V n = fold topology_cell (filter (\<lambda>m. msg_key m = Some n) ms) (V n)"
  using keyed_run_at [of msg_key topology_cell ms V n] by (simp add: keyed_run_def topology_step_def)

lemma topology_at: "topology ms n = fold topology_cell (filter (\<lambda>m. msg_key m = Some n) ms) None"
  using topology_fold_at [of ms Map.empty n] topology_append [of "[]" ms] by simp

text \<open>A log in which a node has left says so whatever was known of the node before.\<close>

lemma replay_left:
  assumes "settled {} ms" "n \<in> left_ids ms"
  shows "fold topology_step ms V n = None"
proof -
  obtain c where c: "c \<in> set ms" "leaves c" "nc_id (node_change c) = n"
    using assms(2) by (auto simp: left_ids_mem)
  then obtain xs ys where ms: "ms = xs @ c # ys" by (meson split_list)
  have key: "msg_key c = Some n" using c leaves_key by simp
  have "\<forall>m\<in>set ys. msg_key m = Some n \<longrightarrow> \<not> joins m"
    using settled_no_reopen [OF assms(1)] c(2) key unfolding ms by (metis no_reopen_append_Cons)
  with topo.closed_entry [OF c(2) key, of ys xs V] ms show ?thesis
    by (simp add: topology_step_def keyed_run_def)
qed

lemma prune_live:
  assumes "1 \<notin> left_ids ms" "no_zero_topic ms" "n \<notin> left_ids ms"
  shows "filter (\<lambda>m. msg_key m = Some n) (prune ms) = filter (\<lambda>m. msg_key m = Some n) ms"
proof -
  have "\<not> removed (left_ids ms) m" if "m \<in> set ms" "msg_key m = Some n" for m
    using removed_node [of "left_ids ms" m] that assms
    by (auto simp: no_zero_topic_def msg_key_def oneof_defs split: oneof_op.splits)
  then show ?thesis by (auto simp: prune_def intro: filter_cong)
qed

lemma replay_topology:
  assumes "settled {} (hist @ ms)" "1 \<notin> left_ids (hist @ ms)" "no_zero_topic (hist @ ms)"
    "joined_first {} (hist @ ms)"
  shows "fold topology_step (prune (hist @ ms)) (topology hist) = topology (hist @ ms)"
proof
  fix n
  let ?log = "hist @ ms" and ?own = "filter (\<lambda>m. msg_key m = Some n)"
  show "fold topology_step (prune ?log) (topology hist) n = topology ?log n"
  proof (cases "n \<in> left_ids ?log")
    case True
    then have "fold topology_step (prune ?log) (topology hist) n = None"
      by (intro replay_left settled_prune) simp
    moreover have "topology ?log n = None"
      using replay_left [OF assms(1) True, of Map.empty] topology_append [of "[]" ?log] by simp
    ultimately show ?thesis by simp
  next
    case False
    then have live: "\<forall>m\<in>set (?own ?log). \<not> leaves m"
      by (auto simp: left_ids_mem leaves_key)
    have "fold topology_cell (?own ?log) (fold topology_cell (?own hist) None) =
        fold topology_cell (?own ?log) None"
    proof (cases "?own ?log")
      case (Cons x xs)
      then have "x \<in> set (?own ?log)" by (simp only: list.set_intros)
      with joined_first_hd [OF assms(4) _ Cons] live have "joins x" by blast
      from replay_cell [OF Cons filter_append this live] show ?thesis .
    qed simp
    then show ?thesis
      by (simp add: topology_fold_at topology_at prune_live [OF assms(2,3) False] del: filter_append)
  qed
qed

text \<open>
  C22: a manager that reconnects is brought up to date. It has applied the log \<open>hist\<close> of a hub; it is
  then sent the whole history of a hub that went on from there, whatever has happened and been
  pruned in the meantime. Its table ends up as the topology of the full log, although it is
  given every message again: nodes that left in between are gone, topics are as they were last.
  Its own history is not deduplicated and grows by a whole history with every reconnect.
\<close>

theorem reconnect_resyncs:
  assumes "settled {} (hist @ ms)" "1 \<notin> left_ids (hist @ ms)" "no_zero_topic (hist @ ms)"
    "joined_first {} (hist @ ms)"
  shows "\<exists>m m'. feed (ApplyUpdate all_handlers) hist
      (TopologyManager_init groupName nodeName nodeId dataPath) = Inr m \<and>
    feed (ApplyUpdate all_handlers) (prune (hist @ ms)) m = Inr m' \<and>
    abs_topology m' = topology (hist @ ms) \<and> topology (prune (hist @ ms)) = topology (hist @ ms) \<and>
    tm_history m' = sort_key seq (rev (hist @ prune (hist @ ms)))"
proof -
  let ?m0 = "TopologyManager_init groupName nodeName nodeId dataPath" and ?log = "hist @ ms"
  have "outcome {} (\<lambda>m. abs_topology m = topology hist \<and> mgr_ok m) (feed (ApplyUpdate all_handlers) hist ?m0)"
    using apply_log [of ?m0 all_handlers hist] topology_append [of "[]" hist]
    by (auto simp: manager_faults_def all_handlers_def intro: outcome_mono)
  then obtain m where m: "feed (ApplyUpdate all_handlers) hist ?m0 = Inr m"
      "abs_topology m = topology hist" "mgr_ok m" by (auto simp: outcome_total)
  have "outcome {} (\<lambda>m'. abs_topology m' = fold topology_step (prune ?log) (topology hist))
      (feed (ApplyUpdate all_handlers) (prune ?log) m)"
    using apply_log [OF m(3), of all_handlers "prune ?log"] m(2)
    by (auto simp: manager_faults_def all_handlers_def intro: outcome_mono)
  then obtain m' where m': "feed (ApplyUpdate all_handlers) (prune ?log) m = Inr m'"
      "abs_topology m' = topology ?log" using replay_topology [OF assms] by (auto simp: outcome_total)
  have "feed (ApplyUpdate all_handlers) (hist @ prune ?log) ?m0 = Inr m'"
    using m(1) m'(1) by (simp add: feed_append)
  then have "tm_history m' = sort_key seq (rev (hist @ prune ?log))"
    using apply_history [of ?m0 all_handlers "hist @ prune ?log"]
    by (simp add: fold_insort del: fold_append rev_append)
  moreover have "topology (prune ?log) = topology ?log"
    using topology_keep [OF assms(1-3)] by (simp add: prune_def)
  ultimately show ?thesis using m m' by blast
qed

text \<open>While the manager was away, node 7 unsubscribed and announced, and node 8 left.\<close>

definition seen_log :: "TopologyMessage list" where
  "seen_log = [node_msg 1 11 JOIN 7 ''a'' ''x'', topic_msg 2 12 SUBSCRIBE 7 ''t'' [],
    node_msg 3 13 JOIN 8 ''b'' ''y'']"

definition missed_log :: "TopologyMessage list" where
  "missed_log = [topic_msg 4 14 UNSUBSCRIBE 7 ''t'' [], topic_msg 5 15 ANNOUNCE 7 ''u'' ''m'',
    node_msg 6 0 LEAVE 8 [] []]"

lemma reconnect_resyncs_witness:
  "\<exists>m m'. feed (ApplyUpdate all_handlers) seen_log (TopologyManager_init ''g'' ''n'' 9 ''p'') = Inr m \<and>
    feed (ApplyUpdate all_handlers) (prune (seen_log @ missed_log)) m = Inr m' \<and>
    abs_topology m' = topology (seen_log @ missed_log) \<and> abs_topology m' 8 = None"
proof -
  have "settled {} (seen_log @ missed_log)" "1 \<notin> left_ids (seen_log @ missed_log)"
      "no_zero_topic (seen_log @ missed_log)" "joined_first {} (seen_log @ missed_log)"
    by (simp_all add: seen_log_def missed_log_def leaves_def joins_def removed_def no_zero_topic_def msg_key_def)
  moreover from this(1) have "topology (seen_log @ missed_log) 8 = None"
    using replay_left [of "seen_log @ missed_log" 8 Map.empty] topology_append [of "[]" "seen_log @ missed_log"]
    by (simp add: left_ids_mem missed_log_def leaves_def)
  ultimately show ?thesis
    using reconnect_resyncs [of seen_log missed_log "''g''" "''n''" 9 "''p''"] by metis
qed

end
