(* ===== verification/Failover.thy ===== *)
theory Failover
  imports Reconnect HubProperties
begin

text \<open>
  What a manager's history is worth as the digest of a new hub after it has been through several
  hubs: it then holds copies of messages, and messages that the hubs have long pruned. As long as
  all of it belongs to one log and what the last hub sent is there, the copies and leftovers make no
  difference.
\<close>

section \<open>Sorting copies\<close>

lemma sort_ordered: "ordered strict ms \<Longrightarrow> sort_key seq (rev ms) = ms"
  by (rule sort_key_inj_key_eq) (auto simp: ordered_def)

text \<open>Whether a log is settled depends on its messages and their order only.\<close>

lemma removed_by_one: "removed L m \<longleftrightarrow> (\<exists>n\<in>L. removed {n} m)"
  by (auto simp: removed_def split: if_splits)

lemma settled_iff: "settled L ms \<longleftrightarrow> (\<forall>xs m ys. ms = xs @ m # ys \<longrightarrow> \<not> removed (L \<union> left_ids xs) m)"
proof (induction ms arbitrary: L)
  case (Cons x xs)
  show ?case
  proof
    assume s: "settled L (x # xs)"
    show "\<forall>as m bs. x # xs = as @ m # bs \<longrightarrow> \<not> removed (L \<union> left_ids as) m"
    proof (intro allI impI)
      fix as m bs assume "x # xs = as @ m # bs"
      with s have "settled (L \<union> left_ids as) (m # bs)" by (metis settled_append)
      then show "\<not> removed (L \<union> left_ids as) m" by simp
    qed
  next
    assume r: "\<forall>as m bs. x # xs = as @ m # bs \<longrightarrow> \<not> removed (L \<union> left_ids as) m"
    from r [rule_format, of "[]" x xs] have "\<not> removed L x" by simp
    moreover have "\<not> removed (L \<union> left_ids [x] \<union> left_ids as) m" if "xs = as @ m # bs" for as m bs
      using r [rule_format, of "x # as" m bs] that by (simp add: Un_assoc del: left_ids_simps(2))
        (simp add: Un_assoc)
    ultimately show "settled L (x # xs)" using Cons.IH [of "L \<union> left_ids [x]"] by simp
  qed
qed simp

lemma settled_by_seq:
  assumes "ordered strict ms"
  shows "settled {} ms \<longleftrightarrow>
    (\<forall>x\<in>set ms. \<forall>m\<in>set ms. leaves x \<longrightarrow> seq x < seq m \<longrightarrow> \<not> removed {nc_id (node_change x)} m)"
proof
  assume s: "settled {} ms"
  show "\<forall>x\<in>set ms. \<forall>m\<in>set ms. leaves x \<longrightarrow> seq x < seq m \<longrightarrow> \<not> removed {nc_id (node_change x)} m"
  proof (intro ballI impI)
    fix x m assume x: "x \<in> set ms" "leaves x" and m: "m \<in> set ms" and less: "seq x < seq m"
    from m obtain as bs where ms: "ms = as @ m # bs" by (meson split_list)
    have "x \<notin> set (m # bs)"
      using assms less unfolding ms by (auto simp: ordered_append ordered_Cons dest: less_asym)
    with x ms have "nc_id (node_change x) \<in> left_ids as" by (auto simp: left_ids_mem)
    moreover have "\<not> removed (left_ids as) m" using s ms by (simp add: settled_iff)
    ultimately show "\<not> removed {nc_id (node_change x)} m" using removed_by_one by blast
  qed
next
  assume r: "\<forall>x\<in>set ms. \<forall>m\<in>set ms. leaves x \<longrightarrow> seq x < seq m \<longrightarrow> \<not> removed {nc_id (node_change x)} m"
  show "settled {} ms"
    unfolding settled_iff
  proof (intro allI impI)
    fix as m bs assume ms: "ms = as @ m # bs"
    have "\<not> removed {nc_id (node_change x)} m" if x: "x \<in> set as" "leaves x" for x
    proof -
      have "seq x < seq m \<or> x = m" using assms x(1) unfolding ms by (auto simp: ordered_append)
      with r x ms show ?thesis by auto
    qed
    then show "\<not> removed ({} \<union> left_ids as) m"
      using removed_by_one [of "left_ids as" m] by (auto simp: left_ids_mem)
  qed
qed

section \<open>Copies make no difference to the topology\<close>

lemma topic_cell_idem: "topic_cell c (topic_cell c v) = topic_cell c v"
  by (cases "tc_op c") simp_all

lemma topology_cell_idem: "topology_cell m (topology_cell m v) = topology_cell m v"
  by (cases v; cases rule: oneof_exhaust [of m])
    (auto simp: topology_cell_def topic_cell_idem split: option.splits NodeOperation.splits TopicOperation.splits)

lemma topology_step_idem: "topology_step m (topology_step m V) = topology_step m V"
  by (auto simp: topology_step_def keyed_step_def topology_cell_idem fun_eq_iff split: option.splits)

lemma topology_remdups_adj: "fold topology_step (remdups_adj ms) V = fold topology_step ms V"
  by (induction ms arbitrary: V rule: remdups_adj.induct) (auto simp: topology_step_idem)

lemma topology_copies: "topology (remdups_adj ms) = topology ms"
  using topology_remdups_adj [of ms Map.empty] topology_append [of "[]" ms]
    topology_append [of "[]" "remdups_adj ms"] by simp

lemma ordered_remdups_adj: "ordered strict ms \<Longrightarrow> ordered True (remdups_adj ms)"
proof (induction ms rule: remdups_adj.induct)
  case (3 x y xs)
  then have IH: "ordered True (remdups_adj (y # xs))" by (cases "x = y") (auto simp: ordered_Cons)
  have "seq x < seq z" if "x \<noteq> y" "z \<in> set (y # xs)" for z
  proof (rule ccontr)
    assume "\<not> seq x < seq z"
    with 3(3) that have "z = x" "x \<in> set xs" "seq x < seq y" by (auto simp: ordered_Cons)
    with 3(3) show False by (auto simp: ordered_Cons)
  qed
  with IH 3(3) show ?case by (auto simp: ordered_Cons)
qed (auto simp: ordered_Cons)

lemma strictly_ordered_eq:
  assumes "ordered True ms" "ordered True ns" "set ms = set ns"
  shows "ms = ns"
proof -
  have "mset ms = mset ns" using assms by (simp add: ordered_def set_eq_iff_mset_eq_distinct)
  then have "sort_key seq ms = ns" "sort_key seq ms = ms"
    using assms by (auto simp: ordered_def intro!: sort_key_inj_key_eq)
  then show ?thesis by simp
qed

lemma topology_subset:
  assumes log: "ordered strict log" "settled {} log" "1 \<notin> left_ids log" "no_zero_topic log"
    and ms: "ordered strict' ms" "set ms \<subseteq> set log" "set (prune log) \<subseteq> set ms"
  shows "topology ms = topology log"
proof -
  let ?log = "remdups_adj log"
  have ordlog: "ordered True ?log" using ordered_remdups_adj [OF log(1)] .
  have "remdups_adj ms = filter (\<lambda>m. m \<in> set ms) ?log"
    using ms(2) by (intro strictly_ordered_eq ordered_remdups_adj [OF ms(1)] ordered_filter [OF ordlog]) auto
  moreover have "topology (filter (\<lambda>m. m \<in> set ms) ?log) = topology ?log"
    unfolding topology_def
  proof (rule topo.run_filter)
    have "settled {} ?log" using log(2) settled_by_seq [OF log(1)] settled_by_seq [OF ordlog] by simp
    then show "no_reopen msg_key joins leaves ?log" by (rule settled_no_reopen)
  next
    fix m assume "m \<in> set ?log" "leaves m"
    then show "m \<in> set ms" using ms(3) by (auto simp: prune_def)
  next
    fix m assume m: "m \<in> set ?log" "m \<notin> set ms"
    then have "removed (left_ids log) m" using ms(3) by (auto simp: prune_def)
    with m(1) log(3,4) removed_node [of "left_ids log" m]
    have "has_node_change m" "nc_id (node_change m) \<in> left_ids log" by (auto simp: no_zero_topic_def)
    moreover from this(1) have "msg_key m = Some (nc_id (node_change m))"
      by (auto simp: msg_key_def oneof_defs split: oneof_op.splits)
    ultimately show "\<exists>k c. msg_key m = Some k \<and> c \<in> set ?log \<and> leaves c \<and> msg_key c = Some k"
      by (auto simp: left_ids_mem leaves_key)
  qed
  ultimately show ?thesis by (metis topology_copies)
qed

section \<open>The next hub\<close>

lemma last_seq_subset:
  assumes log: "ordered strict log" "settled {} log"
    and ms: "ordered strict' ms" "set ms \<subseteq> set log" "set (prune log) \<subseteq> set ms"
  shows "last_seq ms = last_seq log"
proof (cases "log = []")
  case False
  then have "last log \<in> set ms"
    using settled_last [OF log(2)] ms(3) by (auto simp: prune_def)
  then have "last_seq log \<le> last_seq ms"
    using ordered_le_last [OF ms(1)] False by (auto simp: last_seq_def [of log])
  moreover have "last_seq ms \<le> last_seq log"
    using ms(2) ordered_le_last [OF log(1)] last_in_set [of ms]
    by (cases "ms = []") (auto simp: last_seq_def [of ms] simp del: last_in_set)
  ultimately show ?thesis by simp
qed (use ms in simp)

text \<open>
  Failover, however often the hub has changed. Let all that the hubs of a group have sent belong
  to one log, and let a manager have been sent, in any order and any number of copies, messages of
  this log that include the pruned log. Then the history it holds seeds a hub that satisfies the
  invariant for histories with copies, numbers on after the log and has the topology of the log.
\<close>

theorem failover_with_copies:
  assumes log: "ordered strict log" "settled {} log" "1 \<notin> left_ids log" "no_zero_topic log"
    and sent: "set updates \<subseteq> set log" "set (prune log) \<subseteq> set updates"
    and room: "unat (last_seq log) + 1 + k < 2 ^ 64" "k < 2 ^ 63"
  shows "\<exists>m. feed (ApplyUpdate all_handlers) updates (TopologyManager_init groupName nodeName nodeId dataPath) = Inr m \<and>
    hub_inv False k {} {} (TopologyServer_init (tm_history m)) \<and>
    topology (ts_history (TopologyServer_init (tm_history m))) = topology log \<and>
    (log \<noteq> [] \<longrightarrow> ts_nextSeq (TopologyServer_init (tm_history m)) = last_seq log + 1)"
proof -
  let ?m0 = "TopologyManager_init groupName nodeName nodeId dataPath" and ?h = "sort_key seq (rev updates)"
  obtain m where m: "feed (ApplyUpdate all_handlers) updates ?m0 = Inr m" "tm_history m = ?h"
    using apply_history [of ?m0 all_handlers updates]
    by (auto simp: fold_insort manager_faults_def all_handlers_def outcome_total)
  have set: "set ?h = set updates" by simp
  have ord: "ordered False ?h"
    using log(1) sent(1) by (auto simp: ordered_def intro: inj_on_subset)
  have "settled {} ?h"
    using log(2) sent(1) unfolding settled_by_seq [OF ord] settled_by_seq [OF log(1)] set by blast
  moreover have "no_zero_topic ?h" using log(4) sent(1) by (auto simp: no_zero_topic_def)
  moreover have last: "last_seq ?h = last_seq log"
    by (rule last_seq_subset [OF log(1,2) ord]) (use sent in auto)
  ultimately have "hub_inv False k {} {} (TopologyServer_init ?h)"
    using ord room by (intro TopologyServer_init_inv) simp_all
  moreover have "topology ?h = topology log"
    by (rule topology_subset [OF log ord]) (use sent in auto)
  moreover have "log \<noteq> [] \<Longrightarrow> ?h \<noteq> []"
    using last ordered_pos [OF log(1), of "last log"] by (auto simp: last_seq_def)
  ultimately show ?thesis
    using m last by (auto simp: TopologyServer_init_def digest_next_seq_eq)
qed

text \<open>The manager of \<open>Reconnect\<close>: it was sent the first half of the log, and then all that is left of it.\<close>

lemma failover_with_copies_witness:
  "\<exists>m. feed (ApplyUpdate all_handlers) (seen_log @ prune (seen_log @ missed_log))
      (TopologyManager_init ''g'' ''n'' 9 ''p'') = Inr m \<and>
    hub_inv False 100 {} {} (TopologyServer_init (tm_history m)) \<and>
    topology (ts_history (TopologyServer_init (tm_history m))) = topology (seen_log @ missed_log) \<and>
    (seen_log @ missed_log \<noteq> [] \<longrightarrow>
      ts_nextSeq (TopologyServer_init (tm_history m)) = last_seq (seen_log @ missed_log) + 1)"
proof (rule failover_with_copies)
  show "ordered True (seen_log @ missed_log)" by (simp add: ordered_strict seen_log_def missed_log_def)
  show "unat (last_seq (seen_log @ missed_log)) + 1 + 100 < 2 ^ 64"
    by (simp add: seen_log_def missed_log_def last_seq_def)
qed (auto simp: seen_log_def missed_log_def leaves_def removed_def no_zero_topic_def prune_def)

end
