(* ===== verification/SplitHistory.thy ===== *)
theory SplitHistory
  imports Reconnect HubProperties
begin

text \<open>
  Two managers that outlive their hub need not have been sent the same messages: the new hub is
  seeded with the history of one of them, and numbers on where that one stopped. The other then holds
  messages whose numbers the new hub has given to others. The lemmas follow such a manager through
  its introduction; the property says what the group makes of what only it has heard.
\<close>

section \<open>A history the hub does not share\<close>

text \<open>What the hub is sent of a manager's history and does not take over.\<close>

definition outdated :: "TopologyMessage list \<Rightarrow> TopologyMessage \<Rightarrow> bool" where
  "outdated hist m \<longleftrightarrow> seq m \<noteq> 0 \<and> message_node_id m \<noteq> 0 \<and> seq m \<le> last_seq hist \<and>
     (\<forall>x\<in>set hist. seq x = seq m \<longrightarrow> uid x = uid m \<longrightarrow> x = m)"

lemma outdated_prune:
  assumes "outdated hist m" "settled {} hist"
  shows "outdated (prune hist) m"
  using assms last_seq_prune [of hist "[]"] set_prune [of hist] by (auto simp: outdated_def kept_def)

lemma outdated_message_kept:
  assumes I: "hub_inv strict (Suc k) C U h" and c: "c \<in> C" "C \<subseteq> U" and bs: "bs \<noteq> []"
    and m: "outdated (ts_history h) (parse bs)" "unat (seq (parse bs)) < 2 ^ 63"
  obtains h' where "OnData parse rng c bs h = Inr h'" "hub_inv strict k C U h'" "ts_wire h' = ts_wire h"
    "ts_history h' = prune (ts_history h)" "ts_nextSeq h' = ts_nextSeq h"
proof -
  have "map_of (ts_clients h) c \<noteq> None" using I c(1) by (auto simp: hub_inv_def map_of_eq_None_iff)
  then obtain cl where cl: "map_of (ts_clients h) c = Some cl" by blast
  let ?h = "synced (ts_history h) []
    (h\<lparr>ts_clients := AList.update c (cl\<lparr>cl_nodeId := message_node_id (parse bs)\<rparr>) (ts_clients h)\<rparr>)"
  have "OnData parse rng c bs h = Inr ?h"
    by (rule OnData_echo [OF I cl bs]) (use m(1) in \<open>auto simp: outdated_def\<close>)
  moreover from this have "hub_inv strict k C U ?h"
    using OnData_outcome [OF I c, of parse bs rng] m(2) by (simp add: data_ok_def)
  moreover have "ts_wire ?h = ts_wire h" by (simp add: synced_def kept_def)
  ultimately show ?thesis by (intro that [of ?h]) simp_all
qed

lemma outdated_history_kept:
  assumes "hub_inv strict (k + length ms) C U h" "c \<in> C" "C \<subseteq> U"
    and "\<forall>m\<in>set ms. parse (ser m) = m \<and> ser m \<noteq> [] \<and> outdated (ts_history h) m \<and> unat (seq m) < 2 ^ 63"
  shows "\<exists>h'. feed (\<lambda>m. OnData parse rng c (ser m)) ms h = Inr h' \<and> hub_inv strict k C U h' \<and>
    ts_wire h' = ts_wire h \<and> set (ts_history h') \<subseteq> set (ts_history h) \<and> ts_nextSeq h' = ts_nextSeq h"
  using assms
proof (induction ms arbitrary: h)
  case (Cons m ms)
  have I: "hub_inv strict (Suc (k + length ms)) C U h" using Cons.prems(1) by simp
  from outdated_message_kept [OF I Cons.prems(2,3), of "ser m" parse rng] Cons.prems(4)
  obtain h1 where h1: "OnData parse rng c (ser m) h = Inr h1" "hub_inv strict (k + length ms) C U h1"
    "ts_wire h1 = ts_wire h" "ts_history h1 = prune (ts_history h)" "ts_nextSeq h1 = ts_nextSeq h" by auto
  have "settled {} (ts_history h)" using I by (simp add: hub_inv_def hub_ok_def)
  with Cons.prems(4) h1(4) outdated_prune
  have "\<forall>m\<in>set ms. parse (ser m) = m \<and> ser m \<noteq> [] \<and> outdated (ts_history h1) m \<and> unat (seq m) < 2 ^ 63"
    by auto
  from Cons.IH [OF h1(2) Cons.prems(2,3) this] h1 set_prune [of "ts_history h"] show ?case by auto
qed auto

text \<open>A log that does not speak of a node leaves what is known of it.\<close>

lemma topology_silent: "\<forall>m\<in>set ms. msg_key m \<noteq> Some i \<Longrightarrow> fold topology_step ms V i = V i"
  by (induction ms arbitrary: V) (simp_all add: topology_other_key)

section \<open>The property\<close>

text \<open>
  C24: What only one manager has heard stays with it and reaches no one else. Let a manager connect to a new hub whose
  history goes at least as far as its own, but has other messages under some of the numbers. The hub
  sends the manager its history, the manager sends the hub its own, and the hub takes none of it
  over, whatever it says. If the hub's history does not speak of some node, then after that
  the hub still does not know the node, and the manager still has exactly what it had of it. The
  purge does not look at the node either: one that died together with the old hub stays in the table
  of this manager, whose node goes on publishing to it.
\<close>

theorem split_history_leaves_ghosts:
  assumes inv: "hub_inv strict (Suc (length (tm_history m))) C U h" "C \<subseteq> U" "c \<notin> U" and m: "mgr_ok m"
    and own: "\<forall>x\<in>set (tm_history m). parse (ser x) = x \<and> ser x \<noteq> [] \<and> outdated (ts_history h) x \<and>
      unat (seq x) < 2 ^ 63"
    and silent: "\<forall>x\<in>set (ts_history h). msg_key x \<noteq> Some i"
  shows "\<exists>h1 h2 m'. OnConnect c h = Inr h1 \<and>
    feed (\<lambda>x. OnData parse rng c (ser x)) (tm_history m) h1 = Inr h2 \<and>
    feed (ApplyUpdate all_handlers) (stream c (ts_wire h2)) m = Inr m' \<and>
    ts_nextSeq h2 = ts_nextSeq h \<and> set (ts_history h2) \<subseteq> set (ts_history h) \<and>
    topology (ts_history h2) i = None \<and> i \<notin> set (historicallyActive (ts_history h2) []) \<and>
    abs_topology m' i = abs_topology m i"
proof -
  let ?h1 = "h\<lparr>ts_clients := ts_clients h @ [(c, default_Client\<lparr>cl_seq := last_seq (ts_history h)\<rparr>)],
      ts_wire := ts_wire h @ map (Pair c) (ts_history h)\<rparr>"
  have new: "c \<notin> fst ` set (ts_clients h)" "c \<notin> fst ` set (ts_wire h)" using inv by (auto simp: hub_inv_def)
  then have h1: "OnConnect c h = Inr ?h1"
    using inv(1) by (intro OnConnect_eq) (auto simp: hub_inv_def hub_ok_def ordered_sorted map_of_eq_None_iff)
  with OnConnect_outcome [OF inv]
  have "hub_inv strict (0 + length (tm_history m)) (insert c C) (insert c U) ?h1" by simp
  from outdated_history_kept [OF this, of c parse ser rng] own inv(2)
  obtain h2 where h2: "feed (\<lambda>x. OnData parse rng c (ser x)) (tm_history m) ?h1 = Inr h2"
    "ts_wire h2 = ts_wire ?h1" "set (ts_history h2) \<subseteq> set (ts_history h)" "ts_nextSeq h2 = ts_nextSeq h" by auto
  have stream: "stream c (ts_wire h2) = ts_history h" using h2(2) new(2) by (simp add: stream_empty)
  have "outcome {} (\<lambda>m'. abs_topology m' = fold topology_step (ts_history h) (abs_topology m))
      (feed (ApplyUpdate all_handlers) (ts_history h) m)"
    using apply_log [OF m, of all_handlers "ts_history h"]
    by (auto simp: manager_faults_def all_handlers_def intro: outcome_mono)
  then obtain m' where m': "feed (ApplyUpdate all_handlers) (stream c (ts_wire h2)) m = Inr m'"
      "abs_topology m' = fold topology_step (ts_history h) (abs_topology m)"
    by (auto simp: outcome_total stream)
  moreover have none: "topology (ts_history h2) i = None"
    using silent h2(3) topology_silent [of "ts_history h2" i Map.empty] topology_append [of "[]" "ts_history h2"]
    by auto
  moreover have "i \<notin> set (historicallyActive (ts_history h2) [])" using none active_nodes by blast
  ultimately show ?thesis using h1 h2 silent topology_silent [of "ts_history h" i] by metis
qed

text \<open>
  The old hub had told both managers that node 7 joined, and then only one of them that node 8 did.
  The new hub, seeded by the other manager, gave the number 2 to a subscription of node 7.
\<close>

definition shared_join :: TopologyMessage where
  "shared_join = node_msg 1 11 JOIN 7 ''a'' ''x''"

definition ghost_join :: TopologyMessage where
  "ghost_join = node_msg 2 12 JOIN 8 ''b'' ''y''"

definition next_subscribe :: TopologyMessage where
  "next_subscribe = topic_msg 2 21 SUBSCRIBE 7 ''t'' []"

definition behind_manager :: TopologyManager where
  "behind_manager = (TopologyManager_init ''g'' ''n'' 9 ''p'')\<lparr>tm_history := [shared_join, ghost_join],
     tm_nodes := [7 \<mapsto> new_Node (node_change shared_join), 8 \<mapsto> new_Node (node_change ghost_join)]\<rparr>"

definition seeded_hub :: TopologyServer where
  "seeded_hub = (TopologyServer_init [shared_join, next_subscribe])"

lemma split_history_leaves_ghosts_witness:
  "\<exists>h1 h2 m'. OnConnect 5 seeded_hub = Inr h1 \<and>
    feed (\<lambda>x. OnData (\<lambda>b. if b = [1] then shared_join else ghost_join) (\<lambda>_. 9) 5
      (if x = shared_join then [1] else [2])) (tm_history behind_manager) h1 = Inr h2 \<and>
    feed (ApplyUpdate all_handlers) (stream 5 (ts_wire h2)) behind_manager = Inr m' \<and>
    topology (ts_history h2) 8 = None \<and> abs_topology m' 8 \<noteq> None"
proof -
  note logs = behind_manager_def shared_join_def ghost_join_def
  have hist: "ts_history seeded_hub = [shared_join, next_subscribe]"
    by (simp add: seeded_hub_def TopologyServer_init_def)
  have "hub_inv True (Suc (length (tm_history behind_manager))) {} {} seeded_hub"
    unfolding seeded_hub_def
    by (rule TopologyServer_init_inv) (simp_all add: logs next_subscribe_def ordered_Cons no_zero_topic_def
      last_seq_def removed_def leaves_def)
  moreover have "mgr_ok behind_manager"
    by (simp add: logs mgr_ok_def node_ok_def new_Node_def TopologyManager_init_def)
  moreover have "\<forall>x\<in>set (tm_history behind_manager).
      (if (if x = shared_join then [1] else [2 :: 8 word]) = [1] then shared_join else ghost_join) = x \<and>
      (if x = shared_join then [1] else [2 :: 8 word]) \<noteq> [] \<and> outdated (ts_history seeded_hub) x \<and>
      unat (seq x) < 2 ^ 63"
    unfolding hist by (simp add: outdated_def last_seq_def next_subscribe_def logs message_node_id_def)
  moreover have "\<forall>x\<in>set (ts_history seeded_hub). msg_key x \<noteq> Some 8"
    by (simp add: hist logs next_subscribe_def msg_key_def)
  ultimately obtain h1 h2 m' where "OnConnect 5 seeded_hub = Inr h1"
    "feed (\<lambda>x. OnData (\<lambda>b. if b = [1] then shared_join else ghost_join) (\<lambda>_. 9) 5
      (if x = shared_join then [1] else [2])) (tm_history behind_manager) h1 = Inr h2"
    "feed (ApplyUpdate all_handlers) (stream 5 (ts_wire h2)) behind_manager = Inr m'"
    "topology (ts_history h2) 8 = None" "abs_topology m' 8 = abs_topology behind_manager 8"
    using split_history_leaves_ghosts [of True behind_manager "{}" "{}" seeded_hub 5
      "\<lambda>b. if b = [1] then shared_join else ghost_join" "\<lambda>x. if x = shared_join then [1] else [2]" 8 "\<lambda>_. 9"]
    by blast
  moreover have "abs_topology behind_manager 8 \<noteq> None" by (simp add: abs_topology_def behind_manager_def)
  ultimately show ?thesis by auto
qed

end
