(* ===== verification/Utils.thy ===== *)
theory Utils
  imports Posix
begin

text \<open>
  \<open>lib/Utils.h\<close> and \<open>lib/Utils.cc\<close>: hexadecimal output into a caller's buffer, random
  strings, and the scope guard \<open>OnRet\<close>. The pseudo random generator seeded by
  \<open>random_device\<close> is the parameter \<open>rng\<close>, the values it yields in order.
\<close>

section \<open>\<open>ToHexString\<close>\<close>

definition intToHex :: string where "intToHex = ''0123456789abcdef''"

definition nibble :: "u64 \<Rightarrow> nat \<Rightarrow> u64" where
  "nibble v i = drop_bit ((15 - i) * 4) v AND 0xf"

definition store :: "nat \<Rightarrow> char \<Rightarrow> string \<Rightarrow> string res" where
  "store i ch out = (if i < length out then Inr (out[i := ch]) else Inl Buffer_overflow)"

definition ToHexString :: "u64 \<Rightarrow> string \<Rightarrow> string res" where
  "ToHexString v = feed (\<lambda>i. store (i + 1) (intToHex ! unat (nibble v i))) [0..<16]"

text \<open>The sixteen digits, as \<open>std::hex << std::setw(16) << std::setfill('0')\<close> prints them too.\<close>

definition hex16 :: "u64 \<Rightarrow> string" where
  "hex16 v = map (\<lambda>i. intToHex ! unat (nibble v i)) [0..<16]"

lemma length_hex16 [simp]: "length (hex16 v) = 16"
  by (simp add: hex16_def)

lemma feed_store:
  "n < length out \<Longrightarrow> feed (\<lambda>i. store (i + 1) (f i)) [0..<n] out =
     Inr (take 1 out @ map f [0..<n] @ drop (Suc n) out)"
proof (induction n)
  case 0
  then show ?case by (cases out) auto
next
  case (Suc n)
  let ?out = "take 1 out @ map f [0..<n] @ drop (Suc n) out"
  have "drop (Suc n) out = out ! Suc n # drop (Suc (Suc n)) out"
    using Suc.prems by (simp add: Cons_nth_drop_Suc)
  with Suc.prems have "store (n + 1) (f n) ?out =
      Inr (take 1 out @ map f [0..<Suc n] @ drop (Suc (Suc n)) out)"
    by (simp add: store_def list_update_append min_def)
  with Suc show ?case by (simp add: feed_append)
qed

lemma feed_store_overflow:
  "j \<in> set is \<Longrightarrow> length out \<le> j + 1 \<Longrightarrow>
   feed (\<lambda>i. store (i + 1) (f i)) is out = Inl Buffer_overflow"
  by (induction "is" arbitrary: out) (auto simp: store_def)

lemma ToHexString_eq:
  "ToHexString v out =
     (if 17 \<le> length out then Inr (take 1 out @ hex16 v @ drop 17 out) else Inl Buffer_overflow)"
proof (cases "17 \<le> length out")
  case True
  then show ?thesis
    unfolding ToHexString_def hex16_def by (subst feed_store) simp_all
next
  case False
  then have "length out \<le> 15 + 1" by simp
  moreover have "(15 :: nat) \<in> set [0..<16]" by simp
  ultimately have "ToHexString v out = Inl Buffer_overflow"
    unfolding ToHexString_def by (intro feed_store_overflow)
  with False show ?thesis by simp
qed

text \<open>Reading the digits back: the value of a string of hexadecimal digits.\<close>

definition hex_value :: "char \<Rightarrow> u64" where
  "hex_value ch = of_nat (length (takeWhile (\<lambda>x. x \<noteq> ch) intToHex))"

definition from_hex :: "string \<Rightarrow> u64" where
  "from_hex ds = foldl (\<lambda>acc ch. acc * 16 + hex_value ch) 0 ds"

lemma nibble_bound: "unat (nibble v i) < 16"
proof -
  have "nibble v i \<le> 0xf" by (simp add: nibble_def word_and_le1)
  then show ?thesis by (simp add: word_le_nat_alt)
qed

lemma hex_value_digit:
  assumes "n < 16" shows "hex_value (intToHex ! n) = of_nat n"
proof -
  have "n \<in> set [0..<16]" using assms by simp
  moreover have "list_all (\<lambda>n. hex_value (intToHex ! n) = of_nat n) [0..<16]"
    by (simp add: hex_value_def intToHex_def upt_rec)
  ultimately show ?thesis by (simp only: list_all_iff)
qed

lemma hex_value_nibble: "hex_value (intToHex ! unat (nibble v i)) = nibble v i"
  by (simp add: hex_value_digit nibble_bound)

lemma shift_nibble:
  "drop_bit n v = (drop_bit (n + 4) v) * 16 + (drop_bit n v AND 0xf)" for v :: u64
proof -
  have "drop_bit (n + 4) v = drop_bit 4 (drop_bit n v)" by (simp add: add.commute)
  also have "\<dots> = drop_bit n v div 16" by (simp add: drop_bit_eq_div)
  finally have "drop_bit (n + 4) v * 16 = drop_bit n v div 16 * 16" by simp
  moreover have "drop_bit n v AND 0xf = drop_bit n v mod 16"
    using take_bit_eq_mask [of 4 "drop_bit n v"] take_bit_eq_mod [of 4 "drop_bit n v"]
    by (simp add: mask_eq_exp_minus_1)
  ultimately show ?thesis by (metis div_mult_mod_eq)
qed

lemma horner_nibbles:
  "n \<le> 16 \<Longrightarrow> foldl (\<lambda>acc i. acc * 16 + nibble v i) 0 [0..<n] = drop_bit ((16 - n) * 4) v"
proof (induction n)
  case 0
  then show ?case by (auto intro: bit_word_eqI simp: bit_drop_bit_eq dest: bit_imp_le_length)
next
  case (Suc n)
  let ?k = "(16 - Suc n) * 4"
  have k: "(16 - n) * 4 = ?k + 4" "(15 - n) * 4 = ?k" using Suc.prems by auto
  have "foldl (\<lambda>acc i. acc * 16 + nibble v i) 0 [0..<Suc n] = drop_bit ((16 - n) * 4) v * 16 + nibble v n"
    using Suc by simp
  also have "\<dots> = drop_bit ?k v" by (simp only: k nibble_def shift_nibble [symmetric])
  finally show ?case .
qed

lemma from_hex_hex16: "from_hex (hex16 v) = v"
  using horner_nibbles [of 16 v]
  by (simp only: from_hex_def hex16_def foldl_map hex_value_nibble) simp

section \<open>\<open>GenRandom\<close>\<close>

definition alphanum :: string where
  "alphanum = ''0123456789'' @ ''ABCDEFGHIJKLMNOPQRSTUVWXYZ'' @ ''abcdefghijklmnopqrstuvwxyz''"

fun GenRandom_loop :: "(nat \<Rightarrow> u64) \<Rightarrow> nat \<Rightarrow> nat \<Rightarrow> string \<Rightarrow> string" where
  "GenRandom_loop rng i 0 out = out"
| "GenRandom_loop rng i (Suc n) out =
     GenRandom_loop rng (Suc i) n
       (out @ [alphanum ! unat (rng i mod of_nat (length alphanum))])"

definition GenRandom_into :: "(nat \<Rightarrow> u64) \<Rightarrow> nat \<Rightarrow> string \<Rightarrow> string" where
  "GenRandom_into rng n out = GenRandom_loop rng 0 n out"

definition GenRandom :: "(nat \<Rightarrow> u64) \<Rightarrow> nat \<Rightarrow> string" where
  "GenRandom rng n = GenRandom_into rng n []"

lemma length_alphanum: "length alphanum = 62"
  by (simp add: alphanum_def)

lemma alphanum_index: "unat (x mod of_nat (length alphanum) :: u64) < length alphanum"
  by (simp add: length_alphanum unat_mod_distrib)

lemma GenRandom_loop_eq:
  "GenRandom_loop rng i n out =
     out @ map (\<lambda>j. alphanum ! unat (rng j mod of_nat (length alphanum))) [i..<i + n]"
  by (induction n arbitrary: i out) (auto simp: upt_conv_Cons simp del: upt_Suc)

text \<open>Exactly the requested number of characters, each a letter or a digit.\<close>

lemma GenRandom_alphabet: "length (GenRandom rng n) = n" "set (GenRandom rng n) \<subseteq> set alphanum"
  using alphanum_index by (auto simp: GenRandom_def GenRandom_into_def GenRandom_loop_eq)

section \<open>\<open>OnRet\<close>\<close>

text \<open>The guard runs its callback when the scope is left, however it is left.\<close>

definition OnRet :: "('s \<Rightarrow> 's) \<Rightarrow> ('s \<Rightarrow> 'a \<times> 's) \<Rightarrow> 's \<Rightarrow> 'a \<times> 's" where
  "OnRet cb body s = (case body s of (r, s') \<Rightarrow> (r, cb s'))"

end
