(* ===== verification/IPCNode.thy ===== *)
theory IPCNode
  imports ManagerRefinement Utils
begin

text \<open>
  \<open>lib/IPCNode.h\<close> and \<open>lib/IPCNode.cc\<close>: the user's handle. It owns a \<open>TopologyManager\<close>,
  mirrors what that manager reports in a table of neighbours, sends datagrams to the
  neighbours subscribed to a topic, and passes received datagrams to the local callback of
  their topic. \<open>in_out\<close> records the \<open>sendto\<close> calls (address, payload) and \<open>in_delivered\<close> the
  calls of user callbacks, both in order. \<open>serialize\<close> and \<open>parse\<close> stand for the generated
  \<open>SerializeToString\<close> and \<open>ParseFromArray\<close> of \<open>MetadataMessage\<close>.
\<close>

section \<open>State\<close>

record IPCNeighbor =
  nb_name :: string
  nb_id :: u64
  nb_path :: string
  nb_subscriptions :: "string list"
  nb_address :: string        \<comment> \<open>\<open>address.sun_path\<close>\<close>

text \<open>A user callback is named by a number; \<open>None\<close> is an empty \<open>std::function\<close>.\<close>

type_synonym callback = "nat option"

record IPCNode =
  in_nodes :: "(u64 \<times> IPCNeighbor) list"
  in_subscriptions :: "string \<rightharpoonup> callback"
  in_manager :: TopologyManager
  in_out :: "(string \<times> bytes) list"
  in_delivered :: "(nat \<times> bytes) list"

definition new_IPCNeighbor :: IPCNeighbor where
  "new_IPCNeighbor = \<lparr>nb_name = [], nb_id = 0, nb_path = [], nb_subscriptions = [],
                      nb_address = zero_path\<rparr>"

section \<open>Topology callbacks\<close>

definition OnJoin :: "NodeChange \<Rightarrow> IPCNode \<Rightarrow> IPCNode res" where
  "OnJoin msg n =
     (let nodes = emplace (nc_id msg) new_IPCNeighbor (in_nodes n);
          nb = the (map_of nodes (nc_id msg));
          nb = nb\<lparr>nb_name := nc_name msg, nb_id := nc_id msg, nb_path := nc_address msg\<rparr>
      in bind_res (copy_path (nc_address msg) zero_path) (\<lambda>p.
         Inr (n\<lparr>in_nodes := AList.update (nc_id msg) (nb\<lparr>nb_address := p\<rparr>) nodes\<rparr>)))"

definition OnLeave :: "NodeChange \<Rightarrow> IPCNode \<Rightarrow> IPCNode res" where
  "OnLeave msg n = Inr (n\<lparr>in_nodes := AList.delete (nc_id msg) (in_nodes n)\<rparr>)"

definition OnAnnounce :: "TopicChange \<Rightarrow> IPCNode \<Rightarrow> IPCNode res" where
  "OnAnnounce msg n = Inr n"

definition OnRetract :: "TopicChange \<Rightarrow> IPCNode \<Rightarrow> IPCNode res" where
  "OnRetract msg n = Inr n"

definition OnSubscribe :: "TopicChange \<Rightarrow> IPCNode \<Rightarrow> IPCNode res" where
  "OnSubscribe msg n =
     (let inserted = (map_of (in_nodes n) (tc_node_id msg) = None);
          nodes = emplace (tc_node_id msg) (new_IPCNeighbor\<lparr>nb_id := tc_node_id msg\<rparr>) (in_nodes n);
          nb = the (map_of nodes (tc_node_id msg));
          nb = nb\<lparr>nb_subscriptions := set_emplace (tc_name msg) (nb_subscriptions nb)\<rparr>
      in Inr (n\<lparr>in_nodes := AList.update (tc_node_id msg) nb nodes\<rparr>))"

definition OnUnsubscribe :: "TopicChange \<Rightarrow> IPCNode \<Rightarrow> IPCNode res" where
  "OnUnsubscribe msg n =
     (case map_of (in_nodes n) (tc_node_id msg) of
        None \<Rightarrow> Inr n
      | Some nb \<Rightarrow>
          (let nb = nb\<lparr>nb_subscriptions := set_erase (tc_name msg) (nb_subscriptions nb)\<rparr>
           in Inr (n\<lparr>in_nodes := AList.update (tc_node_id msg) nb (in_nodes n)\<rparr>)))"

text \<open>The six lambdas the constructor passes to its \<open>TopologyManager\<close>.\<close>

fun on_notification :: "notification \<Rightarrow> IPCNode \<Rightarrow> IPCNode res" where
  "on_notification (Call_onJoin c) n = OnJoin c n"
| "on_notification (Call_onLeave c) n = OnLeave c n"
| "on_notification (Call_onAnnounce c) n = OnAnnounce c n"
| "on_notification (Call_onRetract c) n = OnRetract c n"
| "on_notification (Call_onSubscribe c) n = OnSubscribe c n"
| "on_notification (Call_onUnsubscribe c) n = OnUnsubscribe c n"

text \<open>
  One update as the manager's client thread performs it: \<open>ApplyUpdate\<close> makes its callbacks
  while it runs; they touch the node's fields only.
\<close>

definition deliver_update :: "TopologyMessage \<Rightarrow> IPCNode \<Rightarrow> IPCNode res" where
  "deliver_update msg n =
     bind_res (ApplyUpdate all_handlers msg (in_manager n)) (\<lambda>m.
     feed on_notification (drop (length (tm_calls (in_manager n))) (tm_calls m))
       (n\<lparr>in_manager := m\<rparr>))"

section \<open>Publishing and subscribing\<close>

fun publish_to :: "string \<Rightarrow> bytes \<Rightarrow> (u64 \<times> IPCNeighbor) list \<Rightarrow> (string \<times> bytes) list" where
  "publish_to topic blob [] = []"
| "publish_to topic blob ((i, node) # rest) =
     (if topic \<notin> set (nb_subscriptions node) then publish_to topic blob rest
      else if nb_path node = [] then publish_to topic blob rest
      else (nb_address node, blob) # publish_to topic blob rest)"

definition Publish :: "(MetadataMessage \<Rightarrow> bytes) \<Rightarrow> string \<Rightarrow> bytes \<Rightarrow> IPCNode \<Rightarrow> IPCNode" where
  "Publish serialize topic data n =
     (let blob = serialize \<lparr>mm_topic = topic, mm_inlined = data\<rparr>
      in n\<lparr>in_out := in_out n @ publish_to topic blob (in_nodes n)\<rparr>)"

definition on_manager :: "(TopologyManager \<Rightarrow> TopologyManager res) \<Rightarrow> IPCNode \<Rightarrow> IPCNode res" where
  "on_manager f n = bind_res (f (in_manager n)) (\<lambda>m. Inr (n\<lparr>in_manager := m\<rparr>))"

definition node_Announce :: "int \<Rightarrow> string \<Rightarrow> string \<Rightarrow> IPCNode \<Rightarrow> IPCNode res" where
  "node_Announce ret topic mime = on_manager (Announce ret topic mime)"

definition node_Retract :: "int \<Rightarrow> string \<Rightarrow> IPCNode \<Rightarrow> IPCNode res" where
  "node_Retract ret topic = on_manager (Retract ret topic)"

definition node_Unsubscribe :: "int \<Rightarrow> string \<Rightarrow> IPCNode \<Rightarrow> IPCNode res" where
  "node_Unsubscribe ret topic = on_manager (Unsubscribe ret topic)"

definition node_Subscribe :: "int \<Rightarrow> string \<Rightarrow> callback \<Rightarrow> IPCNode \<Rightarrow> IPCNode res" where
  "node_Subscribe ret topic cb n =
     bind_res (on_manager (Subscribe ret topic) n) (\<lambda>n.
     Inr (n\<lparr>in_subscriptions := (in_subscriptions n)(topic \<mapsto> cb)\<rparr>))"

section \<open>Receiving\<close>

definition node_OnData :: "(bytes \<Rightarrow> bool \<times> MetadataMessage) \<Rightarrow> bytes \<Rightarrow> IPCNode \<Rightarrow> IPCNode res" where
  "node_OnData parse data n =
     (case parse data of (ok, msg) \<Rightarrow>
        if \<not> ok then Inr n
        else
          case in_subscriptions n (mm_topic msg) of
            None \<Rightarrow> Inr n
          | Some cb \<Rightarrow>
              if mm_inlined msg \<noteq> [] then
                case cb of
                  None \<Rightarrow> Inl Bad_function_call
                | Some f \<Rightarrow> Inr (n\<lparr>in_delivered := in_delivered n @ [(f, mm_inlined msg)]\<rparr>)
              else Inr n)"

datatype node_poll = Node_poll_failed | Node_poll u16 u16 read_result

definition node_iteration ::
  "(bytes \<Rightarrow> bool \<times> MetadataMessage) \<Rightarrow> node_poll \<Rightarrow> IPCNode \<Rightarrow> (int option \<times> IPCNode) res" where
  "node_iteration parse it n = (case it of
      Node_poll_failed \<Rightarrow> Inr (Some (-1), n)
    | Node_poll shutdown revents r \<Rightarrow>
        if shutdown \<noteq> 0 then Inr (Some 0, n)
        else if revents = 0 then Inr (None, n)
        else if has_flag revents POLLERR then Inr (Some (-1), n)
        else if has_flag revents POLLNVAL then Inr (Some (-1), n)
        else if has_flag revents POLLIN then
          (case r of
             Read_error \<Rightarrow> Inr (None, n)
           | Read_record b \<Rightarrow>
               bind_res (node_OnData parse (read_into UINT16_MAX b) n) (\<lambda>n. Inr (None, n)))
        else Inr (None, n))"

text \<open>\<open>Some r\<close>: the loop returned \<open>r\<close>; \<open>None\<close>: it is blocked in \<open>poll\<close>.\<close>

fun node_MainLoop ::
  "(bytes \<Rightarrow> bool \<times> MetadataMessage) \<Rightarrow> node_poll list \<Rightarrow> IPCNode \<Rightarrow> (int option \<times> IPCNode) res" where
  "node_MainLoop parse [] n = Inr (None, n)"
| "node_MainLoop parse (it # its) n =
     bind_res (node_iteration parse it n) (\<lambda>(ret, n).
       case ret of
         None \<Rightarrow> node_MainLoop parse its n
       | Some r \<Rightarrow> Inr (Some r, n))"

section \<open>\<open>Create\<close>\<close>

text \<open>
  The data path is a zero byte and sixteen hexadecimal digits. \<open>name\<close> is a local variable
  that nothing initialises, so the bytes of its \<open>sun_path\<close> before the copy are a parameter.
\<close>

definition data_path :: "u64 \<Rightarrow> string" where
  "data_path v = NUL # hex16 v"

definition bind_address :: "string \<Rightarrow> string \<Rightarrow> string res" where
  "bind_address uninitialised dataPath =
     bind_res (copy_path dataPath uninitialised) (\<lambda>p.
     if length dataPath < length p then Inr (p[length dataPath := NUL]) else Inl Buffer_overflow)"

definition IPCNode_init :: "string \<Rightarrow> string \<Rightarrow> u64 \<Rightarrow> string \<Rightarrow> IPCNode" where
  "IPCNode_init groupName nodeName nodeId dataPath =
     \<lparr>in_nodes = [], in_subscriptions = Map.empty,
      in_manager = TopologyManager_init groupName nodeName nodeId dataPath,
      in_out = [], in_delivered = []\<rparr>"

text \<open>
  What the system calls of \<open>Create\<close> return. The result is the node with the descriptors it owns
  and the address it is bound to, and the descriptors left open that no object owns.
\<close>

record node_create_results =
  ncr_eventfd :: int
  ncr_outSock :: int
  ncr_listenSock :: int
  ncr_bind :: int

record node_fds =
  nf_shutdownFd :: int
  nf_inputFd :: int
  nf_outFd :: int
  nf_bound :: string    \<comment> \<open>the \<open>sun_path\<close> given to \<open>bind\<close>\<close>

definition IPCNode_Create ::
  "string \<Rightarrow> string \<Rightarrow> u64 \<Rightarrow> u64 \<Rightarrow> string \<Rightarrow> node_create_results \<Rightarrow> ((node_fds \<times> IPCNode) option \<times> fd list) res"
  where
  "IPCNode_Create groupName nodeName nodeId number uninitialised r =
     (let shutdownFd = ncr_eventfd r;
          opened = (if shutdownFd = -1 then [] else [shutdownFd]);
          dataPath = data_path number;
          outSock = ncr_outSock r
      in if outSock < 0 then Inr (None, opened)
      else
        let opened = opened @ [outSock]; listenSock = ncr_listenSock r
        in if listenSock < 0 then Inr (None, opened)
        else
          let opened = opened @ [listenSock]
          in bind_res (bind_address uninitialised dataPath) (\<lambda>name.
             if ncr_bind r \<noteq> 0 then Inr (None, opened)
             else Inr (Some (\<lparr>nf_shutdownFd = shutdownFd, nf_inputFd = listenSock, nf_outFd = outSock,
                              nf_bound = name\<rparr>,
                            IPCNode_init groupName nodeName nodeId dataPath), [])))"

text \<open>The descriptors that are open after the destructor, once its join has returned.\<close>

definition IPCNode_destroy :: "node_fds \<Rightarrow> fd list \<Rightarrow> fd list" where
  "IPCNode_destroy f opened =
     removeAll (nf_shutdownFd f) (removeAll (nf_outFd f) (removeAll (nf_inputFd f) opened))"

end
