(* ===== verification/NodeMirror.thy ===== *)
theory NodeMirror
  imports IPCNode
begin

text \<open>
  The table of neighbours follows the manager's table of nodes: \<open>IPCNode\<close>'s callbacks satisfy
  the contract \<open>topology_listener\<close>, so after any log of updates the neighbours are the joined
  nodes with their subscriptions and addresses, and \<open>Publish\<close> reaches the subscribers.
\<close>

section \<open>Invariant\<close>

definition path_address :: "string \<Rightarrow> string" where
  "path_address p = p @ replicate (sun_path_size - length p) NUL"

definition neighbour_ok :: "u64 \<Rightarrow> IPCNeighbor \<Rightarrow> bool" where
  "neighbour_ok i nb \<longleftrightarrow> nb_id nb = i \<and> length (nb_path nb) \<le> sun_path_size \<and>
     nb_address nb = path_address (nb_path nb) \<and> distinct (nb_subscriptions nb)"

definition node_inv :: "IPCNode \<Rightarrow> bool" where
  "node_inv n \<longleftrightarrow> distinct (map fst (in_nodes n)) \<and>
     list_all (\<lambda>(i, nb). neighbour_ok i nb) (in_nodes n)"

definition nbr_subs :: "IPCNode \<Rightarrow> u64 \<rightharpoonup> string set" where
  "nbr_subs n = (\<lambda>i. map_option (\<lambda>nb. set (nb_subscriptions nb)) (map_of (in_nodes n) i))"

definition nbr_path :: "IPCNode \<Rightarrow> u64 \<rightharpoonup> string" where
  "nbr_path n = (\<lambda>i. map_option nb_path (map_of (in_nodes n) i))"

lemma node_inv_lookup: "node_inv n \<Longrightarrow> map_of (in_nodes n) i = Some nb \<Longrightarrow> neighbour_ok i nb"
  by (auto simp: node_inv_def list_all_iff dest: map_of_SomeD)

lemma node_inv_update:
  "node_inv n \<Longrightarrow> neighbour_ok i nb \<Longrightarrow> node_inv (n\<lparr>in_nodes := AList.update i nb (in_nodes n)\<rparr>)"
  by (auto simp: node_inv_def distinct_update intro!: list_all_update)

lemma emplaced_lookup:
  "the (map_of (emplace i nb0 al) i) = (case map_of al i of None \<Rightarrow> nb0 | Some nb \<Rightarrow> nb)"
  by (auto simp: map_of_emplace split: option.splits)

section \<open>The callbacks satisfy the contract\<close>

lemma OnJoin_law:
  assumes ok: "node_inv n" and fits: "length (nc_address c) \<le> sun_path_size"
  shows "outcome {} (\<lambda>n'. node_inv n' \<and> nbr_path n' = (nbr_path n)(nc_id c \<mapsto> nc_address c) \<and>
      nbr_subs n' = (if nbr_subs n (nc_id c) = None then (nbr_subs n)(nc_id c \<mapsto> {}) else nbr_subs n))
    (OnJoin c n)"
proof -
  let ?i = "nc_id c"
  let ?old = "case map_of (in_nodes n) ?i of None \<Rightarrow> new_IPCNeighbor | Some nb \<Rightarrow> nb"
  let ?nb = "?old\<lparr>nb_name := nc_name c, nb_id := ?i, nb_path := nc_address c,
      nb_address := path_address (nc_address c)\<rparr>"
  have "distinct (nb_subscriptions ?old)"
    using node_inv_lookup [OF ok] by (auto simp: neighbour_ok_def new_IPCNeighbor_def split: option.splits)
  then have nb: "neighbour_ok ?i ?nb" using fits by (simp add: neighbour_ok_def)
  have "OnJoin c n = Inr (n\<lparr>in_nodes := AList.update ?i ?nb (in_nodes n)\<rparr>)"
    by (simp add: OnJoin_def Let_def copy_zero_path [OF fits] emplaced_lookup path_address_def)
  with node_inv_update [OF ok nb] show ?thesis
    by (auto simp: nbr_path_def nbr_subs_def update_conv fun_eq_iff new_IPCNeighbor_def
        split: option.splits)
qed

lemma OnLeave_law:
  "node_inv n \<Longrightarrow> outcome {} (\<lambda>n'. node_inv n' \<and> nbr_path n' = (nbr_path n)(nc_id c := None) \<and>
     nbr_subs n' = (nbr_subs n)(nc_id c := None)) (OnLeave c n)"
  by (auto simp: OnLeave_def node_inv_def nbr_path_def nbr_subs_def delete_conv fun_eq_iff
      distinct_delete_keys list_all_delete)

lemma OnSubscribe_law:
  assumes ok: "node_inv n" and S: "nbr_subs n (tc_node_id c) = Some S"
  shows "outcome {} (\<lambda>n'. node_inv n' \<and> nbr_path n' = nbr_path n \<and>
      nbr_subs n' = (nbr_subs n)(tc_node_id c \<mapsto> insert (tc_name c) S)) (OnSubscribe c n)"
proof -
  obtain nb where nb: "map_of (in_nodes n) (tc_node_id c) = Some nb" "S = set (nb_subscriptions nb)"
    using S by (auto simp: nbr_subs_def)
  let ?nb = "nb\<lparr>nb_subscriptions := set_emplace (tc_name c) (nb_subscriptions nb)\<rparr>"
  have "neighbour_ok (tc_node_id c) ?nb"
    using node_inv_lookup [OF ok nb(1)] by (simp add: neighbour_ok_def)
  from node_inv_update [OF ok this] nb show ?thesis
    by (auto simp: OnSubscribe_def Let_def emplace_old nbr_path_def nbr_subs_def update_conv fun_eq_iff)
qed

lemma OnUnsubscribe_law:
  assumes ok: "node_inv n" and S: "nbr_subs n (tc_node_id c) = Some S"
  shows "outcome {} (\<lambda>n'. node_inv n' \<and> nbr_path n' = nbr_path n \<and>
      nbr_subs n' = (nbr_subs n)(tc_node_id c \<mapsto> S - {tc_name c})) (OnUnsubscribe c n)"
proof -
  obtain nb where nb: "map_of (in_nodes n) (tc_node_id c) = Some nb" "S = set (nb_subscriptions nb)"
    using S by (auto simp: nbr_subs_def)
  let ?nb = "nb\<lparr>nb_subscriptions := set_erase (tc_name c) (nb_subscriptions nb)\<rparr>"
  have "neighbour_ok (tc_node_id c) ?nb"
    using node_inv_lookup [OF ok nb(1)] by (simp add: neighbour_ok_def)
  from node_inv_update [OF ok this] nb show ?thesis
    by (auto simp: OnUnsubscribe_def Let_def nbr_path_def nbr_subs_def update_conv fun_eq_iff)
qed

interpretation neighbours: topology_listener on_notification nbr_subs nbr_path node_inv
  by unfold_locales
    (simp_all add: OnJoin_law OnLeave_law OnSubscribe_law OnUnsubscribe_law OnAnnounce_def OnRetract_def)

section \<open>A node that applies a log of updates\<close>

definition node_sys :: "IPCNode \<Rightarrow> bool" where
  "node_sys n \<longleftrightarrow> mgr_ok (in_manager n) \<and> neighbours.mirrors n (in_manager n)"

lemma observe_manager [simp]:
  "node_inv (n\<lparr>in_manager := m\<rparr>) = node_inv n"
  "nbr_subs (n\<lparr>in_manager := m\<rparr>) = nbr_subs n"
  "nbr_path (n\<lparr>in_manager := m\<rparr>) = nbr_path n"
  by (simp_all add: node_inv_def nbr_subs_def nbr_path_def)

lemma on_notification_manager: "on_notification x n = Inr n' \<Longrightarrow> in_manager n' = in_manager n"
  by (cases x) (auto simp: OnJoin_def OnLeave_def OnAnnounce_def OnRetract_def OnSubscribe_def
      OnUnsubscribe_def Let_def bind_res_eq_Inr split: option.splits)

lemma feed_notification_manager: "feed on_notification xs n = Inr n' \<Longrightarrow> in_manager n' = in_manager n"
  by (induction xs arbitrary: n) (auto simp: bind_res_eq_Inr dest: on_notification_manager)

definition delivered_ok :: "TopologyMessage \<Rightarrow> IPCNode \<Rightarrow> IPCNode \<Rightarrow> bool" where
  "delivered_ok msg n n' \<longleftrightarrow> node_sys n' \<and>
     abs_topology (in_manager n') = topology_step msg (abs_topology (in_manager n)) \<and>
     (same_address msg (in_manager n) \<and> nbr_path n = mgr_path (in_manager n) \<longrightarrow>
       nbr_path n' = mgr_path (in_manager n'))"

lemma deliver_update_outcome:
  assumes sys: "node_sys n" and fits: "address_fits msg"
  shows "outcome {} (delivered_ok msg n) (deliver_update msg n)"
proof -
  let ?m = "in_manager n"
  have ok: "mgr_ok ?m" and mir: "neighbours.mirrors n ?m" using sys by (auto simp: node_sys_def)
  have "outcome {} (applied msg ?m) (ApplyUpdate all_handlers msg ?m)"
    using ApplyUpdate_outcome [OF ok, of all_handlers msg] by (simp add: manager_faults_def all_handlers_def)
  then obtain m' where run: "ApplyUpdate all_handlers msg ?m = Inr m'" and app: "applied msg ?m m'"
    by (auto simp: outcome_total)
  have lock: "\<not> tm_locked ?m" using ok by (simp add: mgr_ok_def)
  have "neighbours.mirrors (n\<lparr>in_manager := m'\<rparr>) ?m"
    using mir by (simp add: neighbours.mirrors_def)
  from neighbours.ApplyUpdate_followed [OF this lock run fits]
  obtain ns n' where calls: "tm_calls m' = tm_calls ?m @ ns"
    and fed: "feed on_notification ns (n\<lparr>in_manager := m'\<rparr>) = Inr n'"
    and n': "neighbours.mirrors n' m'"
      "same_address msg ?m \<and> nbr_path n = mgr_path ?m \<longrightarrow> nbr_path n' = mgr_path m'"
    by (auto simp: neighbours.follows_def outcome_total)
  have "in_manager n' = m'" using feed_notification_manager [OF fed] by simp
  moreover have "deliver_update msg n = Inr n'" by (simp add: deliver_update_def run calls fed)
  ultimately show ?thesis using n' app by (simp add: delivered_ok_def node_sys_def applied_def)
qed

text \<open>
  \<open>stable_addresses\<close>: along the log, a node that joins while it is in the topology does so
  under the address it is known by.
\<close>

fun stable_addresses :: "TopologyMessage list \<Rightarrow> topology \<Rightarrow> bool" where
  "stable_addresses [] V = True"
| "stable_addresses (m # ms) V =
     ((joins m \<longrightarrow> (case V (nc_id (node_change m)) of
        None \<Rightarrow> True | Some v \<Rightarrow> nv_address v = nc_address (node_change m))) \<and>
      stable_addresses ms (topology_step m V))"

lemma same_address_abs:
  "same_address msg m \<longleftrightarrow> (joins msg \<longrightarrow> (case abs_topology m (nc_id (node_change msg)) of
     None \<Rightarrow> True | Some v \<Rightarrow> nv_address v = nc_address (node_change msg)))"
  by (auto simp: same_address_def abs_topology_def abs_node_def split: option.splits)

lemma deliver_log:
  assumes "node_sys n" "\<forall>msg\<in>set ms. address_fits msg"
  shows "outcome {} (\<lambda>n'. node_sys n' \<and>
      abs_topology (in_manager n') = fold topology_step ms (abs_topology (in_manager n)) \<and>
      (stable_addresses ms (abs_topology (in_manager n)) \<and> nbr_path n = mgr_path (in_manager n) \<longrightarrow>
        nbr_path n' = mgr_path (in_manager n')))
    (feed deliver_update ms n)"
  using assms
proof (induction ms arbitrary: n)
  case Nil
  then show ?case by simp
next
  case (Cons msg ms)
  have "outcome {} (\<lambda>n'. node_sys n' \<and>
      abs_topology (in_manager n') = fold topology_step (msg # ms) (abs_topology (in_manager n)) \<and>
      (stable_addresses (msg # ms) (abs_topology (in_manager n)) \<and> nbr_path n = mgr_path (in_manager n) \<longrightarrow>
        nbr_path n' = mgr_path (in_manager n')))
    (feed deliver_update ms n1)" if "delivered_ok msg n n1" for n1
    using that Cons.prems(2)
    by (intro outcome_mono [OF Cons.IH [of n1]]) (auto simp: delivered_ok_def same_address_abs)
  with deliver_update_outcome [OF Cons.prems(1)] Cons.prems(2) show ?case
    by (auto intro: outcome_bind)
qed

lemma IPCNode_init_sys [simp]:
  "node_sys (IPCNode_init g nm i p)" "abs_topology (in_manager (IPCNode_init g nm i p)) = Map.empty"
  "nbr_path (IPCNode_init g nm i p) = mgr_path (in_manager (IPCNode_init g nm i p))"
  by (auto simp: node_sys_def IPCNode_init_def neighbours.mirrors_def node_inv_def nbr_subs_def
      nbr_path_def mgr_subs_def mgr_path_def TopologyManager_init_def fun_eq_iff)
    (auto simp: TopologyManager_init_def mgr_ok_def abs_topology_def)

lemma mgr_observations:
  "mgr_subs m i = map_option nv_subs (abs_topology m i)"
  "mgr_path m i = map_option nv_address (abs_topology m i)"
  by (cases "tm_nodes m i"; simp add: mgr_subs_def mgr_path_def abs_topology_def abs_node_def)+

section \<open>\<open>Publish\<close>\<close>

definition recipients :: "string \<Rightarrow> IPCNode \<Rightarrow> u64 set" where
  "recipients topic n = {i. \<exists>S p. nbr_subs n i = Some S \<and> topic \<in> S \<and> nbr_path n i = Some p \<and> p \<noteq> []}"

lemma publish_to_eq:
  "publish_to topic blob al =
     map (\<lambda>(i, nb). (nb_address nb, blob))
       (filter (\<lambda>(i, nb). topic \<in> set (nb_subscriptions nb) \<and> nb_path nb \<noteq> []) al)"
  by (induction topic blob al rule: publish_to.induct) (simp_all split: if_splits)

lemma publish_once:
  assumes "node_inv n"
  shows "length (publish_to topic blob (in_nodes n)) = card (recipients topic n)"
    and "set (publish_to topic blob (in_nodes n)) =
      {(path_address p, blob) |i p. i \<in> recipients topic n \<and> nbr_path n i = Some p}"
proof -
  let ?P = "\<lambda>(i, nb). topic \<in> set (nb_subscriptions nb) \<and> nb_path nb \<noteq> []"
  let ?al = "filter ?P (in_nodes n)"
  have dist: "distinct (map fst (in_nodes n))" using assms by (simp add: node_inv_def)
  have lookup: "(i, nb) \<in> set (in_nodes n) \<longleftrightarrow> map_of (in_nodes n) i = Some nb" for i nb
    using dist by simp
  have ids: "recipients topic n = set (map fst ?al)"
    by (force simp: recipients_def nbr_subs_def nbr_path_def lookup)
  have "card (set (map fst ?al)) = length (map fst ?al)"
    using dist by (intro distinct_card distinct_map_filter)
  then show "length (publish_to topic blob (in_nodes n)) = card (recipients topic n)"
    by (simp add: publish_to_eq ids)
  show "set (publish_to topic blob (in_nodes n)) =
      {(path_address p, blob) |i p. i \<in> recipients topic n \<and> nbr_path n i = Some p}"
    using node_inv_lookup [OF assms]
    by (force simp: publish_to_eq recipients_def nbr_subs_def nbr_path_def lookup neighbour_ok_def)
qed

end
