(* ===== verification/NodeProperties.thy ===== *)
theory NodeProperties
  imports NodeMirror
begin

text \<open>
  The properties of \<open>lib/IPCNode.cc\<close> and of the helpers in \<open>lib/Utils.cc\<close> it names its
  socket with: whom a publication reaches, what is delivered to the user's callbacks, and
  where the mirror of the topology and the socket addresses go wrong.
\<close>

section \<open>Publishing\<close>

lemma publishes_to_topology:
  assumes fits: "\<forall>m\<in>set ms. address_fits m" and stable: "stable_addresses ms Map.empty"
  shows "\<exists>n out. feed deliver_update ms (IPCNode_init groupName nodeName nodeId dataPath) = Inr n \<and>
    in_out (Publish serialize topic data n) = in_out n @ out \<and>
    set out = {(path_address (nv_address v), serialize \<lparr>mm_topic = topic, mm_inlined = data\<rparr>) |i v.
      topology ms i = Some v \<and> topic \<in> nv_subs v \<and> nv_address v \<noteq> []} \<and>
    length out = card {i. \<exists>v. topology ms i = Some v \<and> topic \<in> nv_subs v \<and> nv_address v \<noteq> []}"
proof -
  let ?n0 = "IPCNode_init groupName nodeName nodeId dataPath"
  let ?blob = "serialize \<lparr>mm_topic = topic, mm_inlined = data\<rparr>"
  have "outcome {} (\<lambda>n'. node_sys n' \<and>
      abs_topology (in_manager n') = fold topology_step ms (abs_topology (in_manager ?n0)) \<and>
      (stable_addresses ms (abs_topology (in_manager ?n0)) \<and> nbr_path ?n0 = mgr_path (in_manager ?n0) \<longrightarrow>
        nbr_path n' = mgr_path (in_manager n')))
    (feed deliver_update ms ?n0)"
    by (rule deliver_log [OF _ fits]) simp
  then obtain n where run: "feed deliver_update ms ?n0 = Inr n" and sys: "node_sys n"
    and abs: "abs_topology (in_manager n) = topology ms"
    and path: "nbr_path n = mgr_path (in_manager n)"
    using stable topology_append [of "[]" ms] by (auto simp: outcome_total)
  have inv: "node_inv n" and subs: "nbr_subs n = mgr_subs (in_manager n)"
    using sys by (auto simp: node_sys_def neighbours.mirrors_def)
  have obs: "nbr_subs n i = map_option nv_subs (topology ms i)"
      "nbr_path n i = map_option nv_address (topology ms i)" for i
    by (simp_all add: subs path mgr_observations abs)
  have rec: "recipients topic n = {i. \<exists>v. topology ms i = Some v \<and> topic \<in> nv_subs v \<and> nv_address v \<noteq> []}"
    by (auto simp: recipients_def obs)
  have "set (publish_to topic ?blob (in_nodes n)) =
      {(path_address (nv_address v), ?blob) |i v.
        topology ms i = Some v \<and> topic \<in> nv_subs v \<and> nv_address v \<noteq> []}"
    unfolding publish_once(2) [OF inv] rec by (auto simp: obs; metis)
  with publish_once(1) [OF inv, of topic ?blob] rec run show ?thesis
    by (simp add: Publish_def Let_def)
qed

text \<open>
  A node that has been given any log of topology updates (with addresses that fit a socket
  address and do not change while a node is joined) publishes to exactly the nodes that the
  topology of the log has as subscribers of the topic under a non-empty address: one datagram
  each, to that address, with the serialised message.
\<close>

lemma publish_reaches_subscribers:
  assumes fits: "\<forall>m\<in>set ms. address_fits m" and stable: "stable_addresses ms Map.empty"
  shows "\<exists>n out. feed deliver_update ms (IPCNode_init groupName nodeName nodeId dataPath) = Inr n \<and>
    in_out (Publish serialize topic data n) = in_out n @ out \<and>
    set out = {(path_address (nv_address v), serialize \<lparr>mm_topic = topic, mm_inlined = data\<rparr>) |i v.
      topology ms i = Some v \<and> topic \<in> nv_subs v \<and> nv_address v \<noteq> []} \<and>
    length out = card {i. \<exists>v. topology ms i = Some v \<and> topic \<in> nv_subs v \<and> nv_address v \<noteq> []}"
  by (rule publishes_to_topology [OF fits stable])

definition sample_updates :: "TopologyMessage list" where
  "sample_updates = [node_msg 1 11 JOIN 7 ''a'' ''x'', topic_msg 2 12 SUBSCRIBE 7 ''t'' [],
     node_msg 3 13 JOIN 8 ''b'' ''y'', topic_msg 4 14 SUBSCRIBE 8 ''u'' []]"

lemma sample_updates_facts [simp]:
  "\<forall>m\<in>set sample_updates. address_fits m" "stable_addresses sample_updates Map.empty"
  by (simp_all add: sample_updates_def address_fits_def sun_path_size_def joins_def topology_step_def
      keyed_step_def msg_key_def topology_cell_def)
    (simp add: node_change_def topic_msg_def default_NodeChange_def)

lemma publish_reaches_subscribers_witness:
  "\<exists>n out. feed deliver_update sample_updates (IPCNode_init ''g'' ''n'' 9 ''p'') = Inr n \<and>
    in_out (Publish mm_inlined ''t'' [1] n) = in_out n @ out \<and>
    set out = {(path_address (nv_address v), mm_inlined \<lparr>mm_topic = ''t'', mm_inlined = [1]\<rparr>) |i v.
      topology sample_updates i = Some v \<and> ''t'' \<in> nv_subs v \<and> nv_address v \<noteq> []} \<and>
    length out = card {i. \<exists>v. topology sample_updates i = Some v \<and> ''t'' \<in> nv_subs v \<and> nv_address v \<noteq> []}"
  by (rule publish_reaches_subscribers) simp_all

section \<open>Receiving\<close>

text \<open>What the loop does, without its control flow: how it ends, and the datagrams it reads.\<close>

definition node_ends :: "node_poll \<Rightarrow> int option" where
  "node_ends it = (case it of
      Node_poll_failed \<Rightarrow> Some (-1)
    | Node_poll shutdown revents r \<Rightarrow>
        if shutdown \<noteq> 0 then Some 0
        else if has_flag revents POLLERR \<or> has_flag revents POLLNVAL then Some (-1) else None)"

definition node_record :: "node_poll \<Rightarrow> bytes list" where
  "node_record it = (case it of
      Node_poll shutdown revents (Read_record b) \<Rightarrow>
        if node_ends it = None \<and> has_flag revents POLLIN then [read_into UINT16_MAX b] else []
    | _ \<Rightarrow> [])"

fun node_result :: "node_poll list \<Rightarrow> int option" where
  "node_result [] = None"
| "node_result (it # its) = (case node_ends it of None \<Rightarrow> node_result its | Some r \<Rightarrow> Some r)"

fun node_received :: "node_poll list \<Rightarrow> bytes list" where
  "node_received [] = []"
| "node_received (it # its) =
     node_record it @ (case node_ends it of None \<Rightarrow> node_received its | Some r \<Rightarrow> [])"

definition deliveries ::
  "(bytes \<Rightarrow> bool \<times> MetadataMessage) \<Rightarrow> (string \<rightharpoonup> callback) \<Rightarrow> bytes \<Rightarrow> (nat \<times> bytes) list" where
  "deliveries parse subs b =
     (case parse b of (ok, msg) \<Rightarrow>
       if ok \<and> mm_inlined msg \<noteq> [] then
         case subs (mm_topic msg) of Some (Some f) \<Rightarrow> [(f, mm_inlined msg)] | _ \<Rightarrow> []
       else [])"

lemma node_OnData_eq:
  assumes "\<forall>t. in_subscriptions n t \<noteq> Some None"
  shows "node_OnData parse b n =
    Inr (n\<lparr>in_delivered := in_delivered n @ deliveries parse (in_subscriptions n) b\<rparr>)"
  using assms by (auto simp: node_OnData_def deliveries_def split: prod.splits option.splits)

lemma node_iteration_eq:
  assumes "\<forall>t. in_subscriptions n t \<noteq> Some None"
  shows "node_iteration parse it n = Inr (node_ends it, n\<lparr>in_delivered := in_delivered n @
    concat (map (deliveries parse (in_subscriptions n)) (node_record it))\<rparr>)"
  using node_OnData_eq [OF assms, of parse]
  by (auto simp: node_iteration_def node_ends_def node_record_def
      split: node_poll.splits read_result.splits)

text \<open>
  C25: The node's thread calls, for every datagram it reads before it ends and in their order,
  the callback of the message's topic with the message's payload, once; datagrams that do not
  parse, that nobody subscribed to or whose payload is empty are passed over. It ends with 0
  on shutdown and -1 on an error of \<open>poll\<close>.
\<close>

theorem node_MainLoop_delivers:
  assumes "\<forall>t. in_subscriptions n t \<noteq> Some None"
  shows "node_MainLoop parse its n = Inr (node_result its, n\<lparr>in_delivered := in_delivered n @
    concat (map (deliveries parse (in_subscriptions n)) (node_received its))\<rparr>)"
  using assms
proof (induction its arbitrary: n)
  case Nil
  then show ?case by simp
next
  case (Cons it its)
  let ?d = "deliveries parse (in_subscriptions n)"
  let ?n = "n\<lparr>in_delivered := in_delivered n @ concat (map ?d (node_record it))\<rparr>"
  have "\<forall>t. in_subscriptions ?n t \<noteq> Some None" using Cons.prems by simp
  from Cons.IH [OF this] node_iteration_eq [OF Cons.prems, of parse it] show ?case
    by (cases "node_ends it") simp_all
qed

lemma node_MainLoop_delivers_witness:
  "node_MainLoop (\<lambda>b. (True, \<lparr>mm_topic = ''t'', mm_inlined = b\<rparr>))
     [Node_poll 0 1 (Read_record [4, 2]), Node_poll 0 1 (Read_record []), Node_poll 1 0 Read_error]
     ((IPCNode_init ''g'' ''n'' 9 ''p'')\<lparr>in_subscriptions := [''t'' \<mapsto> Some 5]\<rparr>) =
   Inr (Some 0, (IPCNode_init ''g'' ''n'' 9 ''p'')\<lparr>in_subscriptions := [''t'' \<mapsto> Some 5],
     in_delivered := [(5, [4, 2])]\<rparr>)"
  by (subst node_MainLoop_delivers)
    (simp_all add: node_ends_def node_record_def deliveries_def poll_flag_defs read_into_def
      UINT16_MAX_def IPCNode_init_def)

section \<open>Updates that break the mirror\<close>

lemma ApplyUpdate_join:
  assumes "mgr_ok m"
  shows "ApplyUpdate all_handlers (node_msg s u JOIN i nm ad) m =
    (let m' = m\<lparr>tm_history := insert_history (node_msg s u JOIN i nm ad) (tm_history m)\<rparr>;
         c = \<lparr>nc_id = i, nc_op = JOIN, nc_name = nm, nc_address = ad\<rparr>
     in case tm_nodes m i of
          None \<Rightarrow> Inr (m'\<lparr>tm_nodes := (tm_nodes m)(i \<mapsto> new_Node c), tm_calls := tm_calls m @ [Call_onJoin c]\<rparr>)
        | Some nd \<Rightarrow>
            if nd_name nd \<noteq> nm \<or> nd_address nd \<noteq> ad
            then Inr (m'\<lparr>tm_calls := tm_calls m @ [Call_onJoin c]\<rparr>) else Inr m')"
proof -
  have lock: "tm_locked m = False" and ids: "\<And>nd. tm_nodes m i = Some nd \<Longrightarrow> nd_id nd = i"
    using assms by (auto simp: mgr_ok_def node_ok_def)
  have unlocked: "m\<lparr>tm_locked := False\<rparr> = m" using lock by (cases m) simp
  show ?thesis
    using ids lock
    by (cases "tm_nodes m i"; cases m)
      (auto simp: ApplyUpdate_def with_lock_def ApplyUpdate_body_def apply_node_change_def Let_def
        notify_def set_node_def all_handlers_def)
qed

text \<open>
  When a joined node joins again under another address, the node's table of neighbours
  moves to the new address while the manager's table keeps the old one: the two disagree from
  then on.
\<close>

lemma changed_join_diverges:
  assumes sys: "node_sys n" and nd: "tm_nodes (in_manager n) i = Some nd"
    and ad: "ad \<noteq> nd_address nd" "length ad \<le> sun_path_size"
  shows "\<exists>n'. deliver_update (node_msg s u JOIN i nm ad) n = Inr n' \<and>
    mgr_path (in_manager n') i = Some (nd_address nd) \<and> nbr_path n' i = Some ad"
proof -
  let ?msg = "node_msg s u JOIN i nm ad"
  let ?c = "\<lparr>nc_id = i, nc_op = JOIN, nc_name = nm, nc_address = ad\<rparr>"
  let ?m = "(in_manager n)\<lparr>tm_history := insert_history ?msg (tm_history (in_manager n)),
    tm_calls := tm_calls (in_manager n) @ [Call_onJoin ?c]\<rparr>"
  have ok: "mgr_ok (in_manager n)" and inv: "node_inv n"
    using sys by (auto simp: node_sys_def neighbours.mirrors_def)
  have run: "ApplyUpdate all_handlers ?msg (in_manager n) = Inr ?m"
    using ApplyUpdate_join [OF ok] nd ad by simp
  have "node_inv (n\<lparr>in_manager := ?m\<rparr>)" using inv by simp
  from OnJoin_law [OF this, of ?c] ad(2) obtain n' where
    join: "OnJoin ?c (n\<lparr>in_manager := ?m\<rparr>) = Inr n'" and path: "nbr_path n' = (nbr_path n)(i \<mapsto> ad)"
    by (auto simp: outcome_total)
  have "in_manager n' = ?m"
    using on_notification_manager [of "Call_onJoin ?c" "n\<lparr>in_manager := ?m\<rparr>" n'] join by simp
  then have "mgr_path (in_manager n') i = Some (nd_address nd)" using nd by (simp add: mgr_path_def)
  with path run join show ?thesis by (simp add: deliver_update_def)
qed

definition joined_node :: IPCNode where
  "joined_node = \<lparr>in_nodes = [(7, \<lparr>nb_name = ''a'', nb_id = 7, nb_path = ''x'',
       nb_subscriptions = [''t''], nb_address = path_address ''x''\<rparr>)],
     in_subscriptions = Map.empty,
     in_manager = (TopologyManager_init ''g'' ''n'' 9 ''p'')\<lparr>tm_nodes := [7 \<mapsto> \<lparr>nd_id = 7,
       nd_name = ''a'', nd_address = ''x'', nd_publications = [], nd_subscriptions = [''t'']\<rparr>]\<rparr>,
     in_out = [], in_delivered = []\<rparr>"

lemma joined_node_sys [simp]: "node_sys joined_node"
  by (auto simp: joined_node_def node_sys_def mgr_ok_def node_ok_def TopologyManager_init_def
      neighbours.mirrors_def node_inv_def neighbour_ok_def sun_path_size_def nbr_subs_def
      mgr_subs_def fun_eq_iff)

lemma changed_join_diverges_witness:
  "\<exists>n'. deliver_update (node_msg 9 9 JOIN 7 ''a'' ''z'') joined_node = Inr n' \<and>
    mgr_path (in_manager n') 7 = Some ''x'' \<and> nbr_path n' 7 = Some ''z''"
  using changed_join_diverges [OF joined_node_sys, of 7 _ "''z''" 9 9 "''a''"]
  by (simp add: joined_node_def sun_path_size_def)

text \<open>
  C39: A JOIN whose address is longer than a socket address can hold is copied past the end of
  the neighbour's \<open>sun_path\<close>; nothing on the way from the hub checks its length.
\<close>

theorem long_address_overflows:
  assumes "mgr_ok (in_manager n)" "tm_nodes (in_manager n) i = None" "sun_path_size < length ad"
  shows "deliver_update (node_msg s u JOIN i nm ad) n = Inl Buffer_overflow"
  using assms(2,3) ApplyUpdate_join [OF assms(1), of s u i nm ad]
  by (simp add: deliver_update_def OnJoin_def Let_def copy_path_def)

lemma long_address_overflows_witness:
  "deliver_update (node_msg 1 1 JOIN 7 ''a'' (replicate 109 CHR ''x'')) (IPCNode_init ''g'' ''n'' 9 ''p'') =
     Inl Buffer_overflow"
  by (rule long_address_overflows)
    (simp_all add: IPCNode_init_def TopologyManager_init_def sun_path_size_def mgr_ok_def)


section \<open>Addresses\<close>

lemma path_address_data_path:
  "path_address (data_path v) = data_path v @ replicate 91 NUL"
  by (simp add: path_address_def data_path_def sun_path_size_def)

lemma bind_address_eq:
  assumes "length uninitialised = sun_path_size"
  shows "bind_address uninitialised (data_path v) = Inr (data_path v @ NUL # drop 18 uninitialised)"
proof -
  have len: "length (data_path v) = 17" by (simp add: data_path_def)
  have split: "drop 17 uninitialised = uninitialised ! 17 # drop 18 uninitialised"
    using assms by (subst Cons_nth_drop_Suc [symmetric]) (simp_all add: sun_path_size_def)
  show ?thesis
    using assms by (simp add: bind_address_def copy_path_def len sun_path_size_def list_update_append split)
qed

lemma path_address_split: "path_address (data_path v) = data_path v @ NUL # replicate 90 NUL"
  by (simp add: path_address_data_path numeral_eq_Suc)

lemma bind_address_zero:
  "length uninitialised = sun_path_size \<Longrightarrow> drop 18 uninitialised = replicate 90 NUL \<Longrightarrow>
   bind_address uninitialised (data_path v) = Inr (path_address (data_path v))"
  by (simp add: bind_address_eq path_address_split)

text \<open>
  C38: The socket a node binds is the one its neighbours send to only if the 90 bytes that
  \<open>Create\<close> leaves uninitialised behind the path happen to be zero. Otherwise the two abstract
  addresses differ, because those count in all their 108 bytes.
\<close>

theorem bind_address_reachable_iff:
  assumes "length uninitialised = sun_path_size"
  shows "bind_address uninitialised (data_path v) = Inr (path_address (data_path v)) \<longleftrightarrow>
    drop 18 uninitialised = replicate 90 NUL"
  using assms by (simp add: bind_address_eq path_address_split)

lemma bind_address_reachable_iff_witness:
  "bind_address zero_path (data_path 5) = Inr (path_address (data_path 5)) \<longleftrightarrow>
    drop 18 zero_path = replicate 90 NUL"
  by (rule bind_address_reachable_iff) simp

text \<open>
  The addresses of two nodes are equal only if the random numbers they were made from are:
  the sixteen digits lose nothing.
\<close>

lemma data_path_injective:
  "path_address (data_path v) = path_address (data_path w) \<longleftrightarrow> v = w"
proof
  assume "path_address (data_path v) = path_address (data_path w)"
  then have "hex16 v = hex16 w"
    unfolding path_address_data_path append_same_eq by (simp add: data_path_def)
  then show "v = w" by (metis from_hex_hex16)
qed simp

section \<open>\<open>ToHexString\<close> and \<open>GenRandom\<close>\<close>

text \<open>
  \<open>ToHexString\<close> needs a buffer of 17 characters: it leaves the first alone and writes the
  sixteen digits behind it, from which the number can be read back. Into the 16 characters the
  header asks for it overflows.
\<close>

lemma ToHexString_buffer:
  "ToHexString v out = (if 17 \<le> length out then Inr (take 1 out @ hex16 v @ drop 17 out) else Inl Buffer_overflow) \<and>
   from_hex (hex16 v) = v"
  by (simp add: ToHexString_eq from_hex_hex16)

end
