(* ===== verification/NodeCalls.thy ===== *)
theory NodeCalls
  imports NodeProperties ManagerLoop
begin

text \<open>
  All that can be done to an \<open>IPCNode\<close>, by the user and by its threads, as one type of calls, with
  the invariant that every call keeps.
\<close>

section \<open>Calls\<close>

datatype node_call =
    Announce_call int string string     \<comment> \<open>the integers are what \<open>UDSClient::Send\<close> returns\<close>
  | Retract_call int string
  | Subscribe_call int string callback
  | Unsubscribe_call int string
  | Publish_call string bytes
  | Datagram bytes                      \<comment> \<open>read by \<open>IPCNode::MainLoop\<close>\<close>
  | Update TopologyMessage              \<comment> \<open>read by \<open>UDSClient::MainLoop\<close>\<close>

fun run_call ::
  "(bytes \<Rightarrow> bool \<times> MetadataMessage) \<Rightarrow> (MetadataMessage \<Rightarrow> bytes) \<Rightarrow> node_call \<Rightarrow> IPCNode \<Rightarrow> IPCNode res" where
  "run_call parse ser (Announce_call ret topic mime) n = node_Announce ret topic mime n"
| "run_call parse ser (Retract_call ret topic) n = node_Retract ret topic n"
| "run_call parse ser (Subscribe_call ret topic cb) n = node_Subscribe ret topic cb n"
| "run_call parse ser (Unsubscribe_call ret topic) n = node_Unsubscribe ret topic n"
| "run_call parse ser (Publish_call topic data) n = Inr (Publish ser topic data n)"
| "run_call parse ser (Datagram b) n = node_OnData parse b n"
| "run_call parse ser (Update m) n = deliver_update m n"

text \<open>The calls that cannot go wrong by themselves.\<close>

fun lawful_call :: "node_call \<Rightarrow> bool" where
  "lawful_call (Subscribe_call ret topic cb) \<longleftrightarrow> cb \<noteq> None"
| "lawful_call (Unsubscribe_call ret topic) \<longleftrightarrow> False"
| "lawful_call (Update m) \<longleftrightarrow> address_fits m"
| "lawful_call _ \<longleftrightarrow> True"

fun call_updates :: "node_call \<Rightarrow> TopologyMessage list" where
  "call_updates (Update m) = [m]"
| "call_updates _ = []"

fun call_handles :: "node_call \<Rightarrow> string list" where
  "call_handles (Subscribe_call ret topic cb) = [topic]"
| "call_handles _ = []"

section \<open>The invariant of a node\<close>

definition node_wf :: "IPCNode \<Rightarrow> bool" where
  "node_wf n \<longleftrightarrow> node_sys n \<and> (\<forall>t. in_subscriptions n t \<noteq> Some None)"

lemma IPCNode_init_wf [simp]: "node_wf (IPCNode_init g nm i p)"
  by (simp add: node_wf_def) (simp add: IPCNode_init_def)

definition call_effect :: "node_call \<Rightarrow> IPCNode \<Rightarrow> IPCNode \<Rightarrow> bool" where
  "call_effect c n n' \<longleftrightarrow> node_wf n' \<and>
     abs_topology (in_manager n') = fold topology_step (call_updates c) (abs_topology (in_manager n)) \<and>
     dom (in_subscriptions n') = set (call_handles c) \<union> dom (in_subscriptions n) \<and>
     (\<exists>out. in_out n' = in_out n @ out) \<and> (\<exists>ds. in_delivered n' = in_delivered n @ ds)"

text \<open>Requests change no table.\<close>

lemma Send_keeps:
  assumes "Send ret msg m = Inr m'"
  shows "tm_nodes m' = tm_nodes m" "tm_history m' = tm_history m" "\<not> tm_locked m'"
  using assms
  by (auto simp: Send_def with_lock_def Send_body_def bind_res_eq_Inr Let_def split: option.splits if_splits)

lemma node_sys_tables:
  assumes "node_sys n" "tm_nodes m' = tm_nodes (in_manager n)" "tm_history m' = tm_history (in_manager n)"
    "\<not> tm_locked m'"
  shows "node_sys (n\<lparr>in_manager := m'\<rparr>)" "abs_topology m' = abs_topology (in_manager n)"
  using assms by (simp_all add: node_sys_def neighbours.mirrors_def mgr_ok_def mgr_subs_def abs_topology_def)

lemma on_manager_Send:
  assumes "node_wf n"
  shows "\<exists>n'. on_manager (Send ret msg) n = Inr n' \<and> node_wf n' \<and>
    abs_topology (in_manager n') = abs_topology (in_manager n) \<and> in_subscriptions n' = in_subscriptions n \<and>
    in_out n' = in_out n \<and> in_delivered n' = in_delivered n"
proof -
  have sys: "node_sys n" and lock: "\<not> tm_locked (in_manager n)"
    using assms by (auto simp: node_wf_def node_sys_def mgr_ok_def)
  obtain m' where run: "Send ret msg (in_manager n) = Inr m'" using Send_queued [OF lock] by blast
  from node_sys_tables [OF sys Send_keeps [OF run]] run assms show ?thesis
    by (simp add: on_manager_def node_wf_def)
qed

lemma request_effect:
  assumes "node_wf n" "\<And>m. f m = Send ret (msg m) m"
  shows "\<exists>n'. on_manager f n = Inr n' \<and> node_wf n' \<and>
    abs_topology (in_manager n') = abs_topology (in_manager n) \<and> in_subscriptions n' = in_subscriptions n \<and>
    in_out n' = in_out n \<and> in_delivered n' = in_delivered n"
proof -
  have "on_manager f n = on_manager (Send ret (msg (in_manager n))) n" using assms(2) by (simp add: on_manager_def)
  with on_manager_Send [OF assms(1)] show ?thesis by simp
qed

lemma on_notification_out: "on_notification x n = Inr n' \<Longrightarrow> in_out n' = in_out n \<and>
    in_subscriptions n' = in_subscriptions n \<and> in_delivered n' = in_delivered n"
  by (cases x) (auto simp: OnJoin_def OnLeave_def OnAnnounce_def OnRetract_def OnSubscribe_def
      OnUnsubscribe_def Let_def bind_res_eq_Inr split: option.splits)

lemma feed_notification_out: "feed on_notification xs n = Inr n' \<Longrightarrow> in_out n' = in_out n \<and>
    in_subscriptions n' = in_subscriptions n \<and> in_delivered n' = in_delivered n"
  by (induction xs arbitrary: n) (auto simp: bind_res_eq_Inr dest: on_notification_out)

lemma Publish_effect: "node_wf n \<Longrightarrow> call_effect (Publish_call topic data) n (Publish ser topic data n)"
  by (simp add: call_effect_def node_wf_def node_sys_def neighbours.mirrors_def Publish_def Let_def
      node_inv_def nbr_subs_def)

lemma Datagram_effect:
  assumes "node_wf n"
  shows "\<exists>n'. node_OnData parse b n = Inr n' \<and> call_effect (Datagram b) n n'"
  using assms node_OnData_eq [of n parse b]
  by (auto simp: call_effect_def node_wf_def node_sys_def neighbours.mirrors_def node_inv_def nbr_subs_def)

lemma Update_effect:
  assumes "node_wf n" "address_fits m"
  shows "\<exists>n'. deliver_update m n = Inr n' \<and> call_effect (Update m) n n'"
proof -
  obtain n' where run: "deliver_update m n = Inr n'" and d: "delivered_ok m n n'"
    using deliver_update_outcome [of n m] assms by (auto simp: node_wf_def outcome_total)
  have "in_out n' = in_out n" "in_subscriptions n' = in_subscriptions n" "in_delivered n' = in_delivered n"
    using run by (auto simp: deliver_update_def bind_res_eq_Inr dest: feed_notification_out)
  with run d assms show ?thesis by (auto simp: call_effect_def node_wf_def delivered_ok_def)
qed

lemma run_call_effect:
  assumes "node_wf n" "lawful_call c"
  shows "\<exists>n'. run_call parse ser c n = Inr n' \<and> call_effect c n n'"
proof (cases c)
  case (Announce_call ret topic mime)
  then show ?thesis
    using request_effect [where f = "Announce ret topic mime", OF assms(1) Announce_def]
    by (auto simp: node_Announce_def call_effect_def)
next
  case (Retract_call ret topic)
  then show ?thesis
    using request_effect [where f = "Retract ret topic", OF assms(1) Retract_def]
    by (auto simp: node_Retract_def call_effect_def)
next
  case (Subscribe_call ret topic cb)
  obtain n' where n': "on_manager (Subscribe ret topic) n = Inr n'" "node_wf n'"
    "abs_topology (in_manager n') = abs_topology (in_manager n)" "in_subscriptions n' = in_subscriptions n"
    "in_out n' = in_out n" "in_delivered n' = in_delivered n"
    using request_effect [where f = "Subscribe ret topic", OF assms(1) Subscribe_def] by blast
  have "node_wf (n'\<lparr>in_subscriptions := (in_subscriptions n')(topic \<mapsto> cb)\<rparr>)"
    using n'(2) assms(2) Subscribe_call
    by (auto simp: node_wf_def node_sys_def neighbours.mirrors_def node_inv_def nbr_subs_def)
  with n' Subscribe_call show ?thesis by (simp add: node_Subscribe_def call_effect_def)
next
  case (Publish_call topic data)
  then show ?thesis using Publish_effect [OF assms(1)] by simp
next
  case (Datagram b)
  then show ?thesis using Datagram_effect [OF assms(1)] by simp
next
  case (Update m)
  then show ?thesis using Update_effect [OF assms(1)] assms(2) by simp
qed (use assms(2) in simp)

section \<open>What each call gives out\<close>

text \<open>The message with which a call asks the hub for something, and what the send of it returns.\<close>

fun call_request :: "u64 \<Rightarrow> node_call \<Rightarrow> (TopologyMessage \<times> int) option" where
  "call_request i (Announce_call ret topic mime) = Some (topic_msg 0 0 ANNOUNCE i topic mime, ret)"
| "call_request i (Retract_call ret topic) = Some (topic_msg 0 0 RETRACT i topic [], ret)"
| "call_request i (Subscribe_call ret topic cb) = Some (topic_msg 0 0 SUBSCRIBE i topic [], ret)"
| "call_request i _ = None"

fun call_callbacks :: "node_call \<Rightarrow> (string \<rightharpoonup> callback) \<Rightarrow> string \<rightharpoonup> callback" where
  "call_callbacks (Subscribe_call ret topic cb) S = S(topic \<mapsto> cb)"
| "call_callbacks _ S = S"

text \<open>The nodes a publication goes to, with their addresses.\<close>

definition audience :: "string \<Rightarrow> topology \<Rightarrow> (u64 \<times> string) set" where
  "audience topic V = {(i, nv_address v) |i v. V i = Some v \<and> topic \<in> nv_subs v \<and> nv_address v \<noteq> []}"

definition call_sends :: "(MetadataMessage \<Rightarrow> bytes) \<Rightarrow> node_call \<Rightarrow> topology \<Rightarrow> (string \<times> bytes) list \<Rightarrow> bool" where
  "call_sends ser c V out \<longleftrightarrow> (case c of
      Publish_call topic data \<Rightarrow> length out = card (audience topic V) \<and>
        set out = (\<lambda>(i, p). (path_address p, ser \<lparr>mm_topic = topic, mm_inlined = data\<rparr>)) ` audience topic V
    | _ \<Rightarrow> out = [])"

fun call_delivers ::
  "(bytes \<Rightarrow> bool \<times> MetadataMessage) \<Rightarrow> node_call \<Rightarrow> (string \<rightharpoonup> callback) \<Rightarrow> (nat \<times> bytes) list" where
  "call_delivers parse (Datagram b) S = deliveries parse S b"
| "call_delivers parse _ S = []"

definition call_asks :: "node_call \<Rightarrow> TopologyManager \<Rightarrow> TopologyManager \<Rightarrow> bool" where
  "call_asks c m m' \<longleftrightarrow> (case call_request (tm_nodeId m) c of
      Some (msg, ret) \<Rightarrow> queued msg ret m m'
    | None \<Rightarrow> tm_sent m' = tm_sent m \<and> tm_backlog m' = tm_backlog m \<and> tm_client m' = tm_client m)"

text \<open>
  What a call does, given the topology \<open>V\<close> and the callbacks \<open>S\<close> that the calls before it amount to.
\<close>

definition call_spec ::
  "(bytes \<Rightarrow> bool \<times> MetadataMessage) \<Rightarrow> (MetadataMessage \<Rightarrow> bytes) \<Rightarrow> node_call \<Rightarrow> topology \<Rightarrow>
   (string \<rightharpoonup> callback) \<Rightarrow> IPCNode \<Rightarrow> IPCNode \<Rightarrow> bool" where
  "call_spec parse ser c V S n n' \<longleftrightarrow>
     (\<exists>out. in_out n' = in_out n @ out \<and> call_sends ser c V out) \<and>
     in_delivered n' = in_delivered n @ call_delivers parse c S \<and>
     call_asks c (in_manager n) (in_manager n')"

definition call_state :: "node_call \<Rightarrow> IPCNode \<Rightarrow> IPCNode \<Rightarrow> bool" where
  "call_state c n n' \<longleftrightarrow> node_wf n' \<and> nbr_path n' = mgr_path (in_manager n') \<and>
     abs_topology (in_manager n') = fold topology_step (call_updates c) (abs_topology (in_manager n)) \<and>
     in_subscriptions n' = call_callbacks c (in_subscriptions n)"

lemma request_call:
  assumes wf: "node_wf n" and path: "nbr_path n = mgr_path (in_manager n)"
    and send: "f (in_manager n) = Inr m'" and q: "queued msg ret (in_manager n) m'"
  shows "on_manager f n = Inr (n\<lparr>in_manager := m'\<rparr>) \<and> node_wf (n\<lparr>in_manager := m'\<rparr>) \<and>
    nbr_path (n\<lparr>in_manager := m'\<rparr>) = mgr_path m' \<and> abs_topology m' = abs_topology (in_manager n)"
proof -
  have same: "tm_nodes m' = tm_nodes (in_manager n)" "tm_history m' = tm_history (in_manager n)"
    using q by (auto simp: queued_def split: option.splits if_splits)
  have sys: "node_sys n" and lock: "\<not> tm_locked (in_manager n)"
    using wf by (auto simp: node_wf_def node_sys_def mgr_ok_def)
  note tables = node_sys_tables [OF sys same queued_unlocked [OF q lock]]
  have "mgr_path m' = mgr_path (in_manager n)" using same by (simp add: mgr_path_def)
  with tables path wf send show ?thesis by (simp add: on_manager_def node_wf_def)
qed

lemma no_request: "in_manager n' = in_manager n \<Longrightarrow> call_request (tm_nodeId (in_manager n)) c = None \<Longrightarrow>
    call_asks c (in_manager n) (in_manager n')"
  by (simp add: call_asks_def)

lemma recipients_audience:
  assumes "node_sys n" "nbr_path n = mgr_path (in_manager n)"
  shows "call_sends ser (Publish_call topic data) (abs_topology (in_manager n))
    (publish_to topic (ser \<lparr>mm_topic = topic, mm_inlined = data\<rparr>) (in_nodes n))"
proof -
  let ?V = "abs_topology (in_manager n)" and ?blob = "ser \<lparr>mm_topic = topic, mm_inlined = data\<rparr>"
  have inv: "node_inv n" and obs: "nbr_subs n i = map_option nv_subs (?V i)" "nbr_path n i = map_option nv_address (?V i)" for i
    using assms by (auto simp: node_sys_def neighbours.mirrors_def mgr_observations)
  have rec: "recipients topic n = fst ` audience topic ?V"
    by (force simp: recipients_def audience_def obs)
  have "inj_on fst (audience topic ?V)" by (auto simp: inj_on_def audience_def)
  then have "card (recipients topic n) = card (audience topic ?V)" unfolding rec by (rule card_image)
  moreover have "{(path_address p, ?blob) |i p. i \<in> recipients topic n \<and> nbr_path n i = Some p} =
      (\<lambda>(i, p). (path_address p, ?blob)) ` audience topic ?V"
    unfolding rec obs by (force simp: audience_def)
  ultimately show ?thesis by (simp add: call_sends_def publish_once [OF inv])
qed

lemma run_call_spec:
  assumes wf: "node_wf n" and path: "nbr_path n = mgr_path (in_manager n)" and lawful: "lawful_call c"
    and stable: "stable_addresses (call_updates c) (abs_topology (in_manager n))"
  shows "\<exists>n'. run_call parse ser c n = Inr n' \<and> call_state c n n' \<and>
    call_spec parse ser c (abs_topology (in_manager n)) (in_subscriptions n) n n'"
proof -
  have lock: "\<not> tm_locked (in_manager n)" and sys: "node_sys n"
    using wf by (auto simp: node_wf_def node_sys_def mgr_ok_def)
  note ask = requests_return_except_Unsubscribe [OF lock]
  note defs = call_state_def call_spec_def call_sends_def call_asks_def
  show ?thesis
  proof (cases c)
    case (Announce_call ret topic mime)
    obtain m' where m': "Announce ret topic mime (in_manager n) = Inr m'"
      "queued (topic_msg 0 0 ANNOUNCE (tm_nodeId (in_manager n)) topic mime) ret (in_manager n) m'" using ask by blast
    from request_call [where f = "Announce ret topic mime", OF wf path m'] m'(2) show ?thesis
      by (simp add: Announce_call node_Announce_def defs)
  next
    case (Retract_call ret topic)
    obtain m' where m': "Retract ret topic (in_manager n) = Inr m'"
      "queued (topic_msg 0 0 RETRACT (tm_nodeId (in_manager n)) topic []) ret (in_manager n) m'" using ask by blast
    from request_call [where f = "Retract ret topic", OF wf path m'] m'(2) show ?thesis
      by (simp add: Retract_call node_Retract_def defs)
  next
    case (Subscribe_call ret topic cb)
    obtain m' where m': "Subscribe ret topic (in_manager n) = Inr m'"
      "queued (topic_msg 0 0 SUBSCRIBE (tm_nodeId (in_manager n)) topic []) ret (in_manager n) m'" using ask by blast
    let ?n = "n\<lparr>in_manager := m'\<rparr>"
    let ?n' = "?n\<lparr>in_subscriptions := (in_subscriptions n)(topic \<mapsto> cb)\<rparr>"
    note r = request_call [where f = "Subscribe ret topic", OF wf path m']
    have "node_wf ?n'" "nbr_path ?n' = mgr_path m'" using r lawful wf
      by (auto simp: Subscribe_call node_wf_def node_sys_def neighbours.mirrors_def node_inv_def nbr_subs_def nbr_path_def)
    with r m'(2) show ?thesis by (simp add: Subscribe_call node_Subscribe_def defs)
  next
    case (Publish_call topic data)
    let ?n' = "Publish ser topic data n"
    have "node_wf ?n'" using Publish_effect [OF wf] by (simp add: call_effect_def)
    moreover have "in_manager ?n' = in_manager n" "in_subscriptions ?n' = in_subscriptions n" "in_nodes ?n' = in_nodes n"
      "in_delivered ?n' = in_delivered n"
      "in_out ?n' = in_out n @ publish_to topic (ser \<lparr>mm_topic = topic, mm_inlined = data\<rparr>) (in_nodes n)"
      by (simp_all add: Publish_def Let_def)
    ultimately show ?thesis using path recipients_audience [OF sys path]
      by (auto simp: Publish_call call_state_def call_spec_def nbr_path_def no_request)
  next
    case (Datagram b)
    let ?n' = "n\<lparr>in_delivered := in_delivered n @ deliveries parse (in_subscriptions n) b\<rparr>"
    have run: "node_OnData parse b n = Inr ?n'" using node_OnData_eq [of n parse b] wf by (simp add: node_wf_def)
    moreover have "node_wf ?n'" using Datagram_effect [OF wf, of parse b] run by (auto simp: call_effect_def)
    moreover have "nbr_path ?n' = nbr_path n" by (simp add: nbr_path_def)
    ultimately show ?thesis using path by (simp add: Datagram defs)
  next
    case (Update m)
    have fits: "address_fits m" using lawful Update by simp
    obtain n' where run: "deliver_update m n = Inr n'" and eff: "call_effect (Update m) n n'"
      using Update_effect [OF wf fits] by blast
    have "delivered_ok m n n'" using deliver_update_outcome [OF sys fits] run by simp
    then have "nbr_path n' = mgr_path (in_manager n')"
      using path stable by (simp add: delivered_ok_def Update same_address_abs)
    moreover have "in_out n' = in_out n" "in_subscriptions n' = in_subscriptions n" "in_delivered n' = in_delivered n"
      using run by (auto simp: deliver_update_def bind_res_eq_Inr dest: feed_notification_out)
    moreover obtain m1 where "ApplyUpdate all_handlers m (in_manager n) = Inr m1" "in_manager n' = m1"
      using run by (auto simp: deliver_update_def bind_res_eq_Inr dest: feed_notification_manager)
    with ApplyUpdate_frame have "same_frame (in_manager n) (in_manager n')" by blast
    ultimately show ?thesis using run eff by (simp add: Update defs call_effect_def same_frame_def)
  qed (use lawful in simp)
qed

lemma stable_append:
  "stable_addresses (xs @ ys) V \<longleftrightarrow> stable_addresses xs V \<and> stable_addresses ys (fold topology_step xs V)"
  by (induction xs arbitrary: V) auto

lemma run_calls_state:
  assumes "list_all lawful_call cs" "node_wf n" "nbr_path n = mgr_path (in_manager n)"
    and "stable_addresses (concat (map call_updates cs)) (abs_topology (in_manager n))"
  shows "\<exists>n'. feed (run_call parse ser) cs n = Inr n' \<and> node_wf n' \<and> nbr_path n' = mgr_path (in_manager n') \<and>
    abs_topology (in_manager n') = fold topology_step (concat (map call_updates cs)) (abs_topology (in_manager n)) \<and>
    in_subscriptions n' = fold call_callbacks cs (in_subscriptions n)"
  using assms
proof (induction cs arbitrary: n)
  case (Cons c cs)
  then obtain n1 where run: "run_call parse ser c n = Inr n1" and eff: "call_state c n n1"
    using run_call_spec [of n c parse ser] by (auto simp: stable_append)
  from Cons.IH [of n1] Cons.prems eff obtain n' where "feed (run_call parse ser) cs n1 = Inr n'" "node_wf n'"
    "nbr_path n' = mgr_path (in_manager n')"
    "abs_topology (in_manager n') = fold topology_step (concat (map call_updates cs)) (abs_topology (in_manager n1))"
    "in_subscriptions n' = fold call_callbacks cs (in_subscriptions n1)"
    by (auto simp: call_state_def stable_append)
  with run eff show ?case by (auto simp: call_state_def)
qed simp

text \<open>
  C19: a node does with every call what is asked of it, and keeps its invariant. Start from a new node
  (or any well-formed one) and make any calls, by the user and by the two threads, in any order, but
  no \<open>Unsubscribe\<close>, no subscription with an empty callback, and no update with an address that is
  longer than a socket address or other than the one the node it joins has (each of these goes wrong):
  every call returns; the tables of manager and node stay well formed and in step; the manager's table
  is the topology of the updates, and the callbacks are the last ones given for their topics. And each
  call, with the topology and the callbacks that the calls before it make: a publication is sent,
  as one datagram each, to exactly the nodes that topology has for the topic, and no other call sends
  any; a datagram is delivered to the callback of its topic, and no other call delivers any; and
  \<open>Announce\<close>, \<open>Retract\<close> and \<open>Subscribe\<close> hand their message to the connection or, if there is none
  or its send fails, to the backlog.
\<close>

theorem node_calls_keep_invariant:
  assumes lawful: "list_all lawful_call cs" and wf: "node_wf n" and path: "nbr_path n = mgr_path (in_manager n)"
    and stable: "stable_addresses (concat (map call_updates cs)) (abs_topology (in_manager n))"
  shows "\<exists>n'. feed (run_call parse ser) cs n = Inr n' \<and> node_wf n' \<and>
    abs_topology (in_manager n') = fold topology_step (concat (map call_updates cs)) (abs_topology (in_manager n)) \<and>
    in_subscriptions n' = fold call_callbacks cs (in_subscriptions n) \<and>
    (\<forall>as c bs. cs = as @ c # bs \<longrightarrow> (\<exists>n1 n2. feed (run_call parse ser) as n = Inr n1 \<and>
      run_call parse ser c n1 = Inr n2 \<and> feed (run_call parse ser) bs n2 = Inr n' \<and>
      call_spec parse ser c (fold topology_step (concat (map call_updates as)) (abs_topology (in_manager n)))
        (fold call_callbacks as (in_subscriptions n)) n1 n2))"
proof -
  obtain n' where all: "feed (run_call parse ser) cs n = Inr n'" "node_wf n'"
    "abs_topology (in_manager n') = fold topology_step (concat (map call_updates cs)) (abs_topology (in_manager n))"
    "in_subscriptions n' = fold call_callbacks cs (in_subscriptions n)"
    using run_calls_state [OF assms] by blast
  have "\<exists>n1 n2. feed (run_call parse ser) as n = Inr n1 \<and> run_call parse ser c n1 = Inr n2 \<and>
      feed (run_call parse ser) bs n2 = Inr n' \<and>
      call_spec parse ser c (fold topology_step (concat (map call_updates as)) (abs_topology (in_manager n)))
        (fold call_callbacks as (in_subscriptions n)) n1 n2" if cs: "cs = as @ c # bs" for as c bs
  proof -
    obtain n1 where n1: "feed (run_call parse ser) as n = Inr n1" "node_wf n1" "nbr_path n1 = mgr_path (in_manager n1)"
      "abs_topology (in_manager n1) = fold topology_step (concat (map call_updates as)) (abs_topology (in_manager n))"
      "in_subscriptions n1 = fold call_callbacks as (in_subscriptions n)"
      using run_calls_state [of as n parse ser] lawful wf path stable by (auto simp: cs stable_append)
    moreover obtain n2 where "run_call parse ser c n1 = Inr n2"
      "call_spec parse ser c (abs_topology (in_manager n1)) (in_subscriptions n1) n1 n2"
      using run_call_spec [OF n1(2,3), of c parse ser] lawful stable n1(4) by (auto simp: cs stable_append)
    moreover have "feed (run_call parse ser) bs n2 = Inr n'"
      using all(1) n1(1) calculation(6) by (simp add: cs feed_append)
    ultimately show ?thesis by auto
  qed
  with all show ?thesis by blast
qed

definition sample_calls :: "node_call list" where
  "sample_calls = [Announce_call 0 ''t'' ''m'', Subscribe_call (-1) ''t'' (Some 3), Update (node_msg 1 1 JOIN 7 ''a'' ''x''),
     Update (topic_msg 2 2 SUBSCRIBE 7 ''t'' []), Publish_call ''t'' [1], Datagram [4], Retract_call 0 ''t'']"

text \<open>The fifth call of the sample sends one datagram, to node 7.\<close>

lemma node_calls_keep_invariant_witness:
  "\<exists>n1 n2. feed (run_call (\<lambda>b. (True, \<lparr>mm_topic = ''t'', mm_inlined = b\<rparr>)) mm_inlined) (take 4 sample_calls)
      (IPCNode_init ''g'' ''n'' 9 ''p'') = Inr n1 \<and>
    run_call (\<lambda>b. (True, \<lparr>mm_topic = ''t'', mm_inlined = b\<rparr>)) mm_inlined (Publish_call ''t'' [1]) n1 = Inr n2 \<and>
    in_out n2 = in_out n1 @ [(path_address ''x'', [1])]"
proof -
  let ?parse = "\<lambda>b. (True, \<lparr>mm_topic = ''t'', mm_inlined = b\<rparr>)" and ?n = "IPCNode_init ''g'' ''n'' 9 ''p''"
  have lawful: "list_all lawful_call sample_calls"
    by (simp add: sample_calls_def address_fits_def sun_path_size_def)
      (simp add: node_change_def topic_msg_def default_NodeChange_def)
  have stable: "stable_addresses (concat (map call_updates sample_calls)) (abs_topology (in_manager ?n))"
    by (simp add: sample_calls_def joins_def)
  let ?V = "fold topology_step (concat (map call_updates (take 4 sample_calls))) Map.empty"
  have "?V = [7 \<mapsto> \<lparr>nv_name = ''a'', nv_address = ''x'', nv_pubs = Map.empty, nv_subs = {''t''}\<rparr>]"
    by (simp add: sample_calls_def topology_step_def keyed_step_def msg_key_def topology_cell_def)
  then have aud: "audience ''t'' ?V = {(7, ''x'')}" by (auto simp: audience_def split: if_splits)
  have split: "sample_calls = take 4 sample_calls @ Publish_call ''t'' [1] # drop 5 sample_calls"
    by (simp add: sample_calls_def)
  from node_calls_keep_invariant [OF lawful IPCNode_init_wf IPCNode_init_sys(3) stable, of ?parse mm_inlined] split
  obtain n1 n2 where r: "feed (run_call ?parse mm_inlined) (take 4 sample_calls) ?n = Inr n1"
    "run_call ?parse mm_inlined (Publish_call ''t'' [1]) n1 = Inr n2"
    "call_spec ?parse mm_inlined (Publish_call ''t'' [1]) ?V
      (fold call_callbacks (take 4 sample_calls) (in_subscriptions ?n)) n1 n2"
    unfolding IPCNode_init_sys(2) by blast
  then obtain out where "in_out n2 = in_out n1 @ out" "length out = 1" "set out = {(path_address ''x'', [1])}"
    by (auto simp: call_spec_def call_sends_def aud)
  moreover from this(2,3) have "out = [(path_address ''x'', [1])]" by (cases out) auto
  ultimately show ?thesis using r(1,2) by blast
qed

end
