(* ===== verification/TransportProperties.thy ===== *)
theory TransportProperties
  imports UDSServer UDSClient
begin

text \<open>
  The properties of the connections: \<open>lib/UDSServer.cc\<close>, \<open>lib/UDSClient.cc\<close> and the socket
  addresses both build.
\<close>

section \<open>Socket addresses\<close>

definition strip_NUL :: "string \<Rightarrow> string" where
  "strip_NUL p = rev (dropWhile (\<lambda>ch. ch = NUL) (rev p))"

lemma strip_NUL_pad: "strip_NUL (p @ replicate n NUL) = strip_NUL p"
proof -
  have "dropWhile (\<lambda>ch. ch = NUL) (replicate n NUL @ xs) = dropWhile (\<lambda>ch. ch = NUL) xs" for xs
    by (induction n) simp_all
  then show ?thesis by (simp add: strip_NUL_def)
qed

lemma strip_NUL_split: "\<exists>n. p = strip_NUL p @ replicate n NUL"
proof -
  let ?tail = "takeWhile (\<lambda>ch. ch = NUL) (rev p)"
  have "\<forall>x\<in>set ?tail. x = NUL" by (auto dest: set_takeWhileD)
  then have "?tail = replicate (length ?tail) NUL" by (simp add: replicate_length_same)
  moreover have "rev p = ?tail @ dropWhile (\<lambda>ch. ch = NUL) (rev p)" by simp
  ultimately have "p = strip_NUL p @ rev (replicate (length ?tail) NUL)"
    unfolding strip_NUL_def by (metis rev_append rev_rev_ident)
  then show ?thesis by (auto simp del: rev_replicate simp: rev_replicate)
qed

lemma pad_eq_iff:
  assumes "length p \<le> n" "length q \<le> n"
  shows "p @ replicate (n - length p) NUL = q @ replicate (n - length q) NUL \<longleftrightarrow> strip_NUL p = strip_NUL q"
proof
  assume "p @ replicate (n - length p) NUL = q @ replicate (n - length q) NUL"
  then have "strip_NUL (p @ replicate (n - length p) NUL) = strip_NUL (q @ replicate (n - length q) NUL)"
    by simp
  then show "strip_NUL p = strip_NUL q" by (simp only: strip_NUL_pad)
next
  assume eq: "strip_NUL p = strip_NUL q"
  obtain a b where "p = strip_NUL p @ replicate a NUL" "q = strip_NUL q @ replicate b NUL"
    using strip_NUL_split by meson
  then obtain r a b where p: "p = r @ replicate a NUL" and q: "q = r @ replicate b NUL"
    using eq by metis
  have "p @ replicate (n - length p) NUL = r @ replicate (n - length r) NUL"
    using assms(1) by (simp add: p replicate_add [symmetric])
  moreover have "q @ replicate (n - length q) NUL = r @ replicate (n - length r) NUL"
    using assms(2) by (simp add: q replicate_add [symmetric])
  ultimately show "p @ replicate (n - length p) NUL = q @ replicate (n - length q) NUL" by simp
qed

text \<open>
  A server and a client of two valid socket paths meet at the same address exactly when
  the paths agree up to trailing zero bytes: groups with different names never share a hub,
  and the zero byte in front of the name does not end it.
\<close>

lemma Create_address_agree:
  assumes "p \<noteq> []" "q \<noteq> []" "length p + 1 < sun_path_size" "length q + 1 < sun_path_size"
  shows "Create_address p = Create_address q \<longleftrightarrow> strip_NUL p = strip_NUL q"
  using assms pad_eq_iff [of p sun_path_size q] by (simp add: Create_address_Inr)

lemma Create_address_agree_witness:
  "Create_address (NUL # ''hello'') = Create_address (NUL # ''world'') \<longleftrightarrow>
   strip_NUL (NUL # ''hello'') = strip_NUL (NUL # ''world'')"
  by (rule Create_address_agree) (simp_all add: sun_path_size_def)

text \<open>Where \<open>Create\<close> of the server and of the client leave a descriptor open.\<close>

lemma Create_leaks:
  assumes "sockPath \<noteq> []" "length sockPath + 1 < sun_path_size"
  shows "\<exists>srv leaked. UDSServer_Create sockPath r = Inr (srv, leaked) \<and>
      (leaked \<noteq> [] \<longleftrightarrow> cr_socket r \<noteq> -1 \<and> cr_attach r \<noteq> -1 \<and> cr_listen r \<noteq> -1 \<and> cr_eventfd r = -1)"
    and "\<exists>cl leaked. UDSClient_Create sockPath r = Inr (cl, leaked) \<and>
      (leaked \<noteq> [] \<longleftrightarrow> cr_socket r \<noteq> -1 \<and> cr_attach r \<noteq> -1 \<and> cr_eventfd r = -1)"
  using assms
  by (auto simp: UDSServer_Create_def UDSClient_Create_def Create_address_Inr Let_def)

section \<open>The server\<close>

text \<open>
  C36: The descriptor of a client that hangs up is forgotten without being closed: it is still
  open after any further run of the loop, its end included.
\<close>

theorem hangup_leaks_descriptor:
  assumes "MainLoop_iteration cb it (s, h) = Inr (Running, s1, h1)" "MainLoop cb its (s1, h1) = Inr (st, s', h')"
    and "it_poll it = Poll_ready 0 listener rs" "has_flag (revents_of rs c) POLLHUP"
    and "c \<in> set (us_clients s)" "c \<in> set (us_open s)" "script_ok ok (us_open s) (it # its)"
  shows "c \<in> set (us_open s') \<and> c \<notin> set (us_clients s')"
proof (rule MainLoop_open [OF assms(2)])
  note frame = MainLoop_iteration_frame [OF assms(1)]
  show "script_ok ok (us_open s1) its" "c \<in> set (us_open s1)" using assms frame(1) by auto
  obtain s2 h2 where "service_clients cb rs (it_records it) (us_clients s) (s2, h2) = Inr (s1, h1)"
    using assms(1,3) by (auto simp: MainLoop_iteration_def bind_res_eq_Inr split: if_splits)
  from service_clients_hangup [OF this assms(5,4)] show "c \<notin> set (us_clients s1)" .
qed

definition hangup_script :: "uds_iteration list" where
  "hangup_script =
     [\<lparr>it_poll = Poll_ready 0 0 [(7, 16)], it_accept = -1, it_records = []\<rparr>,
      \<lparr>it_poll = Poll_ready 1 0 [], it_accept = -1, it_records = []\<rparr>]"

lemma hangup_leaks_descriptor_witness:
  "(7 :: int) \<in> set (us_open (fst (snd (projr
      (MainLoop \<lparr>onConnect = None, onDisconnect = None, onData = None\<rparr> hangup_script
        (\<lparr>us_clients = [7], us_listenFd = 3, us_shutdownFd = 4, us_event = 0, us_open = [7]\<rparr>, ()))))))"
proof -
  let ?cb = "\<lparr>onConnect = None, onDisconnect = None, onData = None\<rparr> :: unit uds_callbacks"
  let ?s = "\<lparr>us_clients = [7], us_listenFd = 3, us_shutdownFd = 4, us_event = 0, us_open = [7]\<rparr>"
  have one: "MainLoop_iteration ?cb (hd hangup_script) (?s, ()) =
      Inr (Running, ?s\<lparr>us_clients := []\<rparr>, ())"
    by (simp add: MainLoop_iteration_def hangup_script_def service_client_def revents_of_def
        poll_flag_defs call1_def set_erase_def)
  have two: "MainLoop ?cb (tl hangup_script) (?s\<lparr>us_clients := []\<rparr>, ()) =
      Inr (Exited, MainLoop_exit (?s\<lparr>us_clients := []\<rparr>), ())"
    by (simp add: MainLoop_iteration_def hangup_script_def)
  have "(7 :: int) \<in> set (us_open (MainLoop_exit (?s\<lparr>us_clients := []\<rparr>))) \<and>
      7 \<notin> set (us_clients (MainLoop_exit (?s\<lparr>us_clients := []\<rparr>)))"
    by (rule hangup_leaks_descriptor [OF one two, where listener = 0 and rs = "[(7, 16)]"
          and ok = "\<lambda>_. True"])
      (simp_all add: hangup_script_def revents_of_def poll_flag_defs accepted_def)
  moreover have "MainLoop ?cb hangup_script (?s, ()) =
      Inr (Exited, MainLoop_exit (?s\<lparr>us_clients := []\<rparr>), ())"
    using one two by (simp add: hangup_script_def)
  ultimately show ?thesis by simp
qed

section \<open>The client\<close>

text \<open>
  The client's thread hands its callback exactly the non-empty records read up to the end
  of the loop, each cut to 65535 bytes, in order and once; the first fault of the callback
  ends it. When an iteration ends the loop, both descriptors are closed.
\<close>

lemma client_delivers_records:
  "client_MainLoop (Some f) None its (s, h) =
     bind_res (feed f (received its) h) (\<lambda>h. Inr (if ends its then client_exit s else s, h))"
  unfolding client_MainLoop_eq by (auto intro!: arg_cong [where f = "bind_res _"])

text \<open>
  After the loop has ended the object is inert: \<open>Send\<close> reports an error without a system
  call, \<open>Wait\<close> returns at once and \<open>Shutdown\<close> changes nothing.
\<close>

lemma ended_client_is_inert:
  assumes "client_MainLoop f leave its (s, h) = Inr (s', h')" "ends its"
  shows "Send_bytes sent s' = -1 \<and> Wait_returns s' \<and> Shutdown s' = Some s'"
proof -
  have "\<exists>s0. s' = client_exit s0" using assms
  proof (induction its arbitrary: h)
    case Nil
    then show ?case by simp
  next
    case (Cons it its)
    then obtain continue h1 where "client_iteration f it h = Inr (continue, h1)"
      and rest: "(if continue then client_MainLoop f leave its (s, h1)
         else bind_res (case leave of None \<Rightarrow> Inr h1 | Some f \<Rightarrow> f h1) (\<lambda>h. Inr (client_exit s, h))) =
        Inr (s', h')"
      by (auto simp: bind_res_eq_Inr)
    moreover from this(1) have "continue \<longleftrightarrow> \<not> ends_loop it"
      by (auto simp: client_iteration_def ends_loop_def bind_res_eq_Inr split: client_poll.splits if_splits)
    ultimately show ?case
      using Cons.prems(2) Cons.IH [of h1] by (auto simp: bind_res_eq_Inr split: if_splits)
  qed
  then show ?thesis by (auto simp: client_exit_def Send_bytes_def Wait_returns_def Shutdown_def)
qed

text \<open>
  \<open>Shutdown\<close> can be called \<open>2 ^ 32\<close> times before its write to the event could block, not
  once more; after the first call every \<open>Wait\<close> returns.
\<close>

lemma Shutdown_capacity:
  assumes "shutFd \<noteq> -1"
  shows "(Shutdown_times n (UDSClient_init sock shutFd) \<noteq> None \<longleftrightarrow> n \<le> 2 ^ 32) \<and>
    (\<forall>s. 0 < n \<longrightarrow> Shutdown_times n (UDSClient_init sock shutFd) = Some s \<longrightarrow> Wait_returns s)"
proof -
  have run: "Shutdown_times n (UDSClient_init sock shutFd) = (if n * UINT32_MAX \<le> eventfd_max
      then Some ((UDSClient_init sock shutFd)\<lparr>uc_event := n * UINT32_MAX\<rparr>) else None)"
    using assms by (subst Shutdown_times_eq) (simp_all add: UDSClient_init_def)
  have "n * UINT32_MAX \<le> eventfd_max \<longleftrightarrow> n \<le> 2 ^ 32"
    by (auto simp: UINT32_MAX_def eventfd_max_def)
  moreover have "0 < UINT32_MAX" by (simp add: UINT32_MAX_def)
  ultimately show ?thesis by (simp add: run Wait_returns_def eventfd_readable_def)
qed

lemma Shutdown_capacity_witness:
  "Shutdown_times 5 (UDSClient_init 3 4) \<noteq> None"
  using Shutdown_capacity [of 4 5 3] by simp

end
