(* ===== verification/Lifecycle.thy ===== *)
theory Lifecycle
  imports TransportProperties HubInvariant NodeProperties
begin

text \<open>
  How the objects that own descriptors begin and end: the three \<open>Create\<close> functions of
  \<open>lib/UDSServer.cc\<close>, \<open>lib/UDSClient.cc\<close> and \<open>lib/IPCNode.cc\<close>, and the destructor of the node.
\<close>

lemma IPCNode_Create_ok:
  assumes "length uninitialised = sun_path_size"
  shows "\<exists>no leaked. IPCNode_Create groupName nodeName nodeId number uninitialised r = Inr (no, leaked) \<and>
    (no = None \<longleftrightarrow> ncr_outSock r < 0 \<or> ncr_listenSock r < 0 \<or> ncr_bind r \<noteq> 0) \<and>
    (leaked \<noteq> [] \<longleftrightarrow> no = None \<and> (ncr_eventfd r \<noteq> -1 \<or> 0 \<le> ncr_outSock r))"
  using assms by (auto simp: IPCNode_Create_def bind_address_eq Let_def)

lemma IPCNode_Create_SomeD:
  assumes "IPCNode_Create groupName nodeName nodeId number uninitialised r = Inr (Some (f, n), leaked)"
  shows "nf_shutdownFd f = ncr_eventfd r" "nf_outFd f = ncr_outSock r" "nf_inputFd f = ncr_listenSock r"
    "n = IPCNode_init groupName nodeName nodeId (data_path number)"
    "bind_address uninitialised (data_path number) = Inr (nf_bound f)" "leaked = []"
  using assms by (auto simp: IPCNode_Create_def Let_def bind_res_eq_Inr split: if_splits)

text \<open>
  C37: The \<open>Create\<close> functions and the descriptors that no object owns. The server and the client
  leave one open exactly when the last of their calls, \<open>eventfd\<close>, fails; the node whenever it fails
  with anything open, and it does not test its \<open>eventfd\<close> at all. A node that was created owns all
  it opened, and its destructor closes it all.
\<close>

theorem Create_leaks_iff:
  assumes "sockPath \<noteq> []" "length sockPath + 1 < sun_path_size" "length uninitialised = sun_path_size"
  shows "(\<exists>srv leaked. UDSServer_Create sockPath r = Inr (srv, leaked) \<and>
      (leaked \<noteq> [] \<longleftrightarrow> cr_socket r \<noteq> -1 \<and> cr_attach r \<noteq> -1 \<and> cr_listen r \<noteq> -1 \<and> cr_eventfd r = -1)) \<and>
    (\<exists>cl leaked. UDSClient_Create sockPath r = Inr (cl, leaked) \<and>
      (leaked \<noteq> [] \<longleftrightarrow> cr_socket r \<noteq> -1 \<and> cr_attach r \<noteq> -1 \<and> cr_eventfd r = -1)) \<and>
    (\<exists>no leaked. IPCNode_Create groupName nodeName nodeId number uninitialised nr = Inr (no, leaked) \<and>
      (leaked \<noteq> [] \<longleftrightarrow> no = None \<and> (ncr_eventfd nr \<noteq> -1 \<or> 0 \<le> ncr_outSock nr)) \<and>
      (no = None \<longleftrightarrow> ncr_outSock nr < 0 \<or> ncr_listenSock nr < 0 \<or> ncr_bind nr \<noteq> 0) \<and>
      (\<forall>f n. no = Some (f, n) \<longrightarrow>
        IPCNode_destroy f [ncr_eventfd nr, ncr_outSock nr, ncr_listenSock nr] = []))"
proof -
  obtain no leaked where
    c: "IPCNode_Create groupName nodeName nodeId number uninitialised nr = Inr (no, leaked)"
      "no = None \<longleftrightarrow> ncr_outSock nr < 0 \<or> ncr_listenSock nr < 0 \<or> ncr_bind nr \<noteq> 0"
      "leaked \<noteq> [] \<longleftrightarrow> no = None \<and> (ncr_eventfd nr \<noteq> -1 \<or> 0 \<le> ncr_outSock nr)"
    using IPCNode_Create_ok [OF assms(3)] by blast
  have "IPCNode_destroy f [ncr_eventfd nr, ncr_outSock nr, ncr_listenSock nr] = []"
    if "no = Some (f, n)" for f n
    using c(1) that IPCNode_Create_SomeD [of groupName nodeName nodeId number uninitialised nr f n leaked]
    by (simp add: IPCNode_destroy_def)
  with c Create_leaks [OF assms(1,2)] show ?thesis by auto
qed

definition no_events :: create_results where
  "no_events = \<lparr>cr_socket = 3, cr_attach = 0, cr_listen = 0, cr_eventfd = -1\<rparr>"

definition name_taken :: node_create_results where
  "name_taken = \<lparr>ncr_eventfd = 3, ncr_outSock = 4, ncr_listenSock = 5, ncr_bind = -1\<rparr>"

lemma Create_leaks_iff_witness:
  "\<exists>srv cl leaked leaked' leaked''. UDSServer_Create ''s'' no_events = Inr (srv, leaked) \<and>
    UDSClient_Create ''s'' no_events = Inr (cl, leaked') \<and>
    IPCNode_Create ''g'' ''n'' 7 9 zero_path name_taken = Inr (None, leaked'') \<and>
    leaked \<noteq> [] \<and> leaked' \<noteq> [] \<and> leaked'' \<noteq> []"
  using Create_leaks_iff [of "''s''" zero_path no_events "''g''" "''n''" 7 9 name_taken]
  by (auto simp: sun_path_size_def no_events_def name_taken_def)

section \<open>The hub object\<close>

text \<open>
  A \<open>TopologyServer\<close> owns the \<open>UDSServer\<close> its constructor creates, if \<open>UDSServer::Create\<close> returns one;
  \<open>Shutdown\<close> does not ask.
\<close>

type_synonym hub_object = "TopologyServer \<times> UDSServer option"

definition TopologyServer_Create ::
  "string \<Rightarrow> TopologyMessage list \<Rightarrow> create_results \<Rightarrow> (hub_object \<times> fd list) res" where
  "TopologyServer_Create announcePath digest r =
     bind_res (UDSServer_Create announcePath r) (\<lambda>(server, leaked).
     Inr ((TopologyServer_init digest, server), leaked))"

fun TopologyServer_Shutdown :: "hub_object \<Rightarrow> hub_object option res" where
  "TopologyServer_Shutdown (h, None) = Inl Null_dereference"
| "TopologyServer_Shutdown (h, Some s) = Inr (map_option (\<lambda>s. (h, Some s)) (server_Shutdown s))"

lemma TopologyServer_Shutdown_faults:
  assumes "sockPath \<noteq> []" "length sockPath + 1 < sun_path_size"
  shows "\<exists>obj leaked. TopologyServer_Create sockPath digest r = Inr (obj, leaked) \<and>
    (TopologyServer_Shutdown obj = Inl Null_dereference \<longleftrightarrow>
      cr_socket r = -1 \<or> cr_attach r = -1 \<or> cr_listen r = -1 \<or> cr_eventfd r = -1)"
  using assms
  by (auto simp: TopologyServer_Create_def UDSServer_Create_def Create_address_Inr Let_def)

section \<open>The destructor of the node\<close>

text \<open>
  What \<open>poll\<close> documents: a negative descriptor reports nothing. \<open>quiet\<close> leaves out the iterations
  in which \<open>poll\<close> itself fails or the data socket is broken, which end the loop by themselves.
\<close>

fun quiet :: "node_fds \<Rightarrow> node_poll \<Rightarrow> bool" where
  "quiet f Node_poll_failed = False"
| "quiet f (Node_poll shutdown revents r) \<longleftrightarrow> \<not> has_flag revents POLLERR \<and> \<not> has_flag revents POLLNVAL \<and>
     (nf_shutdownFd f < 0 \<longrightarrow> shutdown = 0)"

lemma node_iteration_quiet:
  assumes "quiet f it" "nf_shutdownFd f < 0" "node_iteration parse it n = Inr (ret, n')"
  shows "ret = None"
  using assms
  by (cases it) (auto simp: node_iteration_def bind_res_eq_Inr split: if_splits read_result.splits)

text \<open>
  \<open>Create\<close> ignores a failed \<open>eventfd\<close>. The node it returns then cannot be destroyed: its loop
  goes on through all events that are not errors, so the destructor, whose write goes to
  descriptor -1, never returns from its join.
\<close>

lemma node_without_event_never_joins:
  assumes "IPCNode_Create groupName nodeName nodeId number uninitialised r = Inr (Some (f, n0), leaked)"
    and "ncr_eventfd r = -1" "list_all (quiet f) its" "node_MainLoop parse its n = Inr (ret, n')"
  shows "ret = None"
proof -
  have neg: "nf_shutdownFd f < 0" using IPCNode_Create_SomeD(1) [OF assms(1)] assms(2) by simp
  from assms(3,4) show ?thesis
  proof (induction its arbitrary: n)
    case (Cons it its)
    then show ?case
      using node_iteration_quiet [OF _ neg, of it parse n]
      by (auto simp: bind_res_eq_Inr split: option.splits)
  qed simp
qed

lemma node_without_event_never_joins_witness:
  "\<exists>n'. node_MainLoop (\<lambda>b. (False, undefined)) [Node_poll 0 1 (Read_record [1, 2]), Node_poll 0 1 Read_error]
     (IPCNode_init [] [] 7 []) =
     Inr (None, n')"
proof -
  let ?r = "\<lparr>ncr_eventfd = -1, ncr_outSock = 4, ncr_listenSock = 5, ncr_bind = 0\<rparr>"
  let ?its = "[Node_poll 0 1 (Read_record [1, 2]), Node_poll 0 1 Read_error]"
  obtain f n0 leaked where c: "IPCNode_Create ''g'' ''n'' 7 9 zero_path ?r = Inr (Some (f, n0), leaked)"
    using IPCNode_Create_ok [of zero_path "''g''" "''n''" 7 9 ?r] by auto
  obtain ret n' where run: "node_MainLoop (\<lambda>b. (False, undefined)) ?its (IPCNode_init [] [] 7 []) = Inr (ret, n')"
    by (simp add: node_iteration_def node_OnData_def poll_flag_defs)
  have "list_all (quiet f) ?its" by (simp add: poll_flag_defs)
  then have "ret = None" using node_without_event_never_joins [OF c _ _ run] by simp
  with run show ?thesis by auto
qed

end
