(* ===== verification/SendRace.thy ===== *)
theory SendRace
  imports Prelude
begin

text \<open>
  \<open>UDSClient::Send\<close> against the end of \<open>UDSClient::MainLoop\<close>: the descriptor is tested under the
  lock and used after it is released, while the loop closes it. The descriptor table of the
  process is part of the state, because other threads open descriptors too.
\<close>

section \<open>Two threads and the descriptor table\<close>

datatype endpoint = Hub_socket | Foreign

datatype sender_pc =
    Before_check
  | After_check        \<comment> \<open>the lock is released, \<open>mFd\<close> not yet read again\<close>
  | In_send fd         \<comment> \<open>the argument of \<open>send\<close> is evaluated\<close>
  | Sent bool          \<comment> \<open>returned, with or without an error\<close>

datatype reader_pc =
    Reading
  | Closed_fd          \<comment> \<open>inside the locked block, after \<open>close (mFd)\<close>\<close>
  | Left_loop

record race_state =
  rc_fd :: fd
  rc_table :: "fd \<rightharpoonup> endpoint"
  rc_sender :: sender_pc
  rc_reader :: reader_pc
  rc_written :: "endpoint list"

definition race_init :: "fd \<Rightarrow> race_state" where
  "race_init fd = \<lparr>rc_fd = fd, rc_table = [fd \<mapsto> Hub_socket], rc_sender = Before_check,
                   rc_reader = Reading, rc_written = []\<rparr>"

definition Send_check :: "race_state \<Rightarrow> race_state" where
  "Send_check s = s\<lparr>rc_sender := (if rc_fd s = -1 then Sent False else After_check)\<rparr>"

definition Send_call :: "fd \<Rightarrow> race_state \<Rightarrow> race_state" where
  "Send_call d s =
     (case rc_table s d of
        None \<Rightarrow> s\<lparr>rc_sender := Sent False\<rparr>
      | Some e \<Rightarrow> s\<lparr>rc_sender := Sent True, rc_written := rc_written s @ [e]\<rparr>)"

inductive race_step :: "race_state \<Rightarrow> race_state \<Rightarrow> bool" where
  check: "rc_sender s = Before_check \<Longrightarrow> rc_reader s \<noteq> Closed_fd \<Longrightarrow> race_step s (Send_check s)"
| load: "rc_sender s = After_check \<Longrightarrow> race_step s (s\<lparr>rc_sender := In_send (rc_fd s)\<rparr>)"
| call: "rc_sender s = In_send d \<Longrightarrow> race_step s (Send_call d s)"
| again: "rc_sender s = Sent r \<Longrightarrow> race_step s (s\<lparr>rc_sender := Before_check\<rparr>)"
| close_fd: "rc_reader s = Reading \<Longrightarrow>
    race_step s (s\<lparr>rc_reader := Closed_fd, rc_table := (rc_table s)(rc_fd s := None)\<rparr>)"
| clear_fd: "rc_reader s = Closed_fd \<Longrightarrow> race_step s (s\<lparr>rc_reader := Left_loop, rc_fd := -1\<rparr>)"
| open_fd: "0 \<le> d \<Longrightarrow> rc_table s d = None \<Longrightarrow> race_step s (s\<lparr>rc_table := (rc_table s)(d \<mapsto> Foreign)\<rparr>)"

inductive_cases race_stepE: "race_step s s'"

definition opens_nothing :: "race_state \<Rightarrow> race_state \<Rightarrow> bool" where
  "opens_nothing s s' \<longleftrightarrow> dom (rc_table s') \<subseteq> dom (rc_table s)"

definition only_hub :: "race_state \<Rightarrow> bool" where
  "only_hub s \<longleftrightarrow> ran (rc_table s) \<subseteq> {Hub_socket} \<and> set (rc_written s) \<subseteq> {Hub_socket}"

lemma only_hub_step:
  assumes "race_step s s'" "opens_nothing s s'" "only_hub s"
  shows "only_hub s'"
  using assms
  by (elim race_stepE)
    (auto simp: only_hub_def opens_nothing_def Send_check_def Send_call_def ran_def dom_def
      split: option.splits if_splits)

text \<open>
  What was sent while the lock kept the test and the state together: once the loop has been left,
  a call that starts afterwards reports the error and writes nothing.
\<close>

definition late :: "race_state \<Rightarrow> bool" where
  "late s \<longleftrightarrow> rc_reader s = Left_loop \<and> rc_fd s = -1 \<and> rc_sender s \<in> {Before_check, Sent False}"

lemma late_step:
  assumes "race_step s s'" "late s"
  shows "late s' \<and> rc_written s' = rc_written s"
  using assms by (elim race_stepE) (auto simp: late_def Send_check_def)

lemma late_steps:
  assumes "race_step\<^sup>*\<^sup>* s s'" "late s"
  shows "late s' \<and> rc_written s' = rc_written s"
  using assms by (induction rule: rtranclp_induct) (auto dest: late_step)

lemma only_hub_steps:
  assumes "(\<lambda>s s'. race_step s s' \<and> opens_nothing s s')\<^sup>*\<^sup>* (race_init fd) s"
  shows "only_hub s"
  using assms
proof (induction rule: rtranclp_induct)
  case base
  show ?case by (simp add: only_hub_def race_init_def)
qed (blast intro: only_hub_step)

lemma race_to_foreign:
  assumes "0 \<le> fd"
  shows "\<exists>s. race_step\<^sup>*\<^sup>* (race_init fd) s \<and> rc_written s = [Foreign] \<and> rc_sender s = Sent True"
proof -
  let ?s0 = "race_init fd"
  let ?s1 = "?s0\<lparr>rc_sender := After_check\<rparr>"
  let ?s2 = "?s1\<lparr>rc_sender := In_send fd\<rparr>"
  let ?s3 = "?s2\<lparr>rc_reader := Closed_fd, rc_table := (rc_table ?s2)(fd := None)\<rparr>"
  let ?s4 = "?s3\<lparr>rc_table := (rc_table ?s3)(fd \<mapsto> Foreign)\<rparr>"
  let ?s5 = "Send_call fd ?s4"
  have "race_step ?s0 ?s1"
    using race_step.check [of ?s0] assms by (simp add: race_init_def Send_check_def)
  moreover have "race_step ?s1 ?s2" using race_step.load [of ?s1] by (simp add: race_init_def)
  moreover have "race_step ?s2 ?s3" using race_step.close_fd [of ?s2] by (simp add: race_init_def)
  moreover have "race_step ?s3 ?s4" using race_step.open_fd [of fd ?s3] assms by simp
  moreover have "race_step ?s4 ?s5" using race_step.call [of ?s4 fd] by simp
  ultimately have "race_step\<^sup>*\<^sup>* ?s0 ?s5" by (meson rtranclp.rtrancl_refl converse_rtranclp_into_rtranclp)
  moreover have "rc_written ?s5 = [Foreign] \<and> rc_sender ?s5 = Sent True"
    by (simp add: Send_call_def race_init_def)
  ultimately show ?thesis by blast
qed

text \<open>
  C30: what \<open>Send\<close> writes to. As long as no other thread opens a descriptor, only to the hub; and a
  call that begins after the loop has ended never writes. But a call that overlaps the end of the
  loop can report success for a record that went to another file of the process, because the
  descriptor was closed and its number given away between the test and the use.
\<close>

theorem Send_races_with_close:
  assumes "0 \<le> fd"
  shows "(\<forall>s. (\<lambda>s s'. race_step s s' \<and> opens_nothing s s')\<^sup>*\<^sup>* (race_init fd) s \<longrightarrow>
      set (rc_written s) \<subseteq> {Hub_socket}) \<and>
    (\<forall>s s'. late s \<and> race_step\<^sup>*\<^sup>* s s' \<longrightarrow> rc_written s' = rc_written s) \<and>
    (\<exists>s. race_step\<^sup>*\<^sup>* (race_init fd) s \<and> rc_written s = [Foreign] \<and> rc_sender s = Sent True)"
  using only_hub_steps late_steps race_to_foreign [OF assms] by (auto simp: only_hub_def)

lemma Send_races_with_close_witness:
  "\<exists>s. race_step\<^sup>*\<^sup>* (race_init 5) s \<and> rc_written s = [Foreign] \<and> rc_sender s = Sent True"
  using Send_races_with_close [of 5] by simp

end
