(* ===== verification/Teardown.thy ===== *)
theory Teardown
  imports Prelude
begin

text \<open>
  \<open>Wait\<close> and the destructors of \<open>UDSClient\<close> and \<open>UDSServer\<close> against the end of their main loops. The
  two classes have the same code for it. \<open>Wait\<close> copies the descriptor of the event under the lock
  and polls it after the lock is released, while the loop signals the event and closes it.
\<close>

section \<open>The caller, the main loop and the descriptor table\<close>

datatype descriptor = Connection | Event | Unrelated

datatype caller_pc =
    At_shutdown                  \<comment> \<open>the destructor, before \<open>Shutdown ()\<close>\<close>
  | At_wait                      \<comment> \<open>before the locked block of \<open>Wait\<close>\<close>
  | Copied fd                    \<comment> \<open>the lock is released, \<open>poll\<close> not yet entered\<close>
  | In_poll "descriptor option"        \<comment> \<open>inside \<open>poll\<close>, which holds on to the file it found\<close>
  | Waited                       \<comment> \<open>\<open>Wait\<close> has returned; the destructor is at \<open>join\<close>\<close>
  | Destroyed

datatype loop_pc = In_loop | After_loop | Signalled | Fd_closed | Event_closed | Loop_ended

record teardown =
  td_fd :: fd
  td_shutdownFd :: fd
  td_table :: "fd \<rightharpoonup> descriptor"
  td_event :: bool               \<comment> \<open>the counter of the event is not zero\<close>
  td_caller :: caller_pc
  td_loop :: loop_pc
  td_destructor :: bool          \<comment> \<open>the caller is the destructor, not a user of \<open>Wait\<close>\<close>

definition teardown_init :: "bool \<Rightarrow> fd \<Rightarrow> fd \<Rightarrow> teardown" where
  "teardown_init destructor fd shutdownFd = \<lparr>td_fd = fd, td_shutdownFd = shutdownFd,
     td_table = [fd \<mapsto> Connection, shutdownFd \<mapsto> Event], td_event = False,
     td_caller = (if destructor then At_shutdown else At_wait), td_loop = In_loop, td_destructor = destructor\<rparr>"

text \<open>The loop holds the lock from the first \<open>close\<close> to the end.\<close>

definition lock_free :: "teardown \<Rightarrow> bool" where
  "lock_free s \<longleftrightarrow> td_loop s \<noteq> Fd_closed \<and> td_loop s \<noteq> Event_closed"

definition write_event :: "fd \<Rightarrow> teardown \<Rightarrow> teardown" where
  "write_event d s = (if td_table s d = Some Event then s\<lparr>td_event := True\<rparr> else s)"

definition shutdown_call :: "teardown \<Rightarrow> teardown" where
  "shutdown_call s = (if td_shutdownFd s \<noteq> -1 then write_event (td_shutdownFd s) s else s)"

definition wait_copy :: "teardown \<Rightarrow> caller_pc" where
  "wait_copy s = (if td_shutdownFd s = -1 then Waited else Copied (td_shutdownFd s))"

inductive caller_step :: "teardown \<Rightarrow> teardown \<Rightarrow> bool" where
  shutdown: "td_caller s = At_shutdown \<Longrightarrow> lock_free s \<Longrightarrow> caller_step s ((shutdown_call s)\<lparr>td_caller := At_wait\<rparr>)"
| copy: "td_caller s = At_wait \<Longrightarrow> lock_free s \<Longrightarrow> caller_step s (s\<lparr>td_caller := wait_copy s\<rparr>)"
| enter: "td_caller s = Copied d \<Longrightarrow> caller_step s (s\<lparr>td_caller := In_poll (td_table s d)\<rparr>)"
| invalid: "td_caller s = In_poll None \<Longrightarrow> caller_step s (s\<lparr>td_caller := Waited\<rparr>)"
| woken: "td_caller s = In_poll (Some Event) \<Longrightarrow> td_event s \<Longrightarrow> caller_step s (s\<lparr>td_caller := Waited\<rparr>)"

inductive loop_step :: "teardown \<Rightarrow> teardown \<Rightarrow> bool" where
  polled: "td_loop s = In_loop \<Longrightarrow> td_event s \<Longrightarrow> loop_step s (s\<lparr>td_loop := After_loop\<rparr>)"
| signal: "td_loop s = After_loop \<Longrightarrow> loop_step s ((write_event (td_shutdownFd s) s)\<lparr>td_loop := Signalled\<rparr>)"
| close_fd: "td_loop s = Signalled \<Longrightarrow>
    loop_step s (s\<lparr>td_loop := Fd_closed, td_table := (td_table s)(td_fd s := None)\<rparr>)"
| close_event: "td_loop s = Fd_closed \<Longrightarrow>
    loop_step s (s\<lparr>td_loop := Event_closed, td_table := (td_table s)(td_shutdownFd s := None)\<rparr>)"
| clear: "td_loop s = Event_closed \<Longrightarrow> loop_step s (s\<lparr>td_loop := Loop_ended, td_fd := -1, td_shutdownFd := -1\<rparr>)"

text \<open>The destructor joins the thread of the loop.\<close>

inductive join_step :: "teardown \<Rightarrow> teardown \<Rightarrow> bool" where
  join: "td_destructor s \<Longrightarrow> td_caller s = Waited \<Longrightarrow> td_loop s = Loop_ended \<Longrightarrow> join_step s (s\<lparr>td_caller := Destroyed\<rparr>)"

definition own_step :: "teardown \<Rightarrow> teardown \<Rightarrow> bool" where
  "own_step s s' \<longleftrightarrow> caller_step s s' \<or> loop_step s s' \<or> join_step s s'"

text \<open>The connection is lost, or \<open>poll\<close> fails; another thread opens a descriptor.\<close>

inductive lost_step :: "teardown \<Rightarrow> teardown \<Rightarrow> bool" where
  lost: "td_loop s = In_loop \<Longrightarrow> lost_step s (s\<lparr>td_loop := After_loop\<rparr>)"

inductive open_step :: "teardown \<Rightarrow> teardown \<Rightarrow> bool" where
  opens: "0 \<le> d \<Longrightarrow> td_table s d = None \<Longrightarrow> open_step s (s\<lparr>td_table := (td_table s)(d \<mapsto> Unrelated)\<rparr>)"

definition alone :: "teardown \<Rightarrow> teardown \<Rightarrow> bool" where
  "alone s s' \<longleftrightarrow> own_step s s' \<or> lost_step s s'"

definition among_others :: "teardown \<Rightarrow> teardown \<Rightarrow> bool" where
  "among_others s s' \<longleftrightarrow> alone s s' \<or> open_step s s'"

lemmas teardown_cases = caller_step.cases loop_step.cases join_step.cases lost_step.cases

section \<open>Alone, it always ends\<close>

text \<open>What is left to do.\<close>

fun caller_rank :: "caller_pc \<Rightarrow> nat" where
  "caller_rank At_shutdown = 5"
| "caller_rank At_wait = 4"
| "caller_rank (Copied d) = 3"
| "caller_rank (In_poll f) = 2"
| "caller_rank Waited = 1"
| "caller_rank Destroyed = 0"

fun loop_rank :: "loop_pc \<Rightarrow> nat" where
  "loop_rank In_loop = 5"
| "loop_rank After_loop = 4"
| "loop_rank Signalled = 3"
| "loop_rank Fd_closed = 2"
| "loop_rank Event_closed = 1"
| "loop_rank Loop_ended = 0"

definition teardown_rank :: "teardown \<Rightarrow> nat" where
  "teardown_rank s = caller_rank (td_caller s) + loop_rank (td_loop s)"

lemma write_event_simps [simp]:
  "td_fd (write_event d s) = td_fd s" "td_shutdownFd (write_event d s) = td_shutdownFd s"
  "td_table (write_event d s) = td_table s" "td_caller (write_event d s) = td_caller s"
  "td_loop (write_event d s) = td_loop s"
  "td_event (write_event d s) \<longleftrightarrow> td_event s \<or> td_table s d = Some Event"
  by (auto simp: write_event_def)

lemma shutdown_call_simps [simp]:
  "td_fd (shutdown_call s) = td_fd s" "td_shutdownFd (shutdown_call s) = td_shutdownFd s"
  "td_table (shutdown_call s) = td_table s" "td_caller (shutdown_call s) = td_caller s"
  "td_loop (shutdown_call s) = td_loop s"
  "td_event (shutdown_call s) \<longleftrightarrow> td_event s \<or> td_shutdownFd s \<noteq> -1 \<and> td_table s (td_shutdownFd s) = Some Event"
  by (auto simp: shutdown_call_def)

lemma teardown_decreases:
  assumes "alone s s'"
  shows "teardown_rank s' < teardown_rank s"
  using assms unfolding alone_def own_step_def
  by (auto elim!: teardown_cases simp: teardown_rank_def wait_copy_def)

text \<open>
  Without others that open descriptors: the table holds what the loop has not closed, the event has
  been signalled before it is closed, and in a destructor it has been signalled before \<open>Wait\<close>.
\<close>

definition teardown_inv :: "teardown \<Rightarrow> bool" where
  "teardown_inv s \<longleftrightarrow>
     (td_shutdownFd s = -1 \<longleftrightarrow> td_loop s = Loop_ended) \<and>
     (\<forall>d. td_table s d \<noteq> Some Unrelated \<and> (td_table s d = Some Event \<longrightarrow> d = td_shutdownFd s)) \<and>
     (if td_loop s \<in> {Event_closed, Loop_ended} then \<forall>d. td_table s d \<noteq> Some Event
      else td_table s (td_shutdownFd s) = Some Event \<and> td_fd s \<noteq> td_shutdownFd s) \<and>
     (td_loop s \<notin> {In_loop, After_loop} \<longrightarrow> td_event s) \<and>
     (td_destructor s \<longrightarrow> td_caller s \<noteq> At_shutdown \<longrightarrow> td_event s) \<and>
     (\<not> td_destructor s \<longrightarrow> td_caller s \<noteq> At_shutdown \<and> td_caller s \<noteq> Destroyed) \<and>
     (td_caller s \<in> {Waited, Destroyed, In_poll None} \<longrightarrow> td_event s) \<and>
     (\<forall>d. td_caller s = Copied d \<longrightarrow> td_table s d \<noteq> Some Connection \<and> (td_table s d = None \<longrightarrow> td_event s)) \<and>
     td_caller s \<noteq> In_poll (Some Connection) \<and> td_caller s \<noteq> In_poll (Some Unrelated)"

lemma write_event_destructor [simp]: "td_destructor (write_event d s) = td_destructor s"
  by (simp add: write_event_def)

lemma shutdown_call_destructor [simp]: "td_destructor (shutdown_call s) = td_destructor s"
  by (simp add: shutdown_call_def)

lemma teardown_init_inv:
  assumes "0 \<le> fd" "0 \<le> e" "fd \<noteq> e"
  shows "teardown_inv (teardown_init destructor fd e)"
  using assms by (auto simp: teardown_inv_def teardown_init_def)

lemma caller_step_inv: "caller_step s s' \<Longrightarrow> teardown_inv s \<Longrightarrow> teardown_inv s'"
  by (erule caller_step.cases) (auto simp: teardown_inv_def wait_copy_def lock_free_def split: if_splits)

lemma loop_step_inv: "loop_step s s' \<Longrightarrow> teardown_inv s \<Longrightarrow> teardown_inv s'"
  by (erule loop_step.cases) (auto simp: teardown_inv_def split: if_splits)

lemma teardown_step_inv:
  assumes "alone s s'" "teardown_inv s"
  shows "teardown_inv s'"
  using assms caller_step_inv loop_step_inv unfolding alone_def own_step_def
  by (auto elim!: join_step.cases lost_step.cases) (auto simp: teardown_inv_def)

lemma loop_progress:
  assumes "td_loop s \<noteq> Loop_ended" "td_loop s = In_loop \<longrightarrow> td_event s"
  shows "\<exists>s'. own_step s s'"
  using assms unfolding own_step_def by (cases "td_loop s") (blast intro: loop_step.intros)+

lemma caller_progress:
  assumes inv: "teardown_inv s" and stuck: "\<not> (\<exists>s'. own_step s s')"
  shows "if td_destructor s then td_caller s = Destroyed
    else td_loop s = Loop_ended \<and> td_caller s = Waited \<or> td_loop s = In_loop \<and> td_caller s = In_poll (Some Event)"
proof -
  have loop: "td_loop s = Loop_ended \<or> td_loop s = In_loop \<and> \<not> td_event s" using loop_progress [of s] stuck by blast
  then have free: "lock_free s" by (auto simp: lock_free_def)
  have still: "\<not> caller_step s s'" "\<not> join_step s s'" for s' using stuck by (auto simp: own_step_def)
  show ?thesis
  proof (cases "td_caller s")
    case At_shutdown
    with free still show ?thesis by (blast intro: caller_step.shutdown)
  next
    case At_wait
    with free still show ?thesis by (blast intro: caller_step.copy)
  next
    case (Copied d)
    with still show ?thesis by (blast intro: caller_step.enter)
  next
    case (In_poll f)
    with inv still loop show ?thesis
      by (cases f rule: option.exhaust; cases "the f")
        (auto simp: teardown_inv_def intro: caller_step.invalid caller_step.woken)
  next
    case Waited
    with inv loop still show ?thesis by (auto simp: teardown_inv_def intro: join_step.join)
  next
    case Destroyed
    with inv show ?thesis by (auto simp: teardown_inv_def)
  qed
qed

section \<open>With others that open descriptors\<close>

lemma teardown_blocked:
  assumes "0 \<le> fd" "0 \<le> e" "fd \<noteq> e"
  shows "\<exists>s. among_others\<^sup>*\<^sup>* (teardown_init True fd e) s \<and>
    td_loop s = Loop_ended \<and> td_caller s = In_poll (Some Unrelated)"
proof -
  let ?s0 = "teardown_init True fd e"
  let ?s1 = "(shutdown_call ?s0)\<lparr>td_caller := At_wait\<rparr>"
  let ?s2 = "?s1\<lparr>td_caller := Copied e\<rparr>"
  let ?s3 = "?s2\<lparr>td_loop := After_loop\<rparr>"
  let ?s4 = "(write_event (td_shutdownFd ?s3) ?s3)\<lparr>td_loop := Signalled\<rparr>"
  let ?s5 = "?s4\<lparr>td_loop := Fd_closed, td_table := (td_table ?s4)(td_fd ?s4 := None)\<rparr>"
  let ?s6 = "?s5\<lparr>td_loop := Event_closed, td_table := (td_table ?s5)(td_shutdownFd ?s5 := None)\<rparr>"
  let ?s7 = "?s6\<lparr>td_table := (td_table ?s6)(e \<mapsto> Unrelated)\<rparr>"
  let ?s8 = "?s7\<lparr>td_caller := In_poll (td_table ?s7 e)\<rparr>"
  let ?s9 = "?s8\<lparr>td_loop := Loop_ended, td_fd := -1, td_shutdownFd := -1\<rparr>"
  have r1: "among_others ?s0 ?s1" using caller_step.shutdown [of ?s0] by (simp add: among_others_def alone_def own_step_def teardown_init_def lock_free_def)
  have r2: "among_others ?s1 ?s2"
    using caller_step.copy [of ?s1] assms by (simp add: among_others_def alone_def own_step_def teardown_init_def lock_free_def wait_copy_def)
  have r3: "among_others ?s2 ?s3"
    using loop_step.polled [of ?s2] assms by (simp add: among_others_def alone_def own_step_def) (simp add: teardown_init_def)
  have r4: "among_others ?s3 ?s4" using loop_step.signal [of ?s3] by (simp add: among_others_def alone_def own_step_def)
  have r5: "among_others ?s4 ?s5" using loop_step.close_fd [of ?s4] by (simp add: among_others_def alone_def own_step_def)
  have r6: "among_others ?s5 ?s6" using loop_step.close_event [of ?s5] by (simp add: among_others_def alone_def own_step_def)
  have r7: "among_others ?s6 ?s7" using open_step.opens [of e ?s6] assms by (simp add: among_others_def) (simp add: teardown_init_def)
  have r8: "among_others ?s7 ?s8" using caller_step.enter [of ?s7 e] by (simp add: among_others_def alone_def own_step_def)
  have r9: "among_others ?s8 ?s9" using loop_step.clear [of ?s8] by (simp add: among_others_def alone_def own_step_def)
  note then_on = converse_rtranclp_into_rtranclp [where r = among_others]
  have "among_others\<^sup>*\<^sup>* ?s0 ?s9"
    by (rule then_on [OF r1] then_on [OF r2] then_on [OF r3] then_on [OF r4] then_on [OF r5] then_on [OF r6]
        then_on [OF r7] then_on [OF r8] then_on [OF r9] rtranclp.rtrancl_refl)+
  moreover have "td_loop ?s9 = Loop_ended \<and> td_caller ?s9 = In_poll (Some Unrelated)" by simp
  ultimately show ?thesis by blast
qed

lemma blocked_stays:
  assumes "td_loop s = Loop_ended" "td_caller s = In_poll (Some Unrelated)"
  shows "\<not> (\<exists>s'. own_step s s')"
  using assms unfolding own_step_def
  by (auto elim!: caller_step.cases loop_step.cases join_step.cases)

text \<open>
  C23: How a connection or a server is taken down. As long as no other thread opens a descriptor, a
  destructor always returns, whenever the main loop ends by itself: no run of the two threads goes
  on for ever, and where neither can move the object is destroyed; and a thread in \<open>Wait\<close> is woken
  when the loop ends, not before and not never. But \<open>Wait\<close> polls the number it has copied after it
  has released the lock: if the loop closes the event first and another thread is given its number,
  the destructor waits for an unrelated file, with nothing left in this object that could wake it.
\<close>

theorem destructor_waits_for_unrelated:
  assumes "0 \<le> fd" "0 \<le> e" "fd \<noteq> e"
  shows "(\<forall>s. alone\<^sup>*\<^sup>* (teardown_init destructor fd e) s \<longrightarrow>
      \<not> (\<exists>s'. own_step s s') \<longrightarrow>
      (if destructor then td_caller s = Destroyed
       else td_loop s = Loop_ended \<and> td_caller s = Waited \<or> td_loop s = In_loop \<and> td_caller s = In_poll (Some Event))) \<and>
    \<not> (\<exists>f. \<forall>i. alone (f i) (f (Suc i))) \<and>
    (\<exists>s. among_others\<^sup>*\<^sup>* (teardown_init True fd e) s \<and>
      td_caller s = In_poll (Some Unrelated) \<and> \<not> (\<exists>s'. own_step s s'))"
proof -
  have "if destructor then td_caller s = Destroyed
       else td_loop s = Loop_ended \<and> td_caller s = Waited \<or> td_loop s = In_loop \<and> td_caller s = In_poll (Some Event)"
    if run: "alone\<^sup>*\<^sup>* (teardown_init destructor fd e) s"
      and stuck: "\<not> (\<exists>s'. own_step s s')" for s
  proof -
    have "teardown_inv s \<and> td_destructor s = destructor"
      using run
    proof (induction rule: rtranclp_induct)
      case base
      show ?case using teardown_init_inv [OF assms] by (simp add: teardown_init_def)
    next
      case (step s s')
      then show ?case using teardown_step_inv [of s s']
        by (auto simp: alone_def own_step_def elim!: teardown_cases)
    qed
    with caller_progress [OF _ stuck] show ?thesis by simp
  qed
  moreover have "\<not> (\<exists>f. \<forall>i. alone (f i) (f (Suc i)))"
  proof
    assume "\<exists>f. \<forall>i. alone (f i) (f (Suc i))"
    then obtain f where "(f (Suc i), f i) \<in> measure teardown_rank" for i using teardown_decreases by fastforce
    then show False using wf_measure unfolding wf_iff_no_infinite_down_chain by blast
  qed
  ultimately show ?thesis using teardown_blocked [OF assms] blocked_stays by blast
qed

lemma destructor_waits_for_unrelated_witness:
  "\<exists>s. among_others\<^sup>*\<^sup>* (teardown_init True 5 6) s \<and>
    td_caller s = In_poll (Some Unrelated) \<and> \<not> (\<exists>s'. own_step s s')"
  using destructor_waits_for_unrelated [of 5 6 True] by simp

end
