(* ===== verification/Locks.thy ===== *)
theory Locks
  imports Prelude
begin

text \<open>
  The mutexes of one process and the order in which the library takes them. Every operation is
  abstracted to the sequence of its lock and unlock events; all locks are scoped guards, so the
  sequences are nested. The mutexes are ordered so that the library only ever locks upwards
  (\<open>TopologyManager::Unsubscribe\<close> apart), and threads that do so always make progress.
\<close>

section \<open>Mutexes and their order\<close>

datatype mutex =
    Manager_mtx   \<comment> \<open>\<open>TopologyManager::mMtx\<close>\<close>
  | Client_mtx    \<comment> \<open>\<open>UDSClient::mMtx\<close>\<close>
  | Node_mtx      \<comment> \<open>\<open>IPCNode::mMtx\<close>\<close>
  | Hub_mtx       \<comment> \<open>\<open>TopologyServer::mMtx\<close>\<close>
  | Server_mtx    \<comment> \<open>\<open>UDSServer::mMtx\<close>\<close>

fun rank :: "mutex \<Rightarrow> nat" where
  "rank Manager_mtx = 0"
| "rank Client_mtx = 1"
| "rank Node_mtx = 2"
| "rank Hub_mtx = 3"
| "rank Server_mtx = 4"

lemma rank_inj: "rank a = rank b \<longleftrightarrow> a = b"
  by (cases a; cases b) simp_all

instantiation mutex :: linorder
begin

definition less_eq_mutex :: "mutex \<Rightarrow> mutex \<Rightarrow> bool" where
  "less_eq_mutex a b \<longleftrightarrow> rank a \<le> rank b"

definition less_mutex :: "mutex \<Rightarrow> mutex \<Rightarrow> bool" where
  "less_mutex a b \<longleftrightarrow> rank a < rank b"

instance
  by standard (auto simp: less_eq_mutex_def less_mutex_def rank_inj)

end

section \<open>The lock events of the operations\<close>

datatype lock_event = Acquire mutex | Release mutex

definition scoped :: "mutex \<Rightarrow> lock_event list \<Rightarrow> lock_event list" where
  "scoped m body = Acquire m # body @ [Release m]"

text \<open>\<open>n\<close> is the number of sends or callbacks made under the lock.\<close>

datatype locking_operation =
    Manager_Send nat             \<comment> \<open>\<open>Announce\<close>, \<open>Retract\<close>, \<open>Subscribe\<close>, each send of the flush\<close>
  | Manager_Introduce nat
  | Manager_Adopt
  | Manager_ApplyUpdate nat      \<comment> \<open>its callbacks enter \<open>IPCNode\<close>\<close>
  | Manager_Unsubscribe nat
  | Node_Subscribe nat
  | Node_Publish
  | Node_OnData
  | Client_Shutdown
  | Client_Wait
  | Client_Send
  | Client_exit
  | Hub_handler                  \<comment> \<open>\<open>OnConnect\<close>, \<open>OnDisconnect\<close>, \<open>OnData\<close>, \<open>PurgeDisconnected\<close>\<close>
  | Server_section               \<comment> \<open>the locked blocks of \<open>UDSServer\<close>, which call nothing\<close>

definition repeated :: "nat \<Rightarrow> lock_event list \<Rightarrow> lock_event list" where
  "repeated n body = concat (replicate n body)"

definition manager_Send_locks :: "nat \<Rightarrow> lock_event list" where
  "manager_Send_locks n = scoped Manager_mtx (repeated n (scoped Client_mtx []))"

definition IntroduceOurselves_locks :: "nat \<Rightarrow> lock_event list" where
  "IntroduceOurselves_locks n = scoped Manager_mtx (repeated n (scoped Client_mtx []))"

definition adopt_client_locks :: "lock_event list" where
  "adopt_client_locks = scoped Manager_mtx []"

definition ApplyUpdate_locks :: "nat \<Rightarrow> lock_event list" where
  "ApplyUpdate_locks n = scoped Manager_mtx (repeated n (scoped Node_mtx []))"

definition Unsubscribe_locks :: "nat \<Rightarrow> lock_event list" where
  "Unsubscribe_locks n = scoped Manager_mtx (manager_Send_locks n)"

definition node_Subscribe_locks :: "nat \<Rightarrow> lock_event list" where
  "node_Subscribe_locks n = manager_Send_locks n @ scoped Node_mtx []"

fun lock_events :: "locking_operation \<Rightarrow> lock_event list" where
  "lock_events (Manager_Send n) = manager_Send_locks n"
| "lock_events (Manager_Introduce n) = IntroduceOurselves_locks n"
| "lock_events Manager_Adopt = adopt_client_locks"
| "lock_events (Manager_ApplyUpdate n) = ApplyUpdate_locks n"
| "lock_events (Manager_Unsubscribe n) = Unsubscribe_locks n"
| "lock_events (Node_Subscribe n) = node_Subscribe_locks n"
| "lock_events Node_Publish = scoped Node_mtx []"
| "lock_events Node_OnData = scoped Node_mtx []"
| "lock_events Client_Shutdown = scoped Client_mtx []"
| "lock_events Client_Wait = scoped Client_mtx []"
| "lock_events Client_Send = scoped Client_mtx []"
| "lock_events Client_exit = scoped Client_mtx []"
| "lock_events Hub_handler = scoped Hub_mtx []"
| "lock_events Server_section = scoped Server_mtx []"

lemmas lock_sequences = manager_Send_locks_def IntroduceOurselves_locks_def adopt_client_locks_def
  ApplyUpdate_locks_def Unsubscribe_locks_def node_Subscribe_locks_def

section \<open>Threads\<close>

text \<open>A thread: the mutexes it holds, the last one first, and the events it has left.\<close>

type_synonym lock_thread = "mutex list \<times> lock_event list"

inductive lock_step :: "lock_thread list \<Rightarrow> lock_thread list \<Rightarrow> bool" where
  acquire: "i < length ts \<Longrightarrow> ts ! i = (held, Acquire m # p) \<Longrightarrow> \<forall>t\<in>set ts. m \<notin> set (fst t) \<Longrightarrow>
    lock_step ts (ts[i := (m # held, p)])"
| release: "i < length ts \<Longrightarrow> ts ! i = (m # held, Release m # p) \<Longrightarrow>
    lock_step ts (ts[i := (held, p)])"

abbreviation lock_steps :: "lock_thread list \<Rightarrow> lock_thread list \<Rightarrow> bool" where
  "lock_steps \<equiv> lock_step\<^sup>*\<^sup>*"

definition start_threads :: "locking_operation list list \<Rightarrow> lock_thread list" where
  "start_threads progs = map (\<lambda>ops. ([], concat (map lock_events ops))) progs"

definition all_done :: "lock_thread list \<Rightarrow> bool" where
  "all_done ts \<longleftrightarrow> (\<forall>t\<in>set ts. snd t = [])"

text \<open>The discipline: lock upwards, unlock the last one locked, end with nothing held.\<close>

fun disciplined :: "mutex list \<Rightarrow> lock_event list \<Rightarrow> bool" where
  "disciplined held [] = (held = [])"
| "disciplined held (Acquire m # p) = ((\<forall>h\<in>set held. h < m) \<and> disciplined (m # held) p)"
| "disciplined held (Release m # p) = (case held of [] \<Rightarrow> False | h # hs \<Rightarrow> h = m \<and> disciplined hs p)"

lemma disciplined_scoped:
  assumes "\<forall>h\<in>set held. h < m" "\<And>q. disciplined (m # held) q \<Longrightarrow> disciplined (m # held) (body @ q)"
    and "disciplined held p"
  shows "disciplined held (scoped m body @ p)"
  using assms by (simp add: scoped_def)

lemma disciplined_repeated:
  assumes "\<And>q. disciplined held q \<Longrightarrow> disciplined held (body @ q)" "disciplined held p"
  shows "disciplined held (repeated n body @ p)"
  using assms by (induction n) (simp_all add: repeated_def)

lemma mutex_order [simp]: "Manager_mtx < Client_mtx" "Manager_mtx < Node_mtx"
  by (simp_all add: less_mutex_def)

lemma disciplined_operation:
  assumes "\<forall>n. oper \<noteq> Manager_Unsubscribe n" "disciplined [] p"
  shows "disciplined [] (lock_events oper @ p)"
  using assms
  by (cases oper)
    (auto simp: lock_sequences intro!: disciplined_scoped disciplined_repeated)

lemma disciplined_program:
  assumes "\<forall>oper\<in>set ops. \<forall>n. oper \<noteq> Manager_Unsubscribe n"
  shows "disciplined [] (concat (map lock_events ops))"
  using assms by (induction ops) (auto intro: disciplined_operation)

definition all_disciplined :: "lock_thread list \<Rightarrow> bool" where
  "all_disciplined ts \<longleftrightarrow> (\<forall>(held, p)\<in>set ts. disciplined held p)"

lemma lock_step_disciplined: "lock_step ts ts' \<Longrightarrow> all_disciplined ts \<Longrightarrow> all_disciplined ts'"
proof (induction rule: lock_step.induct)
  case (acquire i ts held m p)
  then have "disciplined (m # held) p" by (force simp: all_disciplined_def dest: nth_mem)
  with acquire show ?case
    using set_update_subset_insert [of ts i "(m # held, p)"] by (auto simp: all_disciplined_def)
next
  case (release i ts m held p)
  then have "disciplined held p" by (force simp: all_disciplined_def dest: nth_mem)
  with release show ?case
    using set_update_subset_insert [of ts i "(held, p)"] by (auto simp: all_disciplined_def)
qed

lemma disciplined_holder: "disciplined held p \<Longrightarrow> held \<noteq> [] \<Longrightarrow> p \<noteq> []"
  by (cases p) auto

text \<open>Disciplined threads are never all blocked: look at the greatest mutex waited for.\<close>

lemma disciplined_progress:
  assumes "all_disciplined ts" "\<not> all_done ts"
  shows "\<exists>ts'. lock_step ts ts'"
proof (rule ccontr)
  assume stuck: "\<nexists>ts'. lock_step ts ts'"
  have waits: "\<exists>m q. p = Acquire m # q \<and> (\<exists>t\<in>set ts. m \<in> set (fst t)) \<and> (\<forall>h\<in>set held. h < m)"
    if t: "(held, p) \<in> set ts" and p: "p \<noteq> []" for held p
  proof -
    obtain i where i: "i < length ts" "ts ! i = (held, p)" using t by (auto simp: in_set_conv_nth)
    have d: "disciplined held p" using t assms(1) by (auto simp: all_disciplined_def)
    obtain e q where eq: "p = e # q" using p by (cases p) auto
    show ?thesis
    proof (cases e)
      case (Acquire m)
      with stuck i eq d show ?thesis using lock_step.acquire [of i ts held m q] by auto
    next
      case (Release m)
      with d eq obtain hs where "held = m # hs" by (auto split: list.splits)
      with stuck i eq Release show ?thesis using lock_step.release [of i ts m hs q] by auto
    qed
  qed
  define waited where "waited = {m. \<exists>held q. (held, Acquire m # q) \<in> set ts}"
  have "waited \<subseteq> (\<lambda>t. case snd t of Acquire m # q \<Rightarrow> m | _ \<Rightarrow> Manager_mtx) ` set ts"
    by (force simp: waited_def)
  then have fin: "finite waited" by (rule finite_subset) simp
  obtain held p where t: "(held, p) \<in> set ts" "p \<noteq> []" using assms(2) by (auto simp: all_done_def)
  from waits [OF this] t(1) have ne: "waited \<noteq> {}" by (auto simp: waited_def)
  let ?m = "Max waited"
  have "?m \<in> waited" using fin ne by simp
  then obtain held q where "(held, Acquire ?m # q) \<in> set ts" by (auto simp: waited_def)
  from waits [OF this] obtain held' p' where o: "(held', p') \<in> set ts" "?m \<in> set held'" by auto
  have "p' \<noteq> []"
    using o assms(1) disciplined_holder [of held' p'] by (auto simp: all_disciplined_def)
  from waits [OF o(1) this] obtain m q' where "p' = Acquire m # q'" "?m < m" using o(2) by blast
  with o(1) have "m \<in> waited" by (auto simp: waited_def)
  then have "m \<le> ?m" using fin by simp
  with \<open>?m < m\<close> show False by simp
qed

lemma sum_list_decrease:
  assumes "k < length ns" "(x :: nat) < ns ! k"
  shows "sum_list (ns[k := x]) < sum_list ns"
  using assms elem_le_sum_list [of k ns] by (simp add: sum_list_update)

definition events_left :: "lock_thread list \<Rightarrow> nat" where
  "events_left ts = sum_list (map (\<lambda>t. length (snd t)) ts)"

lemma lock_step_consumes: "lock_step ts ts' \<Longrightarrow> events_left ts' < events_left ts"
  by (induction rule: lock_step.induct) (simp_all add: events_left_def map_update sum_list_decrease)

section \<open>Progress\<close>

lemma lock_steps_disciplined: "lock_steps ts ts' \<Longrightarrow> all_disciplined ts \<Longrightarrow> all_disciplined ts'"
  by (induction rule: rtranclp_induct) (auto intro: lock_step_disciplined)

lemma start_threads_disciplined:
  assumes "\<forall>ops\<in>set progs. \<forall>oper\<in>set ops. \<forall>n. oper \<noteq> Manager_Unsubscribe n"
  shows "all_disciplined (start_threads progs)"
  using assms by (auto simp: all_disciplined_def start_threads_def intro: disciplined_program)

lemma disciplined_can_finish:
  "all_disciplined ts \<Longrightarrow> \<exists>ts'. lock_steps ts ts' \<and> all_done ts'"
proof (induction "events_left ts" arbitrary: ts rule: less_induct)
  case less
  show ?case
  proof (cases "all_done ts")
    case False
    with less.prems obtain ts' where step: "lock_step ts ts'"
      using disciplined_progress by blast
    then have "events_left ts' < events_left ts" "all_disciplined ts'"
      using lock_step_consumes lock_step_disciplined less.prems by blast+
    with less.hyps obtain ts'' where "lock_steps ts' ts''" "all_done ts''" by blast
    with step show ?thesis by (meson converse_rtranclp_into_rtranclp)
  qed blast
qed

text \<open>
  C28: the library's lock order is free of deadlock. Let the threads of a process run any
  operations except \<open>Unsubscribe\<close>. In every state they reach, either all have finished or some
  thread can take its next lock step; every step uses up one event, so no schedule runs for ever;
  and the threads can always run to the end.
\<close>

theorem lock_order_progress:
  assumes "\<forall>ops\<in>set progs. \<forall>oper\<in>set ops. \<forall>n. oper \<noteq> Manager_Unsubscribe n"
    and "lock_steps (start_threads progs) ts"
  shows "(all_done ts \<or> (\<exists>ts'. lock_step ts ts')) \<and>
    (\<forall>ts'. lock_step ts ts' \<longrightarrow> events_left ts' < events_left ts) \<and>
    (\<exists>ts'. lock_steps ts ts' \<and> all_done ts')"
proof -
  have d: "all_disciplined ts"
    using lock_steps_disciplined [OF assms(2)] start_threads_disciplined [OF assms(1)] by simp
  from d disciplined_progress lock_step_consumes disciplined_can_finish [OF d] show ?thesis by blast
qed

definition sample_programs :: "locking_operation list list" where
  "sample_programs = [[Node_Subscribe 1, Node_Publish], [Manager_Introduce 3, Manager_Adopt],
    [Manager_ApplyUpdate 1], [Node_OnData], [Client_Send, Client_exit], [Hub_handler, Server_section]]"

theorem lock_order_progress_witness:
  "\<exists>ts. lock_steps (start_threads sample_programs) ts \<and> all_done ts"
  using lock_order_progress [of sample_programs "start_threads sample_programs"]
  by (simp add: sample_programs_def)

section \<open>The exception\<close>

lemma replaced_thread:
  assumes "k < length ts" "j < length ts"
  shows "(ts[k := t]) ! j = (if k = j then t else ts ! j)"
  using assms by simp

lemma lock_step_other:
  assumes "lock_step ts ts'" "j < length ts"
  shows "length ts' = length ts \<and> (ts' ! j = ts ! j \<or>
    (\<exists>m p. snd (ts ! j) = Acquire m # p \<and> m \<notin> set (fst (ts ! j)) \<and> ts' ! j = (m # fst (ts ! j), p)) \<or>
    (\<exists>m p h. ts ! j = (m # h, Release m # p) \<and> ts' ! j = (h, p)))"
  using assms by (cases rule: lock_step.cases) (auto simp: replaced_thread)

definition doomed :: "lock_thread \<Rightarrow> bool" where
  "doomed t \<longleftrightarrow> (\<exists>p q. snd t = p @ Acquire Manager_mtx # Acquire Manager_mtx # q) \<or>
    (\<exists>q. Manager_mtx \<in> set (fst t) \<and> snd t = Acquire Manager_mtx # q)"

lemma doomed_acquire:
  assumes "doomed (held, Acquire m # p)" "m \<notin> set held"
  shows "doomed (m # held, p)"
  using assms by (auto simp: doomed_def Cons_eq_append_conv)

lemma doomed_release: "doomed (m # held, Release m # p) \<Longrightarrow> doomed (held, p)"
  by (auto simp: doomed_def Cons_eq_append_conv)

lemma lock_steps_doomed:
  assumes "lock_steps ts ts'" "j < length ts" "doomed (ts ! j)"
  shows "length ts' = length ts \<and> doomed (ts' ! j)"
  using assms
proof (induction rule: rtranclp_induct)
  case (step us us')
  then have "j < length us" "doomed (us ! j)" "length us = length ts" by auto
  with lock_step_other [OF step.hyps(2) this(1)] show ?case
    by (metis doomed_acquire doomed_release prod.collapse)
qed simp

lemma Unsubscribe_doomed:
  assumes "Manager_Unsubscribe n \<in> set ops"
  shows "doomed ([], concat (map lock_events ops))"
proof -
  obtain us vs where "ops = us @ Manager_Unsubscribe n # vs" using assms by (auto dest: split_list)
  then show ?thesis by (auto simp: doomed_def lock_sequences scoped_def)
qed

text \<open>
  C29: \<open>Unsubscribe\<close> is the one exception. Whatever the other threads run, and in every schedule, a
  thread whose program contains \<open>TopologyManager::Unsubscribe\<close> never finishes, and so the process
  never does.
\<close>

theorem unsubscribe_never_done:
  assumes "j < length progs" "Manager_Unsubscribe n \<in> set (progs ! j)"
    and "lock_steps (start_threads progs) ts"
  shows "snd (ts ! j) \<noteq> [] \<and> \<not> all_done ts"
proof -
  have "j < length (start_threads progs)" "doomed (start_threads progs ! j)"
    using assms(1) Unsubscribe_doomed [OF assms(2)] by (simp_all add: start_threads_def)
  from lock_steps_doomed [OF assms(3) this] assms(1)
  have "j < length ts" "snd (ts ! j) \<noteq> []" by (auto simp: start_threads_def doomed_def)
  then show ?thesis using nth_mem by (fastforce simp: all_done_def)
qed

theorem unsubscribe_never_done_witness:
  "\<not> all_done (start_threads [[Node_Publish], [Manager_Send 1, Manager_Unsubscribe 1]])"
  using unsubscribe_never_done
    [of 1 "[[Node_Publish], [Manager_Send 1, Manager_Unsubscribe 1]]" 1
      "start_threads [[Node_Publish], [Manager_Send 1, Manager_Unsubscribe 1]]"]
  by simp

end
