(* ===== verification/Backpressure.thy ===== *)
theory Backpressure
  imports Prelude
begin

text \<open>
  The introduction of a manager against a hub whose writes block. Both ends use blocking sockets:
  \<open>IntroduceOurselves\<close> sends all its messages while it holds the manager's \<open>mMtx\<close>, the reader thread
  needs that mutex in \<open>ApplyUpdate\<close>, and the hub writes its digest and its broadcasts from the one
  thread that also reads. A message is a unit here; what matters is how many there are and how many
  records \<open>q\<close> a socket buffers. There is one connection: messages of other clients would only add
  to what the hub has to write.
\<close>

section \<open>One connection\<close>

datatype intro_phase =
    Unsent nat       \<comment> \<open>connected, \<open>IntroduceOurselves\<close> not yet in its locked block\<close>
  | Sending nat      \<comment> \<open>messages still to send; \<open>mMtx\<close> is held\<close>
  | Introduced

record connection =
  cn_phase :: intro_phase
  cn_up :: nat           \<comment> \<open>records on their way to the hub\<close>
  cn_pending :: nat      \<comment> \<open>records the hub's handler still has to write to this client\<close>
  cn_down :: nat         \<comment> \<open>records on their way to the manager\<close>
  cn_reading :: bool     \<comment> \<open>the reader is in \<open>ApplyUpdate\<close>, in front of its lock\<close>

text \<open>
  \<open>M\<close> messages make up the introduction; \<open>OnConnect\<close> has the \<open>H\<close> messages of the history to write.
\<close>

definition connected :: "nat \<Rightarrow> nat \<Rightarrow> connection" where
  "connected H M = \<lparr>cn_phase = Unsent M, cn_up = 0, cn_pending = H, cn_down = 0, cn_reading = False\<rparr>"

text \<open>A message received makes the hub write at most one record to its sender.\<close>

inductive connection_step :: "nat \<Rightarrow> connection \<Rightarrow> connection \<Rightarrow> bool" for q where
  lock: "cn_phase s = Unsent n \<Longrightarrow> connection_step q s (s\<lparr>cn_phase := Sending n\<rparr>)"
| send: "cn_phase s = Sending (Suc n) \<Longrightarrow> cn_up s < q \<Longrightarrow>
    connection_step q s (s\<lparr>cn_phase := Sending n, cn_up := Suc (cn_up s)\<rparr>)"
| unlock: "cn_phase s = Sending 0 \<Longrightarrow> connection_step q s (s\<lparr>cn_phase := Introduced\<rparr>)"
| hub_write: "cn_pending s = Suc k \<Longrightarrow> cn_down s < q \<Longrightarrow>
    connection_step q s (s\<lparr>cn_pending := k, cn_down := Suc (cn_down s)\<rparr>)"
| hub_read: "cn_pending s = 0 \<Longrightarrow> cn_up s = Suc u \<Longrightarrow> r \<le> 1 \<Longrightarrow>
    connection_step q s (s\<lparr>cn_up := u, cn_pending := r\<rparr>)"
| read_record: "\<not> cn_reading s \<Longrightarrow> cn_down s = Suc d \<Longrightarrow>
    connection_step q s (s\<lparr>cn_down := d, cn_reading := True\<rparr>)"
| apply_record: "cn_reading s \<Longrightarrow> \<forall>n. cn_phase s \<noteq> Sending n \<Longrightarrow>
    connection_step q s (s\<lparr>cn_reading := False\<rparr>)"

inductive_cases connection_stepE: "connection_step q s s'"

abbreviation connection_steps :: "nat \<Rightarrow> connection \<Rightarrow> connection \<Rightarrow> bool" where
  "connection_steps q \<equiv> (connection_step q)\<^sup>*\<^sup>*"

definition finished :: "connection \<Rightarrow> bool" where
  "finished s \<longleftrightarrow> cn_phase s = Introduced \<and> cn_up s = 0 \<and> cn_pending s = 0 \<and> cn_down s = 0 \<and> \<not> cn_reading s"

definition stuck :: "nat \<Rightarrow> connection \<Rightarrow> bool" where
  "stuck q s \<longleftrightarrow> (\<nexists>s'. connection_step q s s') \<and> \<not> finished s"

section \<open>What a stuck connection looks like\<close>

fun unsent :: "intro_phase \<Rightarrow> nat" where
  "unsent (Unsent n) = n"
| "unsent (Sending n) = n"
| "unsent Introduced = 0"

lemma stuck_shape:
  assumes "0 < q" "stuck q s"
  shows "\<exists>n. cn_phase s = Sending (Suc n) \<and> cn_up s \<ge> q \<and> 0 < cn_pending s \<and> cn_down s \<ge> q \<and> cn_reading s"
proof -
  have no: "\<not> connection_step q s s'" for s' using assms(2) by (auto simp: stuck_def)
  have wr: "cn_down s \<ge> q" if "0 < cn_pending s"
    using that no connection_step.hub_write [of s _ q] by (cases "cn_pending s") (auto simp: not_less [symmetric])
  have rd: "cn_pending s \<noteq> 0" if "0 < cn_up s"
    using that no hub_read [of s _ 0 q] by (cases "cn_up s") auto
  have rr: "cn_reading s" if "0 < cn_down s"
    using that no read_record [of s _ q] by (cases "cn_down s") auto
  show ?thesis
  proof (cases "cn_phase s")
    case (Unsent n)
    with no lock [of s n q] show ?thesis by blast
  next
    case (Sending n)
    then obtain k where n: "n = Suc k" using no unlock [of s q] by (cases n) auto
    with Sending have "cn_up s \<ge> q" using no send [of s k q] by (auto simp: not_less [symmetric])
    with n Sending rd wr rr assms(1) show ?thesis by force
  next
    case Introduced
    then have "\<not> cn_reading s" using no apply_record [of s q] by auto
    with rr have "cn_down s = 0" by auto
    with wr assms(1) have "cn_pending s = 0" by auto
    with rd have "cn_up s = 0" by auto
    with \<open>\<not> cn_reading s\<close> \<open>cn_down s = 0\<close> \<open>cn_pending s = 0\<close> Introduced assms(2) show ?thesis
      by (simp add: stuck_def finished_def)
  qed
qed

text \<open>
  Accounting: \<open>p\<close> messages have been processed by the hub, and the records it had to write for the
  digest and for them are pending, under way, being read, or applied.
\<close>

definition accounted :: "nat \<Rightarrow> nat \<Rightarrow> connection \<Rightarrow> bool" where
  "accounted H M s \<longleftrightarrow> (\<exists>p. unsent (cn_phase s) + cn_up s + p = M \<and>
     cn_pending s + cn_down s + of_bool (cn_reading s) \<le> H + p)"

lemma accounted_step: "connection_step q s s' \<Longrightarrow> accounted H M s \<Longrightarrow> accounted H M s'"
proof (induction rule: connection_step.induct)
  case (hub_read s u r)
  then obtain p where "unsent (cn_phase s) + cn_up s + p = M"
    "cn_pending s + cn_down s + of_bool (cn_reading s) \<le> H + p" by (auto simp: accounted_def)
  with hub_read show ?case
    unfolding accounted_def by (intro exI [of _ "Suc p"]) (simp del: of_bool_eq_iff)
qed (auto simp: accounted_def)

lemma accounted_steps: "connection_steps q (connected H M) s \<Longrightarrow> accounted H M s"
proof (induction rule: rtranclp_induct)
  case base
  show ?case by (simp add: accounted_def connected_def)
qed (rule accounted_step)

section \<open>How it gets stuck\<close>

text \<open>The state in which the hub has written \<open>k\<close> records and the reader holds the first.\<close>

definition wedged :: "nat \<Rightarrow> nat \<Rightarrow> nat \<Rightarrow> nat \<Rightarrow> connection" where
  "wedged left up pending k = \<lparr>cn_phase = Sending left, cn_up = up, cn_pending = pending,
     cn_down = k - 1, cn_reading = (0 < k)\<rparr>"

lemma wedge_write:
  assumes "0 < q" "k \<le> q"
  shows "connection_steps q (wedged left up (Suc pending) k) (wedged left up pending (Suc k))"
proof (cases k)
  case 0
  let ?s = "wedged left up (Suc pending) 0"
  let ?t = "?s\<lparr>cn_pending := pending, cn_down := Suc (cn_down ?s)\<rparr>"
  have "connection_step q ?s ?t" using assms(1) by (intro hub_write) (simp_all add: wedged_def)
  moreover have "connection_step q ?t (?t\<lparr>cn_down := 0, cn_reading := True\<rparr>)"
    by (intro read_record) (simp_all add: wedged_def)
  moreover have "?t\<lparr>cn_down := 0, cn_reading := True\<rparr> = wedged left up pending (Suc 0)"
    by (simp add: wedged_def)
  ultimately show ?thesis using 0 by (metis r_into_rtranclp rtranclp.rtrancl_into_rtrancl)
next
  case (Suc j)
  let ?s = "wedged left up (Suc pending) k"
  have "connection_step q ?s (?s\<lparr>cn_pending := pending, cn_down := Suc (cn_down ?s)\<rparr>)"
    using Suc assms(2) by (intro hub_write) (simp_all add: wedged_def)
  with Suc show ?thesis by (simp add: wedged_def r_into_rtranclp)
qed

lemma wedge_writes:
  assumes "0 < q" "k + n \<le> Suc q"
  shows "connection_steps q (wedged left up (n + pending) k) (wedged left up pending (k + n))"
  using assms(2)
proof (induction n arbitrary: k)
  case (Suc n)
  have "connection_steps q (wedged left up (Suc (n + pending)) k) (wedged left up (n + pending) (Suc k))"
    using assms(1) Suc.prems by (intro wedge_write) auto
  with Suc.IH [of "Suc k"] Suc.prems show ?case by (simp add: rtranclp_trans)
qed simp

lemma wedge_send: "up < q \<Longrightarrow> connection_step q (wedged (Suc left) up pending k) (wedged left (Suc up) pending k)"
  using send [of "wedged (Suc left) up pending k" left q] by (simp add: wedged_def)

lemma wedge_sends: "n \<le> q \<Longrightarrow> connection_steps q (wedged (left + n) 0 pending k) (wedged left n pending k)"
proof (induction n arbitrary: left)
  case (Suc n)
  have "connection_steps q (wedged (Suc left + n) 0 pending k) (wedged (Suc left) n pending k)"
    using Suc.IH [of "Suc left"] Suc.prems by simp
  with wedge_send [of n q left pending k] Suc.prems show ?case by (simp add: rtranclp.rtrancl_into_rtrancl)
qed simp

lemma wedge_answer:
  assumes "0 < q"
  shows "connection_steps q (wedged (Suc left) 0 0 k) (wedged left 0 1 k)"
proof -
  have "connection_step q (wedged left 1 0 k) (wedged left 0 1 k)"
    using hub_read [of "wedged left 1 0 k" 0 1 q] by (simp add: wedged_def)
  with wedge_send [OF assms, of left 0 k] show ?thesis
    by (simp add: converse_rtranclp_into_rtranclp r_into_rtranclp)
qed

lemma wedge_answers:
  assumes "0 < q" "k + n \<le> Suc q"
  shows "connection_steps q (wedged (n + left) 0 0 k) (wedged left 0 0 (k + n))"
  using assms(2)
proof (induction n arbitrary: k)
  case (Suc n)
  have "connection_steps q (wedged (Suc (n + left)) 0 0 k) (wedged (n + left) 0 1 k)"
    by (rule wedge_answer [OF assms(1)])
  also have "connection_steps q \<dots> (wedged (n + left) 0 0 (Suc k))"
    using wedge_write [of q k "n + left" 0 0] assms(1) Suc.prems by simp
  also have "connection_steps q \<dots> (wedged left 0 0 (Suc k + n))" using Suc.IH [of "Suc k"] Suc.prems by simp
  finally show ?case by simp
qed simp

lemma wedged_stuck: "stuck q (wedged (Suc left) q (Suc pending) (Suc q))"
  by (auto simp: stuck_def finished_def wedged_def elim!: connection_stepE)

lemma wedge_from_sending:
  assumes "0 < q" "q < M" "2 * q + 2 < H + M"
  shows "\<exists>left pending. connection_steps q (wedged M 0 H 0) (wedged (Suc left) q (Suc pending) (Suc q))"
proof (cases "Suc q < H")
  case True
  then obtain pending where H: "H = Suc q + Suc pending" by (metis add_Suc_right less_imp_Suc_add)
  obtain left where M: "M = Suc left + q" using assms(2) by (metis add.commute add_Suc_right less_imp_Suc_add)
  have "connection_steps q (wedged M 0 H 0) (wedged M 0 (Suc pending) (Suc q))"
    using wedge_writes [OF assms(1), of 0 "Suc q" M 0 "Suc pending"] by (simp add: H)
  also have "connection_steps q \<dots> (wedged (Suc left) q (Suc pending) (Suc q))"
    unfolding M by (rule wedge_sends) simp
  finally show ?thesis by blast
next
  case False
  define n where "n = Suc q - H"
  have Hn: "H + n = Suc q" using False by (simp add: n_def)
  obtain left where M: "M = n + Suc (Suc left + q)"
    using assms(3) Hn less_imp_Suc_add [of "n + Suc q" M] by (auto simp: algebra_simps)
  have "connection_steps q (wedged M 0 H 0) (wedged M 0 0 H)"
    using wedge_writes [OF assms(1), of 0 H M 0 0] Hn by simp
  also have "connection_steps q \<dots> (wedged (Suc (Suc left + q)) 0 0 (Suc q))"
    using wedge_answers [OF assms(1), of H n "Suc (Suc left + q)"] Hn by (simp only: M order_refl)
  also have "connection_steps q \<dots> (wedged (Suc left + q) 0 1 (Suc q))"
    by (rule wedge_answer [OF assms(1)])
  also have "connection_steps q \<dots> (wedged (Suc left) q 1 (Suc q))" by (rule wedge_sends) simp
  finally show ?thesis by (metis One_nat_def)
qed

section \<open>Every run ends\<close>

fun phase_work :: "intro_phase \<Rightarrow> nat" where
  "phase_work (Unsent n) = 6 * n + 2"
| "phase_work (Sending n) = 6 * n + 1"
| "phase_work Introduced = 0"

definition work :: "connection \<Rightarrow> nat" where
  "work s = phase_work (cn_phase s) + 5 * cn_up s + 3 * cn_pending s + 2 * cn_down s + of_bool (cn_reading s)"

lemma step_works: "connection_step q s s' \<Longrightarrow> work s' < work s"
  by (induction rule: connection_step.induct) (auto simp: work_def)

section \<open>The property\<close>

text \<open>
  C21: the hub and a connecting manager can block each other for ever. The manager holds its mutex
  and waits for room towards the hub, the hub waits for room towards the manager, and the
  manager's reader, which would make room, waits for the mutex. With sockets that buffer \<open>q\<close>
  records, \<open>H\<close> messages in the history of the hub and \<open>M\<close> messages in the introduction, such a state
  can be reached exactly when the introduction alone does not fit a buffer and the two together
  exceed both buffers and the one record being handled on each side. There is no other way to get
  stuck, and no run goes on for ever.
\<close>

theorem introduction_deadlock_iff:
  assumes "0 < q"
  shows "((\<exists>s. connection_steps q (connected H M) s \<and> stuck q s) \<longleftrightarrow> q < M \<and> 2 * q + 2 < H + M) \<and>
    (\<forall>s s'. connection_step q s s' \<longrightarrow> work s' < work s)"
proof (intro conjI iffI)
  assume "\<exists>s. connection_steps q (connected H M) s \<and> stuck q s"
  then obtain s where s: "connection_steps q (connected H M) s" "stuck q s" by blast
  from stuck_shape [OF assms s(2)] accounted_steps [OF s(1)]
  have "q < M \<and> 2 * q + 2 < H + M" by (auto simp: accounted_def)
  then show "q < M" "2 * q + 2 < H + M" by simp_all
next
  assume "q < M \<and> 2 * q + 2 < H + M"
  then obtain left pending where
    run: "connection_steps q (wedged M 0 H 0) (wedged (Suc left) q (Suc pending) (Suc q))"
    using wedge_from_sending [OF assms] by blast
  have "connection_step q (connected H M) (wedged M 0 H 0)"
    using connection_step.lock [of "connected H M" M q] by (simp add: connected_def wedged_def)
  with run wedged_stuck show "\<exists>s. connection_steps q (connected H M) s \<and> stuck q s"
    by (meson converse_rtranclp_into_rtranclp)
qed (use step_works in blast)

lemma introduction_deadlock_iff_witness:
  "(\<exists>s. connection_steps 10 (connected 15 11) s \<and> stuck 10 s) \<and>
   \<not> (\<exists>s. connection_steps 10 (connected 1000 10) s \<and> stuck 10 s)"
  using introduction_deadlock_iff [of 10 15 11] introduction_deadlock_iff [of 10 1000 10] by simp

end
