(* ===== verification/SystemRun.thy ===== *)
theory SystemRun
  imports NodeCalls ManagerLoop HubThreads
begin

text \<open>
  A whole group at work: one hub, and any number of nodes that are created, connect, introduce
  themselves, send the requests of their users, apply what the hub sends them, and go away. Each
  node has a connection to the hub with a queue of records in either direction. A step is one
  handler call of the hub, or one locked section of a node; steps of different processes interleave
  in any order. Failures of system calls are left out here: they are the subject of \<open>ManagerLoop\<close>,
  \<open>HubElection\<close> and \<open>Backpressure\<close>.
\<close>

section \<open>State\<close>

text \<open>
  \<open>mb_pc\<close> is where the manager's main thread is (\<open>ManagerLoop\<close>); its first connection has handle 0.
  \<open>mb_up\<close> are the records on their way to the hub, \<open>mb_down\<close> those on their way to the node.
\<close>

record member =
  mb_node :: IPCNode
  mb_pc :: main_pc
  mb_up :: "TopologyMessage list"
  mb_down :: "TopologyMessage list"

text \<open>
  A member is named by the descriptor under which the hub will know its connection. \<open>sy_used\<close> are
  the descriptors used so far, \<open>sy_paths\<close> the data path of each node id used so far.
\<close>

record system =
  sy_hub :: TopologyServer
  sy_members :: "fd \<rightharpoonup> member"
  sy_used :: "fd set"
  sy_paths :: "u64 \<rightharpoonup> string"

definition system_init :: system where
  "system_init = \<lparr>sy_hub = TopologyServer_init [], sy_members = Map.empty, sy_used = {},
     sy_paths = Map.empty\<rparr>"

abbreviation mb_manager :: "member \<Rightarrow> TopologyManager" where
  "mb_manager mb \<equiv> in_manager (mb_node mb)"

section \<open>Steps\<close>

definition new_member :: "string \<Rightarrow> string \<Rightarrow> u64 \<Rightarrow> u64 \<Rightarrow> member" where
  "new_member groupName nodeName nodeId number =
     \<lparr>mb_node = IPCNode_init groupName nodeName nodeId (data_path number), mb_pc = At_top,
      mb_up = [], mb_down = []\<rparr>"

text \<open>What a section of a node gives to its connection: messages sent and messages introduced.\<close>

definition sent_since :: "IPCNode \<Rightarrow> IPCNode \<Rightarrow> TopologyMessage list" where
  "sent_since n n' = map (fst \<circ> snd) (filter (\<lambda>(c, msg, ret). 0 \<le> ret)
     (drop (length (tm_sent (in_manager n))) (tm_sent (in_manager n'))))"

definition introduced_since :: "IPCNode \<Rightarrow> IPCNode \<Rightarrow> TopologyMessage list" where
  "introduced_since n n' = map snd (drop (length (tm_intro (in_manager n))) (tm_intro (in_manager n')))"

text \<open>What a handler of the hub writes goes to the queues of its connections.\<close>

definition hub_moves :: "TopologyServer \<Rightarrow> system \<Rightarrow> system" where
  "hub_moves h s = s\<lparr>sy_hub := h, sy_members := (\<lambda>d. map_option (\<lambda>mb. mb\<lparr>mb_down := mb_down mb @
     stream d (drop (length (ts_wire (sy_hub s))) (ts_wire h))\<rparr>) (sy_members s d))\<rparr>"

definition set_member :: "fd \<Rightarrow> member \<Rightarrow> system \<Rightarrow> system" where
  "set_member c mb s = s\<lparr>sy_members := (sy_members s)(c \<mapsto> mb)\<rparr>"

text \<open>What a user and the datagram thread may do, with sends that succeed.\<close>

fun user_call :: "node_call \<Rightarrow> bool" where
  "user_call (Announce_call ret topic mime) \<longleftrightarrow> 0 \<le> ret"
| "user_call (Retract_call ret topic) \<longleftrightarrow> 0 \<le> ret"
| "user_call (Subscribe_call ret topic cb) \<longleftrightarrow> 0 \<le> ret \<and> cb \<noteq> None"
| "user_call (Unsubscribe_call ret topic) \<longleftrightarrow> False"
| "user_call (Publish_call topic data) \<longleftrightarrow> True"
| "user_call (Datagram b) \<longleftrightarrow> True"
| "user_call (Update m) \<longleftrightarrow> False"

text \<open>
  Steps of the nodes. The reader of the connection runs from the moment the connection is made, so
  it may apply messages before \<open>IntroduceOurselves\<close> takes the mutex, and these are then part of the
  history the node introduces itself with.
\<close>

inductive node_step ::
  "(bytes \<Rightarrow> bool \<times> MetadataMessage) \<Rightarrow> (MetadataMessage \<Rightarrow> bytes) \<Rightarrow> member \<Rightarrow> member \<Rightarrow> bool"
  for dparse dser where
  connects: "mb_pc mb = At_top \<Longrightarrow> node_step dparse dser mb (mb\<lparr>mb_pc := Introduce 0\<rparr>)"
| introduces: "mb_pc mb = Introduce 0 \<Longrightarrow> on_manager (IntroduceOurselves 0) (mb_node mb) = Inr n \<Longrightarrow>
    node_step dparse dser mb
      (mb\<lparr>mb_pc := Adopt 0, mb_node := n, mb_up := mb_up mb @ introduced_since (mb_node mb) n\<rparr>)"
| adopts: "mb_pc mb = Adopt 0 \<Longrightarrow> adopt_client 0 (mb_manager mb) = Inr (backlog, m) \<Longrightarrow>
    node_step dparse dser mb (mb\<lparr>mb_pc := Flush 0 backlog, mb_node := (mb_node mb)\<lparr>in_manager := m\<rparr>\<rparr>)"
| flushes: "mb_pc mb = Flush 0 (msg # backlog) \<Longrightarrow> 0 \<le> ret \<Longrightarrow> on_manager (Send ret msg) (mb_node mb) = Inr n \<Longrightarrow>
    node_step dparse dser mb
      (mb\<lparr>mb_pc := Flush 0 backlog, mb_node := n, mb_up := mb_up mb @ sent_since (mb_node mb) n\<rparr>)"
| flushed: "mb_pc mb = Flush 0 [] \<Longrightarrow> node_step dparse dser mb (mb\<lparr>mb_pc := Calling_wait 0\<rparr>)"
| waits: "mb_pc mb = Calling_wait 0 \<Longrightarrow> wait_on_client (mb_manager mb) = Inr m \<Longrightarrow>
    node_step dparse dser mb (mb\<lparr>mb_pc := Waiting 0\<rparr>)"
| reads: "mb_pc mb \<noteq> At_top \<Longrightarrow> mb_down mb = msg # rest \<Longrightarrow> deliver_update msg (mb_node mb) = Inr n \<Longrightarrow>
    node_step dparse dser mb (mb\<lparr>mb_node := n, mb_down := rest\<rparr>)"

text \<open>
  \<open>internal\<close> are the steps the processes make by themselves, \<open>external\<close> adds what comes from
  outside. A member may hang up wherever its main thread is and whatever is in its queues, as long as
  the hub takes the connection for that of its node, that is, the last message it has read from it
  was about the node itself; or it may go away before it connects, unknown to the hub. What
  happens when a connection ends while the hub takes it for that of another node, or of none, is
  shown in \<open>SystemProperties\<close> (\<open>interrupted_introduction_impersonates\<close>).
\<close>

inductive internal ::
  "(bytes \<Rightarrow> TopologyMessage) \<Rightarrow> (nat \<Rightarrow> u64) \<Rightarrow> (bytes \<Rightarrow> bool \<times> MetadataMessage) \<Rightarrow>
   (MetadataMessage \<Rightarrow> bytes) \<Rightarrow> nat \<Rightarrow> system \<Rightarrow> system \<Rightarrow> bool"
  for parse rng dparse dser where
  node: "sy_members s c = Some mb \<Longrightarrow> node_step dparse dser mb mb' \<Longrightarrow>
    internal parse rng dparse dser 0 s (set_member c mb' s)"
| accepts: "sy_members s c = Some mb \<Longrightarrow> mb_pc mb \<noteq> At_top \<Longrightarrow> c \<notin> fst ` set (ts_clients (sy_hub s)) \<Longrightarrow>
    OnConnect c (sy_hub s) = Inr h \<Longrightarrow> internal parse rng dparse dser 1 s (hub_moves h s)"
| hub_reads: "sy_members s c = Some mb \<Longrightarrow> c \<in> fst ` set (ts_clients (sy_hub s)) \<Longrightarrow>
    mb_up mb = msg # rest \<Longrightarrow> bs \<noteq> [] \<Longrightarrow> parse bs = msg \<Longrightarrow>
    OnData parse rng c bs (sy_hub s) = Inr h \<Longrightarrow>
    internal parse rng dparse dser 1 s (hub_moves h (set_member c (mb\<lparr>mb_up := rest\<rparr>) s))"

inductive external ::
  "(bytes \<Rightarrow> bool \<times> MetadataMessage) \<Rightarrow> (MetadataMessage \<Rightarrow> bytes) \<Rightarrow> nat \<Rightarrow> system \<Rightarrow> system \<Rightarrow> bool"
  for dparse dser where
  starts: "c \<notin> sy_used s \<Longrightarrow> sy_paths s i = None \<Longrightarrow> i \<noteq> 0 \<Longrightarrow> i \<noteq> 1 \<Longrightarrow>
    external dparse dser 0 s
      (set_member c (new_member g nm i x) s\<lparr>sy_used := insert c (sy_used s),
         sy_paths := (sy_paths s)(i \<mapsto> data_path x)\<rparr>)"
| calls: "sy_members s c = Some mb \<Longrightarrow> user_call k \<Longrightarrow> run_call dparse dser k (mb_node mb) = Inr n \<Longrightarrow>
    external dparse dser 0 s
      (set_member c (mb\<lparr>mb_node := n, mb_up := mb_up mb @ sent_since (mb_node mb) n\<rparr>) s)"
| hangs_up: "sy_members s c = Some mb \<Longrightarrow> map_of (ts_clients (sy_hub s)) c = Some cl \<Longrightarrow>
    cl_nodeId cl = tm_nodeId (mb_manager mb) \<Longrightarrow> OnDisconnect c (sy_hub s) = Inr h \<Longrightarrow>
    external dparse dser 1 s
      (hub_moves h (s\<lparr>sy_members := (sy_members s)(c := None)\<rparr>))"
| quits: "sy_members s c = Some mb \<Longrightarrow> mb_pc mb = At_top \<Longrightarrow> map_of (ts_clients (sy_hub s)) c = None \<Longrightarrow>
    topology (ts_history (sy_hub s)) (tm_nodeId (mb_manager mb)) = None \<Longrightarrow>
    external dparse dser 0 s (s\<lparr>sy_members := (sy_members s)(c := None)\<rparr>)"

text \<open>The purge of the hub, 200 ms after it has started.\<close>

inductive purging :: "nat \<Rightarrow> system \<Rightarrow> system \<Rightarrow> bool" where
  purges: "mset (order (historicallyActive (ts_history (sy_hub s)) [])) =
      mset (historicallyActive (ts_history (sy_hub s)) []) \<Longrightarrow>
    PurgeDisconnected order (sy_hub s) = Inr h \<Longrightarrow>
    purging (Suc (active_count (sy_hub s))) s (hub_moves h s)"

text \<open>The states a group can reach, with the number of handler calls and minted departures.\<close>

inductive system_reach ::
  "(bytes \<Rightarrow> TopologyMessage) \<Rightarrow> (nat \<Rightarrow> u64) \<Rightarrow> (bytes \<Rightarrow> bool \<times> MetadataMessage) \<Rightarrow>
   (MetadataMessage \<Rightarrow> bytes) \<Rightarrow> nat \<Rightarrow> system \<Rightarrow> bool"
  for parse rng dparse dser where
  init: "system_reach parse rng dparse dser 0 system_init"
| inside: "system_reach parse rng dparse dser n s \<Longrightarrow> internal parse rng dparse dser j s s' \<Longrightarrow>
    system_reach parse rng dparse dser (n + j) s'"
| outside: "system_reach parse rng dparse dser n s \<Longrightarrow> external dparse dser j s s' \<Longrightarrow>
    system_reach parse rng dparse dser (n + j) s'"
| purged: "system_reach parse rng dparse dser n s \<Longrightarrow> purging j s s' \<Longrightarrow>
    system_reach parse rng dparse dser (n + j) s'"

text \<open>Nothing is under way and every main thread waits.\<close>

definition quiescent :: "system \<Rightarrow> bool" where
  "quiescent s \<longleftrightarrow> (\<forall>c mb. sy_members s c = Some mb \<longrightarrow>
     mb_pc mb = Waiting 0 \<and> mb_up mb = [] \<and> mb_down mb = [])"

end
