(* ===== verification/SystemInvariant.thy ===== *)
theory SystemInvariant
  imports SystemRun
begin

text \<open>
  The invariant of \<open>SystemRun\<close>: how the queues, the tables of the nodes and the history of the hub
  fit together in every reachable state. Each member is judged by itself against the hub
  (\<open>member_ok\<close>), so a step of a node concerns that node only, and a step of the hub concerns the
  others only through the history and the wire.
\<close>

section \<open>The hub seen from outside\<close>

text \<open>Every message the hub has and every message it has written.\<close>

definition all_messages :: "TopologyServer \<Rightarrow> TopologyMessage set" where
  "all_messages h = snd ` set (ts_wire h) \<union> set (ts_history h)"

text \<open>What the hub has taken from a connection, and the node it believes to be there.\<close>

definition heard :: "TopologyServer \<Rightarrow> fd \<Rightarrow> TopologyMessage list" where
  "heard h c = (case map_of (ts_clients h) c of None \<Rightarrow> [] | Some cl \<Rightarrow> cl_history cl)"

definition believed :: "TopologyServer \<Rightarrow> fd \<Rightarrow> u64 option" where
  "believed h c = map_option cl_nodeId (map_of (ts_clients h) c)"

lemma map_of_synced: "map_of (ts_clients (synced hist ms h)) c =
    map_option (\<lambda>cl. cl\<lparr>cl_seq := last_seq (prune (hist @ ms))\<rparr>) (map_of (ts_clients h) c)"
proof -
  have "map_of (map (\<lambda>(c, cl). (c, f cl)) cs) c = map_option f (map_of cs c)" for f :: "Client \<Rightarrow> Client" and cs
    by (induction cs) auto
  then show ?thesis by (simp add: synced_def)
qed

lemma synced_seen [simp]:
  "heard (synced hist ms h) c = heard h c" "believed (synced hist ms h) c = believed h c"
  by (cases "map_of (ts_clients h) c"; simp add: heard_def believed_def map_of_synced)+

lemma synced_messages:
  "all_messages (synced (ts_history h) ms h') \<subseteq> snd ` set (ts_wire h') \<union> set (ts_history h) \<union> set ms"
  using set_prune [of "ts_history h @ ms"] by (auto simp: all_messages_def synced_def kept_def)

lemma synced_wire: "\<exists>w. ts_wire (synced hist ms h) = ts_wire h @ w"
  by (simp add: synced_def)

lemma kept_Nil [simp]: "kept hist [] = []"
  by (simp add: kept_def)

lemma message_node_id_key: "message_node_id m \<noteq> 0 \<Longrightarrow> msg_key m = Some (message_node_id m)"
  by (auto simp: message_node_id_def msg_key_def oneof_defs split: oneof_op.splits)

lemma message_node_id_restamp [simp]: "message_node_id (m\<lparr>seq := a, uid := b\<rparr>) = message_node_id m"
  by (simp add: message_node_id_def)

lemma joins_restamp [simp]: "joins (m\<lparr>seq := a, uid := b\<rparr>) = joins m"
  by (simp add: joins_def)

lemma left_ids_message: "i \<in> left_ids ms \<Longrightarrow> \<exists>m\<in>set ms. leaves m \<and> message_node_id m = i"
  by (auto simp: left_ids_mem message_node_id_def leaves_def)

lemma hub_inv_used: "hub_inv strict k C U h \<Longrightarrow> U \<subseteq> U' \<Longrightarrow> hub_inv strict k C U' h"
  by (auto simp: hub_inv_def)

section \<open>The purge without dead nodes\<close>

text \<open>The purge of a group in which every known node is connected mints nothing.\<close>

lemma purge_loop_none: "set ns \<subseteq> con \<Longrightarrow> purge_loop con ns h = h"
  by (induction ns) auto

lemma PurgeDisconnected_none:
  assumes I: "hub_inv strict k C U h"
    and ns: "mset (order (historicallyActive (ts_history h) [])) = mset (historicallyActive (ts_history h) [])"
    and con: "dom (topology (ts_history h)) \<subseteq> connected_ids h"
  shows "PurgeDisconnected order h = Inr (synced (ts_history h) [] h)"
proof -
  have "set (order (historicallyActive (ts_history h) [])) = dom (topology (ts_history h))"
    using mset_eq_setD [OF ns] by (simp add: active_nodes)
  then have "purge_loop (connected_ids h) (order (historicallyActive (ts_history h) [])) h = h"
    using con by (intro purge_loop_none) simp
  moreover have "Broadcast (PruneRemoved h) = Inr (synced (ts_history h) [] h)"
    by (rule Broadcast_PruneRemoved) (use I in \<open>auto simp: hub_inv_def hub_ok_def\<close>)
  ultimately show ?thesis by (simp add: PurgeDisconnected_def Let_def)
qed

section \<open>Addresses\<close>

text \<open>The address of a node in a topology is the one of a message with which it joined.\<close>

lemma topic_cell_address [simp]: "nv_address (topic_cell c v) = nv_address v"
  by (simp split: TopicOperation.split)

lemma topology_address:
  "topology ms i = Some v \<Longrightarrow>
   \<exists>m\<in>set ms. joins m \<and> message_node_id m = i \<and> nc_address (node_change m) = nv_address v"
proof (induction ms arbitrary: v rule: rev_induct)
  case (snoc m ms)
  show ?case
  proof (cases "\<exists>v'. topology ms i = Some v' \<and> nv_address v' = nv_address v")
    case True
    with snoc.IH show ?thesis by auto
  next
    case False
    with snoc.prems have "joins m \<and> message_node_id m = i \<and> nc_address (node_change m) = nv_address v"
      by (auto simp: topology_step_def keyed_step_def msg_key_def topology_cell_def joins_def
          message_node_id_def oneof_defs split: oneof_op.splits if_splits NodeOperation.splits
          option.splits simp del: topic_cell.simps)
    then show ?thesis by auto
  qed
qed simp

section \<open>The invariant\<close>

text \<open>The requests a node makes for itself, and the topics it asks for in a list of messages.\<close>

definition own :: "u64 \<Rightarrow> TopologyMessage \<Rightarrow> bool" where
  "own i m \<longleftrightarrow> seq m = 0 \<and> has_topic_change m \<and> tc_node_id (topic_change m) = i \<and>
     tc_op (topic_change m) \<noteq> UNSUBSCRIBE"

definition asks :: "u64 \<Rightarrow> TopologyMessage list \<Rightarrow> string set" where
  "asks i ms = {tc_name (topic_change m) |m. m \<in> set ms \<and> has_topic_change m \<and>
     tc_node_id (topic_change m) = i \<and> tc_op (topic_change m) = SUBSCRIBE}"

lemma asks_simps [simp]:
  "asks i [] = {}"
  "asks i (m # ms) = (if has_topic_change m \<and> tc_node_id (topic_change m) = i \<and> tc_op (topic_change m) = SUBSCRIBE
     then {tc_name (topic_change m)} else {}) \<union> asks i ms"
  "asks i (ms @ ns) = asks i ms \<union> asks i ns"
  by (auto simp: asks_def)

lemma asks_others: "\<forall>m\<in>set ms. message_node_id m \<noteq> i \<Longrightarrow> asks i ms = {}"
proof -
  have "has_topic_change m \<Longrightarrow> message_node_id m = tc_node_id (topic_change m)" for m
    by (cases rule: oneof_exhaust [of m]) (simp_all add: message_node_id_def)
  then show "asks i ms = {}" if "\<forall>m\<in>set ms. message_node_id m \<noteq> i" using that by (auto simp: asks_def)
qed

text \<open>The log: every message is of a node whose data path is known, and has its own number.\<close>

definition entry_ok :: "(u64 \<rightharpoonup> string) \<Rightarrow> TopologyMessage \<Rightarrow> bool" where
  "entry_ok paths m \<longleftrightarrow> 0 < seq m \<and> address_fits m \<and>
     (\<exists>p. paths (message_node_id m) = Some p \<and> (joins m \<longrightarrow> nc_address (node_change m) = p))"

definition log_ok :: "(u64 \<rightharpoonup> string) \<Rightarrow> TopologyServer \<Rightarrow> bool" where
  "log_ok paths h \<longleftrightarrow> (\<forall>m\<in>all_messages h. entry_ok paths m \<and> seq m \<le> last_seq (ts_history h)) \<and>
     inj_on seq (all_messages h)"

definition paths_ok :: "(u64 \<rightharpoonup> string) \<Rightarrow> bool" where
  "paths_ok paths \<longleftrightarrow> paths 0 = None \<and> paths 1 = None \<and> (\<forall>p\<in>ran paths. p \<noteq> [] \<and> length p \<le> sun_path_size)"

text \<open>Where the main thread of a member can be.\<close>

fun introduced :: "main_pc \<Rightarrow> bool" where
  "introduced At_top \<longleftrightarrow> False"
| "introduced (Introduce c) \<longleftrightarrow> False"
| "introduced pc \<longleftrightarrow> True"

fun adopted :: "main_pc \<Rightarrow> bool" where
  "adopted (Adopt c) \<longleftrightarrow> False"
| "adopted pc \<longleftrightarrow> introduced pc"

definition pc_ok :: "main_pc \<Rightarrow> bool" where
  "pc_ok pc \<longleftrightarrow> pc \<in> {At_top, Introduce 0, Adopt 0, Calling_wait 0, Waiting 0} \<union> range (Flush 0)"

text \<open>
  What is on its way to the hub. Until the hub has heard of the node, nothing in the log is about
  it and its \<open>JOIN\<close> is in the queue as soon as it has introduced itself, after messages of the hub
  itself; from then on the queue holds requests only, and the topology of the hub has the node with its
  address and the topics it was heard to ask for.
\<close>

definition introducing :: "TopologyServer \<Rightarrow> TopologyManager \<Rightarrow> TopologyMessage list \<Rightarrow> bool" where
  "introducing h m up \<longleftrightarrow> (\<exists>es rest. up = es @ introduce_node m # rest \<and>
     set es \<subseteq> snd ` set (ts_wire h) \<and> list_all (own (tm_nodeId m)) rest)"

lemma introducing_add: "introducing h m up \<Longrightarrow> own (tm_nodeId m) msg \<Longrightarrow> introducing h m (up @ [msg])"
  unfolding introducing_def by (elim exE conjE, rule exI, rule exI [of _ "_ @ [msg]"]) auto

lemma introducing_start: "set es \<subseteq> snd ` set (ts_wire h) \<Longrightarrow> introducing h m (es @ [introduce_node m])"
  unfolding introducing_def by (rule exI [of _ es], rule exI [of _ "[]"]) simp

lemma introducing_same:
  assumes "introducing h m up" "introduce_node m' = introduce_node m" "tm_nodeId m' = tm_nodeId m"
    and "ts_wire h' = ts_wire h @ w"
  shows "introducing h' m' up"
  using assms(1) unfolding introducing_def by (elim exE conjE, intro exI) (use assms(2-4) in auto)

definition outbox_ok :: "TopologyServer \<Rightarrow> fd \<Rightarrow> member \<Rightarrow> bool" where
  "outbox_ok h c mb \<longleftrightarrow> (let m = mb_manager mb; i = tm_nodeId m in
     if heard h c = [] then
       (\<forall>x\<in>all_messages h. message_node_id x \<noteq> i) \<and>
       (if introduced (mb_pc mb)
        then introducing h m (mb_up mb)
        else mb_up mb = [])
     else introduced (mb_pc mb) \<and> list_all (own i) (mb_up mb) \<and> believed h c = Some i \<and>
       (\<exists>v. topology (ts_history h) i = Some v \<and> nv_address v = tm_address m \<and>
          nv_subs v = asks i (heard h c)))"

definition requests_ok :: "member \<Rightarrow> bool" where
  "requests_ok mb \<longleftrightarrow> (let m = mb_manager mb in
     pc_ok (mb_pc mb) \<and> list_all (own (tm_nodeId m)) (tm_backlog m @ pending (mb_pc mb)) \<and>
     tm_client m = (if adopted (mb_pc mb) then Some 0 else None) \<and>
     (adopted (mb_pc mb) \<longrightarrow> tm_backlog m = []))"

text \<open>What has arrived from the hub, and what is still under way.\<close>

definition inbox_ok :: "TopologyServer \<Rightarrow> fd \<Rightarrow> member \<Rightarrow> bool" where
  "inbox_ok h c mb \<longleftrightarrow> node_wf (mb_node mb) \<and> nbr_path (mb_node mb) = mgr_path (mb_manager mb) \<and>
     stream c (ts_wire h) = tm_history (mb_manager mb) @ mb_down mb \<and>
     abs_topology (mb_manager mb) = topology (tm_history (mb_manager mb))"

text \<open>No subscription of the user is lost on the way to the hub.\<close>

definition subscriptions_ok :: "TopologyServer \<Rightarrow> fd \<Rightarrow> member \<Rightarrow> bool" where
  "subscriptions_ok h c mb \<longleftrightarrow> dom (in_subscriptions (mb_node mb)) =
     asks (tm_nodeId (mb_manager mb))
       (heard h c @ mb_up mb @ tm_backlog (mb_manager mb) @ pending (mb_pc mb))"

definition member_ok :: "(u64 \<rightharpoonup> string) \<Rightarrow> TopologyServer \<Rightarrow> fd \<Rightarrow> member \<Rightarrow> bool" where
  "member_ok paths h c mb \<longleftrightarrow>
     paths (tm_nodeId (mb_manager mb)) = Some (tm_address (mb_manager mb)) \<and>
     tm_nodeId (mb_manager mb) \<notin> left_ids (ts_history h) \<and>
     outbox_ok h c mb \<and> requests_ok mb \<and> inbox_ok h c mb \<and> subscriptions_ok h c mb"

text \<open>The descriptors the hub has accepted, now or earlier.\<close>

definition taken :: "system \<Rightarrow> fd set" where
  "taken s = {c \<in> sy_used s. c \<in> dom (sy_members s) \<longrightarrow> c \<in> fst ` set (ts_clients (sy_hub s))}"

definition members_ok :: "system \<Rightarrow> bool" where
  "members_ok s \<longleftrightarrow> finite (dom (sy_members s)) \<and> dom (sy_members s) \<subseteq> sy_used s \<and>
     fst ` set (ts_clients (sy_hub s)) \<subseteq> dom (sy_members s) \<and>
     (\<forall>c mb. sy_members s c = Some mb \<longrightarrow> member_ok (sy_paths s) (sy_hub s) c mb) \<and>
     (\<forall>c d mb mb'. sy_members s c = Some mb \<longrightarrow> sy_members s d = Some mb' \<longrightarrow>
       tm_nodeId (mb_manager mb) = tm_nodeId (mb_manager mb') \<longrightarrow> c = d) \<and>
     (\<forall>i\<in>dom (topology (ts_history (sy_hub s))). \<exists>c mb. sy_members s c = Some mb \<and>
       heard (sy_hub s) c \<noteq> [] \<and> tm_nodeId (mb_manager mb) = i)"

definition system_inv :: "nat \<Rightarrow> system \<Rightarrow> bool" where
  "system_inv k s \<longleftrightarrow>
     hub_inv True k (fst ` set (ts_clients (sy_hub s))) (taken s) (sy_hub s) \<and>
     paths_ok (sy_paths s) \<and> log_ok (sy_paths s) (sy_hub s) \<and> members_ok s"

lemma system_init_inv: "k < 2 ^ 63 \<Longrightarrow> system_inv k system_init"
  using TopologyServer_init_inv [of True "[]" k]
  by (simp add: system_inv_def system_init_def members_ok_def taken_def paths_ok_def log_ok_def
      all_messages_def no_zero_topic_def)
    (simp add: TopologyServer_init_def)

section \<open>Steps of the nodes\<close>

text \<open>A step of one node leaves the hub and the other members alone.\<close>

lemma set_member_inv:
  assumes "system_inv k s" "sy_members s c = Some mb" "member_ok (sy_paths s) (sy_hub s) c mb'"
    and "tm_nodeId (mb_manager mb') = tm_nodeId (mb_manager mb)"
  shows "system_inv k (set_member c mb' s)"
proof -
  have "taken (set_member c mb' s) = taken s" using assms(2) by (auto simp: taken_def set_member_def)
  moreover have "members_ok s" using assms(1) by (simp add: system_inv_def)
  then have "members_ok (set_member c mb' s)"
    using assms(2-4) unfolding members_ok_def set_member_def
    by (simp add: insert_absorb domI) (metis (no_types, lifting) option.inject)
  ultimately show ?thesis using assms(1) by (simp add: system_inv_def set_member_def)
qed

end
