(* ===== verification/MemberSteps.thy ===== *)
theory MemberSteps
  imports SystemInvariant
begin

text \<open>
  What an invariant of one member has to provide to be kept by every step and call of its node, and
  what then follows for all of them: the contract \<open>member_contract\<close>. \<open>SystemSteps\<close> and \<open>RestartSteps\<close>
  interpret it on the invariants of a group with a hub that lives, and with hubs that die.
\<close>

section \<open>Helper lemmas\<close>

lemma introduced_adopted: "adopted pc \<Longrightarrow> introduced pc"
  by (cases pc) auto

lemma on_manager_Send_eq:
  assumes "\<not> tm_locked (in_manager n)" "0 \<le> ret"
  shows "on_manager (Send ret msg) n = Inr (n\<lparr>in_manager := (case tm_client (in_manager n) of
      None \<Rightarrow> (in_manager n)\<lparr>tm_backlog := tm_backlog (in_manager n) @ [msg], tm_locked := False\<rparr>
    | Some c \<Rightarrow> (in_manager n)\<lparr>tm_sent := tm_sent (in_manager n) @ [(c, msg, ret)], tm_locked := False\<rparr>)\<rparr>)"
  using assms by (auto simp: on_manager_def Send_def with_lock_def Send_body_def Let_def split: option.split)

lemma introduction_locked: "introduction (m\<lparr>tm_locked := b\<rparr>) = introduction m"
  by (cases "tm_nodes m (tm_nodeId m)") (simp_all add: introduction_def introduce_node_def)

lemma topic_message_simps [simp]:
  "seq (topic_message i operation topic) = 0" "has_topic_change (topic_message i operation topic)"
  "tc_node_id (topic_change (topic_message i operation topic)) = i"
  "tc_op (topic_change (topic_message i operation topic)) = operation"
  "tc_name (topic_change (topic_message i operation topic)) = topic"
  by (simp_all add: topic_message_def mutable_topic_change_def default_TopologyMessage_def oneof_defs)

lemma mutable_topic_change_simps [simp]:
  "seq (mutable_topic_change f m) = seq m" "has_topic_change (mutable_topic_change f m)"
  "topic_change (mutable_topic_change f m) = f (topic_change m)"
  by (simp_all add: mutable_topic_change_def oneof_defs)

section \<open>The contract\<close>

text \<open>What no step or call changes of a node.\<close>

definition same_identity :: "member \<Rightarrow> IPCNode \<Rightarrow> bool" where
  "same_identity mb n \<longleftrightarrow> tm_nodeId (in_manager n) = tm_nodeId (mb_manager mb)"

locale member_contract =
  fixes ok :: "member \<Rightarrow> bool"
  assumes pc: "ok mb \<Longrightarrow> pc_ok (mb_pc mb)"
    and wf: "ok mb \<Longrightarrow> node_wf (mb_node mb)"
    and connect: "ok mb \<Longrightarrow> mb_pc mb = At_top \<Longrightarrow> ok (mb\<lparr>mb_pc := Introduce 0\<rparr>)"
    and introduce: "ok mb \<Longrightarrow> mb_pc mb = Introduce 0 \<Longrightarrow>
      \<exists>n. on_manager (IntroduceOurselves 0) (mb_node mb) = Inr n \<and> same_identity mb n \<and>
        ok (mb\<lparr>mb_pc := Adopt 0, mb_node := n, mb_up := mb_up mb @ introduced_since (mb_node mb) n\<rparr>)"
    and adopt: "ok mb \<Longrightarrow> mb_pc mb = Adopt 0 \<Longrightarrow>
      \<exists>b m. adopt_client 0 (mb_manager mb) = Inr (b, m) \<and> tm_nodeId m = tm_nodeId (mb_manager mb) \<and>
        ok (mb\<lparr>mb_pc := Flush 0 b, mb_node := (mb_node mb)\<lparr>in_manager := m\<rparr>\<rparr>)"
    and flush: "ok mb \<Longrightarrow> mb_pc mb = Flush 0 (msg # backlog) \<Longrightarrow> 0 \<le> ret \<Longrightarrow>
      \<exists>n. on_manager (Send ret msg) (mb_node mb) = Inr n \<and> same_identity mb n \<and>
        ok (mb\<lparr>mb_pc := Flush 0 backlog, mb_node := n, mb_up := mb_up mb @ sent_since (mb_node mb) n\<rparr>)"
    and flush_done: "ok mb \<Longrightarrow> mb_pc mb = Flush 0 [] \<Longrightarrow> ok (mb\<lparr>mb_pc := Calling_wait 0\<rparr>)"
    and wait: "ok mb \<Longrightarrow> mb_pc mb = Calling_wait 0 \<Longrightarrow>
      wait_on_client (mb_manager mb) = Inr (mb_manager mb) \<and> ok (mb\<lparr>mb_pc := Waiting 0\<rparr>)"
    and read: "ok mb \<Longrightarrow> mb_down mb = msg # rest \<Longrightarrow>
      \<exists>n. deliver_update msg (mb_node mb) = Inr n \<and> same_identity mb n \<and> ok (mb\<lparr>mb_node := n, mb_down := rest\<rparr>)"
    and request: "ok mb \<Longrightarrow> own (tm_nodeId (mb_manager mb)) msg \<Longrightarrow> 0 \<le> ret \<Longrightarrow>
      dom S = dom (in_subscriptions (mb_node mb)) \<union> asks (tm_nodeId (mb_manager mb)) [msg] \<Longrightarrow> \<forall>t. S t \<noteq> Some None \<Longrightarrow>
      \<exists>n. on_manager (Send ret msg) (mb_node mb) = Inr n \<and> in_subscriptions n = in_subscriptions (mb_node mb) \<and>
        same_identity mb n \<and> ok (mb\<lparr>mb_node := n\<lparr>in_subscriptions := S\<rparr>,
          mb_up := mb_up mb @ sent_since (mb_node mb) (n\<lparr>in_subscriptions := S\<rparr>)\<rparr>)"
    and local: "ok mb \<Longrightarrow> node_wf n \<Longrightarrow> in_manager n = mb_manager mb \<Longrightarrow> in_nodes n = in_nodes (mb_node mb) \<Longrightarrow>
      in_subscriptions n = in_subscriptions (mb_node mb) \<Longrightarrow>
      ok (mb\<lparr>mb_node := n, mb_up := mb_up mb @ sent_since (mb_node mb) n\<rparr>)"
begin

lemma node_step_ok:
  assumes step: "node_step dparse dser mb mb'" and ok: "ok mb"
  shows "ok mb' \<and> tm_nodeId (mb_manager mb') = tm_nodeId (mb_manager mb)"
  using step
proof cases
  case connects
  with connect [OF ok] show ?thesis by simp
next
  case (introduces n)
  with introduce [OF ok] show ?thesis by (auto simp: same_identity_def)
next
  case (adopts backlog m)
  with adopt [OF ok] show ?thesis by auto
next
  case (flushes msg backlog ret n)
  with flush [OF ok] show ?thesis by (fastforce simp: same_identity_def)
next
  case flushed
  with flush_done [OF ok] show ?thesis by simp
next
  case (waits m)
  with wait [OF ok] show ?thesis by simp
next
  case (reads msg rest n)
  with read [OF ok] show ?thesis by (auto simp: same_identity_def)
qed

text \<open>A node that cannot move has read everything and waits for its connection to end.\<close>

lemma stuck_waits:
  assumes ok: "ok mb" and still: "\<And>mb'. \<not> node_step dparse dser mb mb'"
  shows "mb_pc mb = Waiting 0" "mb_down mb = []"
proof -
  show waiting: "mb_pc mb = Waiting 0"
  proof -
    have "mb_pc mb \<noteq> At_top" using still node_step.connects by blast
    moreover have "mb_pc mb \<noteq> Introduce 0" using still node_step.introduces introduce [OF ok] by blast
    moreover have "mb_pc mb \<noteq> Adopt 0" using still node_step.adopts adopt [OF ok] by blast
    moreover have "mb_pc mb \<noteq> Calling_wait 0" using still node_step.waits wait [OF ok] by blast
    moreover have "mb_pc mb \<noteq> Flush 0 b" for b
    proof (cases b)
      case Nil
      then show ?thesis using still node_step.flushed by blast
    next
      case (Cons m ms)
      then show ?thesis using still node_step.flushes [of mb m ms 0] flush [OF ok, of m ms 0] by auto
    qed
    ultimately show ?thesis using pc [OF ok] by (auto simp: pc_ok_def)
  qed
  show "mb_down mb = []"
  proof (cases "mb_down mb")
    case (Cons msg rest)
    from read [OF ok Cons] obtain n where "deliver_update msg (mb_node mb) = Inr n" by blast
    then have "node_step dparse dser mb (mb\<lparr>mb_node := n, mb_down := rest\<rparr>)"
      using waiting Cons by (intro node_step.reads) simp_all
    with still show ?thesis by blast
  qed
qed

lemma calls_ok:
  assumes ok: "ok mb" and k: "user_call k"
  shows "\<exists>n. run_call dparse dser k (mb_node mb) = Inr n \<and> same_identity mb n \<and>
    ok (mb\<lparr>mb_node := n, mb_up := mb_up mb @ sent_since (mb_node mb) n\<rparr>)"
proof -
  let ?n = "mb_node mb" and ?i = "tm_nodeId (mb_manager mb)"
  have wf: "node_wf ?n" by (rule wf [OF ok])
  then have cbs: "\<forall>t. in_subscriptions ?n t \<noteq> Some None" unfolding node_wf_def by (rule conjunct2)
  have self: "n\<lparr>in_subscriptions := in_subscriptions ?n\<rparr> = n" if "in_subscriptions n = in_subscriptions ?n" for n
    using that by (cases n) simp
  show ?thesis
  proof (cases k)
    case (Announce_call ret topic mime)
    let ?msg = "mutable_topic_change (\<lambda>c. c\<lparr>tc_mime := mime\<rparr>) (topic_message ?i ANNOUNCE topic)"
    from request [OF ok, of ?msg ret "in_subscriptions ?n"] k Announce_call cbs show ?thesis
      by (auto simp: node_Announce_def Announce_def on_manager_def self own_def)
  next
    case (Retract_call ret topic)
    from request [OF ok, of "topic_message ?i RETRACT topic" ret "in_subscriptions ?n"] k Retract_call cbs
    show ?thesis by (auto simp: node_Retract_def Retract_def on_manager_def self own_def)
  next
    case (Subscribe_call ret topic cb)
    let ?S = "(in_subscriptions ?n)(topic \<mapsto> cb)"
    have "\<forall>t. ?S t \<noteq> Some None" using cbs k Subscribe_call by simp
    moreover have "own ?i (topic_message ?i SUBSCRIBE topic)" "0 \<le> ret" using k Subscribe_call by (simp_all add: own_def)
    ultimately obtain n where n: "on_manager (Send ret (topic_message ?i SUBSCRIBE topic)) ?n = Inr n"
      "in_subscriptions n = in_subscriptions ?n" "same_identity mb n"
      "ok (mb\<lparr>mb_node := n\<lparr>in_subscriptions := ?S\<rparr>,
        mb_up := mb_up mb @ sent_since ?n (n\<lparr>in_subscriptions := ?S\<rparr>)\<rparr>)"
      using request [OF ok, of "topic_message ?i SUBSCRIBE topic" ret ?S] by auto
    then show ?thesis
      by (intro exI [of _ "n\<lparr>in_subscriptions := ?S\<rparr>"])
        (simp add: Subscribe_call node_Subscribe_def Subscribe_def on_manager_def same_identity_def)
  next
    case (Publish_call topic data)
    have "node_wf (Publish dser topic data ?n)" using Publish_effect [OF wf] by (simp add: call_effect_def)
    from local [OF ok this] show ?thesis by (simp add: Publish_call Publish_def same_identity_def)
  next
    case (Datagram b)
    from Datagram_effect [OF wf, of dparse b] obtain n where n: "node_OnData dparse b ?n = Inr n" "node_wf n"
      by (auto simp: call_effect_def)
    moreover have "in_manager n = in_manager ?n" "in_nodes n = in_nodes ?n" "in_subscriptions n = in_subscriptions ?n"
      using n(1) node_OnData_eq [OF cbs, of dparse b] by auto
    ultimately show ?thesis using local [OF ok] by (simp add: Datagram same_identity_def)
  qed (use k in simp_all)
qed

end

end
