(* ===== verification/SystemSteps.thy ===== *)
theory SystemSteps
  imports MemberSteps
begin

text \<open>
  The steps of the nodes of \<open>SystemRun\<close> keep the invariant.
\<close>

section \<open>Steps of a main thread\<close>

lemma inbox_manager:
  assumes "inbox_ok h c mb" "mb_node mb' = (mb_node mb)\<lparr>in_manager := m'\<rparr>" "mb_down mb' = mb_down mb"
    and "tm_nodes m' = tm_nodes (mb_manager mb)" "tm_history m' = tm_history (mb_manager mb)" "\<not> tm_locked m'"
  shows "inbox_ok h c mb'"
proof -
  have "node_sys (mb_node mb)" using assms(1) by (simp add: inbox_ok_def node_wf_def)
  from node_sys_tables [OF this assms(4-6)] have "node_wf (mb_node mb')"
    "abs_topology m' = abs_topology (mb_manager mb)"
    using assms(1,2) by (simp_all add: inbox_ok_def node_wf_def)
  moreover have "mgr_path m' = mgr_path (mb_manager mb)" using assms(4) by (simp add: mgr_path_def)
  ultimately show ?thesis using assms by (simp add: inbox_ok_def)
qed

lemma unlocked: "inbox_ok h c mb \<Longrightarrow> \<not> tm_locked (mb_manager mb)"
  by (simp add: inbox_ok_def node_wf_def node_sys_def mgr_ok_def)

lemma connects_ok:
  assumes "member_ok paths h c mb" "mb_pc mb = At_top"
  shows "member_ok paths h c (mb\<lparr>mb_pc := Introduce 0\<rparr>)"
  using assms
  by (simp add: member_ok_def outbox_ok_def requests_ok_def inbox_ok_def subscriptions_ok_def pc_ok_def Let_def
      split: if_splits)

text \<open>Before the hub has heard of a node, the table of the node does not have the node itself.\<close>

lemma introduction_fresh:
  assumes "member_ok paths h c mb" "\<not> introduced (mb_pc mb)"
  shows "introduction (mb_manager mb) = tm_history (mb_manager mb) @ [introduce_node (mb_manager mb)]"
    and "set (tm_history (mb_manager mb)) \<subseteq> snd ` set (ts_wire h)"
    and "\<forall>x\<in>all_messages h. message_node_id x \<noteq> tm_nodeId (mb_manager mb)"
proof -
  let ?m = "mb_manager mb"
  have out: "outbox_ok h c mb" and inb: "inbox_ok h c mb" using assms(1) by (auto simp: member_ok_def)
  show none: "\<forall>x\<in>all_messages h. message_node_id x \<noteq> tm_nodeId ?m"
    using out assms(2) by (auto simp: outbox_ok_def Let_def split: if_splits)
  have "tm_history ?m @ mb_down mb = stream c (ts_wire h)" using inb by (simp add: inbox_ok_def)
  moreover have "set (stream c (ts_wire h)) \<subseteq> snd ` set (ts_wire h)" by (auto simp: stream_def)
  ultimately show sub: "set (tm_history ?m) \<subseteq> snd ` set (ts_wire h)" by (metis Un_subset_iff set_append)
  have "\<forall>x\<in>set (tm_history ?m). message_node_id x \<noteq> tm_nodeId ?m"
    using sub none by (auto simp: all_messages_def)
  then have "topology (tm_history ?m) (tm_nodeId ?m) = None"
    by (intro topology_unjoined) (auto simp: joins_def msg_key_def message_node_id_def oneof_defs split: oneof_op.splits)
  then have "abs_topology ?m (tm_nodeId ?m) = None" using inb by (simp add: inbox_ok_def)
  then have "tm_nodes ?m (tm_nodeId ?m) = None" by (simp add: abs_topology_def)
  then show "introduction ?m = tm_history ?m @ [introduce_node ?m]" by (simp add: introduction_def)
qed

lemma introduces_ok:
  assumes ok: "member_ok paths h c mb" and pc: "mb_pc mb = Introduce 0"
  shows "\<exists>n. on_manager (IntroduceOurselves 0) (mb_node mb) = Inr n \<and>
    in_manager n = (mb_manager mb)\<lparr>tm_locked := False, tm_intro := tm_intro (mb_manager mb) @ map (Pair 0) (introduction (mb_manager mb))\<rparr> \<and>
    member_ok paths h c
      (mb\<lparr>mb_pc := Adopt 0, mb_node := n, mb_up := mb_up mb @ introduced_since (mb_node mb) n\<rparr>)"
proof -
  let ?m = "mb_manager mb"
  let ?m' = "?m\<lparr>tm_locked := False, tm_intro := tm_intro ?m @ map (Pair 0) (introduction ?m)\<rparr>"
  let ?n = "(mb_node mb)\<lparr>in_manager := ?m'\<rparr>"
  let ?mb = "mb\<lparr>mb_pc := Adopt 0, mb_node := ?n, mb_up := mb_up mb @ introduced_since (mb_node mb) ?n\<rparr>"
  have inb: "inbox_ok h c mb" using ok by (simp add: member_ok_def)
  have run: "on_manager (IntroduceOurselves 0) (mb_node mb) = Inr ?n"
    using unlocked [OF inb]
    by (simp add: on_manager_def IntroduceOurselves_def with_lock_def introduction_locked)
  have same: "introduce_node ?m' = introduce_node ?m" by (simp add: introduce_node_def)
  have intro: "introduced_since (mb_node mb) ?n = tm_history ?m @ [introduce_node ?m]"
    using introduction_fresh(1) [OF ok] pc by (simp add: introduced_since_def comp_def)
  have fresh: "set (tm_history ?m) \<subseteq> snd ` set (ts_wire h)"
    "\<forall>x\<in>all_messages h. message_node_id x \<noteq> tm_nodeId ?m"
    using introduction_fresh(2,3) [OF ok] pc by auto
  have none: "asks (tm_nodeId ?m) (tm_history ?m @ [introduce_node ?m]) = {}"
    using fresh
    by (auto simp: all_messages_def introduce_node_def mutable_node_change_def oneof_defs intro!: asks_others)
  have "outbox_ok h c ?mb"
    using ok pc fresh introducing_same [OF introducing_start same _ append_Nil2 [symmetric]]
    by (simp add: member_ok_def outbox_ok_def Let_def intro split: if_splits)
  moreover have "inbox_ok h c ?mb" by (rule inbox_manager [OF inb, where m' = ?m']) (simp_all add: unlocked [OF inb])
  moreover have "subscriptions_ok h c ?mb" "requests_ok ?mb"
    using ok pc none by (simp_all add: member_ok_def subscriptions_ok_def requests_ok_def intro Let_def pc_ok_def)
  ultimately have "member_ok paths h c ?mb" using ok by (simp add: member_ok_def)
  with run show ?thesis by (intro exI [of _ ?n]) simp
qed

lemma outbox_same:
  assumes "outbox_ok h c mb" "introduced (mb_pc mb') = introduced (mb_pc mb)" "mb_up mb' = mb_up mb"
    and "tm_nodeId (mb_manager mb') = tm_nodeId (mb_manager mb)"
      "introduce_node (mb_manager mb') = introduce_node (mb_manager mb)"
      "tm_address (mb_manager mb') = tm_address (mb_manager mb)"
  shows "outbox_ok h c mb'"
  using assms introducing_same [of h "mb_manager mb" "mb_up mb" "mb_manager mb'" h "[]"]
  by (simp add: outbox_ok_def Let_def split: if_splits)

lemma adopts_ok:
  assumes ok: "member_ok paths h c mb" and pc: "mb_pc mb = Adopt 0"
  shows "\<exists>m. adopt_client 0 (mb_manager mb) = Inr (tm_backlog (mb_manager mb), m) \<and>
    tm_nodeId m = tm_nodeId (mb_manager mb) \<and>
    member_ok paths h c
      (mb\<lparr>mb_pc := Flush 0 (tm_backlog (mb_manager mb)), mb_node := (mb_node mb)\<lparr>in_manager := m\<rparr>\<rparr>)"
proof -
  let ?m = "mb_manager mb"
  let ?m' = "?m\<lparr>tm_client := Some 0, tm_backlog := [], tm_locked := False\<rparr>"
  let ?mb = "mb\<lparr>mb_pc := Flush 0 (tm_backlog ?m), mb_node := (mb_node mb)\<lparr>in_manager := ?m'\<rparr>\<rparr>"
  have inb: "inbox_ok h c mb" using ok by (simp add: member_ok_def)
  have "adopt_client 0 ?m = Inr (tm_backlog ?m, ?m')"
    using unlocked [OF inb] by (simp add: adopt_client_def with_lock_def)
  moreover have "inbox_ok h c ?mb" by (rule inbox_manager [OF inb, where m' = ?m']) (simp_all add: unlocked [OF inb])
  moreover have "outbox_ok h c ?mb"
    by (rule outbox_same [of h c mb]) (use ok pc in \<open>simp_all add: member_ok_def introduce_node_def\<close>)
  ultimately show ?thesis
    using ok pc by (intro exI [of _ ?m'])
      (simp add: member_ok_def subscriptions_ok_def requests_ok_def Let_def pc_ok_def)
qed

lemma flushed_ok:
  assumes "member_ok paths h c mb" "mb_pc mb = Flush 0 []"
  shows "member_ok paths h c (mb\<lparr>mb_pc := Calling_wait 0\<rparr>)"
  using assms
  by (simp add: member_ok_def outbox_ok_def requests_ok_def inbox_ok_def subscriptions_ok_def pc_ok_def Let_def)

lemma waits_ok:
  assumes "member_ok paths h c mb" "mb_pc mb = Calling_wait 0"
  shows "wait_on_client (mb_manager mb) = Inr (mb_manager mb)"
    and "member_ok paths h c (mb\<lparr>mb_pc := Waiting 0\<rparr>)"
  using assms
  by (simp_all add: member_ok_def outbox_ok_def requests_ok_def inbox_ok_def subscriptions_ok_def pc_ok_def Let_def
      wait_on_client_def)

section \<open>Requests\<close>

text \<open>A queue that is in order stays so when a request of the node is added at its end.\<close>

lemma outbox_add:
  assumes "outbox_ok h c mb" "introduced (mb_pc mb)" "own (tm_nodeId (mb_manager mb)) msg"
    and "introduced (mb_pc mb')" "mb_up mb' = mb_up mb @ [msg]"
    and "tm_nodeId (mb_manager mb') = tm_nodeId (mb_manager mb)"
      "introduce_node (mb_manager mb') = introduce_node (mb_manager mb)"
      "tm_address (mb_manager mb') = tm_address (mb_manager mb)"
  shows "outbox_ok h c mb'"
  using assms introducing_add [of h "mb_manager mb" "mb_up mb" msg]
    introducing_same [of h "mb_manager mb" "mb_up mb @ [msg]" "mb_manager mb'" h "[]"]
  by (simp add: outbox_ok_def Let_def split: if_splits)

lemma flushes_ok:
  assumes ok: "member_ok paths h c mb" and pc: "mb_pc mb = Flush 0 (msg # backlog)" and ret: "0 \<le> ret"
  shows "\<exists>n. on_manager (Send ret msg) (mb_node mb) = Inr n \<and>
    in_manager n = (mb_manager mb)\<lparr>tm_sent := tm_sent (mb_manager mb) @ [(0, msg, ret)], tm_locked := False\<rparr> \<and>
    member_ok paths h c
      (mb\<lparr>mb_pc := Flush 0 backlog, mb_node := n, mb_up := mb_up mb @ sent_since (mb_node mb) n\<rparr>)"
proof -
  let ?m = "mb_manager mb"
  let ?m' = "?m\<lparr>tm_sent := tm_sent ?m @ [(0, msg, ret)], tm_locked := False\<rparr>"
  let ?n = "(mb_node mb)\<lparr>in_manager := ?m'\<rparr>"
  let ?mb = "mb\<lparr>mb_pc := Flush 0 backlog, mb_node := ?n, mb_up := mb_up mb @ sent_since (mb_node mb) ?n\<rparr>"
  have inb: "inbox_ok h c mb" and out: "outbox_ok h c mb" and req: "requests_ok mb"
    using ok by (auto simp: member_ok_def)
  have sent: "sent_since (mb_node mb) ?n = [msg]" using ret by (simp add: sent_since_def)
  have "on_manager (Send ret msg) (mb_node mb) = Inr ?n"
    using req pc unlocked [OF inb] ret by (simp add: on_manager_Send_eq requests_ok_def Let_def)
  moreover have "inbox_ok h c ?mb"
    by (rule inbox_manager [OF inb, where m' = ?m']) simp_all
  moreover have "outbox_ok h c ?mb"
    by (rule outbox_add [OF out, where msg = msg])
      (use req pc in \<open>simp_all add: requests_ok_def Let_def sent\<close>, simp_all add: introduce_node_def)
  moreover have "requests_ok ?mb" "subscriptions_ok h c ?mb"
    using ok pc by (simp_all add: member_ok_def requests_ok_def subscriptions_ok_def Let_def pc_ok_def sent)
  ultimately show ?thesis using ok by (intro exI [of _ ?n]) (simp add: member_ok_def)
qed

text \<open>A request of the user, with what it does to the callbacks.\<close>

lemma request_ok:
  assumes ok: "member_ok paths h c mb" and own: "own (tm_nodeId (mb_manager mb)) msg" and ret: "0 \<le> ret"
    and subs: "dom S = dom (in_subscriptions (mb_node mb)) \<union> asks (tm_nodeId (mb_manager mb)) [msg]" "\<forall>t. S t \<noteq> Some None"
  shows "\<exists>n. on_manager (Send ret msg) (mb_node mb) = Inr n \<and>
    in_subscriptions n = in_subscriptions (mb_node mb) \<and>
    tm_nodeId (in_manager n) = tm_nodeId (mb_manager mb) \<and>
    member_ok paths h c (mb\<lparr>mb_node := n\<lparr>in_subscriptions := S\<rparr>,
      mb_up := mb_up mb @ sent_since (mb_node mb) (n\<lparr>in_subscriptions := S\<rparr>)\<rparr>)"
proof -
  let ?m = "mb_manager mb"
  define m' where "m' = (case tm_client ?m of
      None \<Rightarrow> ?m\<lparr>tm_backlog := tm_backlog ?m @ [msg], tm_locked := False\<rparr>
    | Some c \<Rightarrow> ?m\<lparr>tm_sent := tm_sent ?m @ [(c, msg, ret)], tm_locked := False\<rparr>)"
  let ?n = "(mb_node mb)\<lparr>in_manager := m'\<rparr>"
  let ?sent = "sent_since (mb_node mb) (?n\<lparr>in_subscriptions := S\<rparr>)"
  let ?mid = "mb\<lparr>mb_node := ?n, mb_up := mb_up mb @ ?sent\<rparr>"
  let ?mb = "mb\<lparr>mb_node := ?n\<lparr>in_subscriptions := S\<rparr>, mb_up := mb_up mb @ ?sent\<rparr>"
  have inb: "inbox_ok h c mb" and out: "outbox_ok h c mb" and req: "requests_ok mb"
    using ok by (auto simp: member_ok_def)
  have sent: "?sent = (if adopted (mb_pc mb) then [msg] else [])"
    using req ret by (simp add: sent_since_def requests_ok_def Let_def m'_def)
  have same: "tm_nodeId m' = tm_nodeId ?m" "introduce_node m' = introduce_node ?m" "tm_address m' = tm_address ?m"
    "tm_nodes m' = tm_nodes ?m" "tm_history m' = tm_history ?m" "\<not> tm_locked m'" "tm_client m' = tm_client ?m"
    "tm_backlog m' = tm_backlog ?m @ (if tm_client ?m = None then [msg] else [])"
    by (simp_all add: m'_def introduce_node_def split: option.split)
  have run: "on_manager (Send ret msg) (mb_node mb) = Inr ?n"
    unfolding m'_def using unlocked [OF inb] ret by (rule on_manager_Send_eq)
  have "inbox_ok h c ?mid"
    by (rule inbox_manager [OF inb, where m' = m']) (use same in simp_all)
  then have "inbox_ok h c ?mb"
    using subs(2) same by (simp add: inbox_ok_def node_wf_def node_sys_def neighbours.mirrors_def node_inv_def
        nbr_subs_def nbr_path_def)
  moreover have "outbox_ok h c ?mb"
  proof (cases "adopted (mb_pc mb)")
    case True
    show ?thesis
      by (rule outbox_add [OF out, where msg = msg])
        (use same own True introduced_adopted [OF True] in \<open>simp_all add: sent\<close>)
  next
    case False
    show ?thesis
      by (rule outbox_same [OF out]) (use same False in \<open>simp_all add: sent\<close>)
  qed
  moreover have "requests_ok ?mb"
    using req own same by (auto simp: requests_ok_def Let_def)
  moreover have "subscriptions_ok h c ?mb"
    using ok req subs(1) same by (auto simp: member_ok_def subscriptions_ok_def requests_ok_def Let_def sent)
  ultimately have "member_ok paths h c ?mb" using ok same by (simp add: member_ok_def)
  with run same show ?thesis by (intro exI [of _ ?n]) simp
qed

section \<open>Updates\<close>

text \<open>What \<open>deliver_update\<close> does to the manager and leaves alone of it.\<close>

lemma deliver_update_manager:
  assumes "node_sys n" "deliver_update msg n = Inr n'"
  shows "same_frame (in_manager n) (in_manager n')" "in_subscriptions n' = in_subscriptions n"
    and "tm_history (in_manager n') = insert_history msg (tm_history (in_manager n))"
proof -
  obtain m' where run: "ApplyUpdate all_handlers msg (in_manager n) = Inr m'"
    and fed: "feed on_notification (drop (length (tm_calls (in_manager n))) (tm_calls m')) (n\<lparr>in_manager := m'\<rparr>) = Inr n'"
    using assms(2) by (auto simp: deliver_update_def bind_res_eq_Inr)
  have m': "in_manager n' = m'" using feed_notification_manager [OF fed] by simp
  show "same_frame (in_manager n) (in_manager n')" using ApplyUpdate_frame [OF run] m' by simp
  show "in_subscriptions n' = in_subscriptions n" using feed_notification_out [OF fed] by simp
  have "mgr_ok (in_manager n)" using assms(1) by (simp add: node_sys_def)
  from ApplyUpdate_outcome [OF this, of all_handlers msg] run
  show "tm_history (in_manager n') = insert_history msg (tm_history (in_manager n))"
    by (simp add: m' applied_def)
qed

lemma same_address_log:
  assumes "abs_topology m = topology hist" "\<forall>x\<in>insert msg (set hist). entry_ok paths x"
  shows "same_address msg m"
proof (clarsimp simp: same_address_abs assms(1) split: option.split)
  fix v assume j: "joins msg" and v: "topology hist (nc_id (node_change msg)) = Some v"
  from topology_address [OF v] obtain x where x: "x \<in> set hist" "joins x"
    "message_node_id x = nc_id (node_change msg)" "nc_address (node_change x) = nv_address v" by blast
  have "message_node_id msg = nc_id (node_change msg)" using j by (simp add: joins_def message_node_id_def)
  with assms(2) x j show "nv_address v = nc_address (node_change msg)" by (auto simp: entry_ok_def)
qed

lemma reads_ok:
  assumes ok: "member_ok paths h c mb" and down: "mb_down mb = msg # rest"
    and log: "log_ok paths h" and ord: "ordered True (stream c (ts_wire h))"
  shows "\<exists>n. deliver_update msg (mb_node mb) = Inr n \<and>
    same_frame (mb_manager mb) (in_manager n) \<and> member_ok paths h c (mb\<lparr>mb_node := n, mb_down := rest\<rparr>)"
proof -
  let ?m = "mb_manager mb"
  have inb: "inbox_ok h c mb" using ok by (simp add: member_ok_def)
  have stream: "stream c (ts_wire h) = tm_history ?m @ msg # rest" using inb down by (simp add: inbox_ok_def)
  have sub: "set (tm_history ?m @ msg # rest) \<subseteq> all_messages h"
    unfolding stream [symmetric] by (auto simp: stream_def all_messages_def)
  then have entries: "\<forall>x\<in>insert msg (set (tm_history ?m)). entry_ok paths x" using log by (auto simp: log_ok_def)
  have abs: "abs_topology ?m = topology (tm_history ?m)" using inb by (simp add: inbox_ok_def)
  have wf: "node_wf (mb_node mb)" and sys: "node_sys (mb_node mb)" using inb by (auto simp: inbox_ok_def node_wf_def)
  have "address_fits msg" using entries by (simp add: entry_ok_def)
  from deliver_update_outcome [OF sys this] obtain n where run: "deliver_update msg (mb_node mb) = Inr n"
    and d: "delivered_ok msg (mb_node mb) n" by (auto simp: outcome_total)
  note keep = deliver_update_manager [OF sys run]
  have hist: "tm_history (in_manager n) = tm_history ?m @ [msg]"
    using keep(3) ord insert_history_end [of "tm_history ?m" msg] by (simp add: stream ordered_append ordered_Cons)
  have "nbr_path n = mgr_path (in_manager n)"
    using d same_address_log [OF abs entries] inb by (simp add: delivered_ok_def inbox_ok_def)
  then have "inbox_ok h c (mb\<lparr>mb_node := n, mb_down := rest\<rparr>)"
    using d wf keep(2) stream abs hist by (simp add: inbox_ok_def node_wf_def delivered_ok_def)
  moreover have frame: "tm_nodeId (in_manager n) = tm_nodeId ?m" "introduce_node (in_manager n) = introduce_node ?m"
    "tm_address (in_manager n) = tm_address ?m" "tm_client (in_manager n) = tm_client ?m"
    "tm_backlog (in_manager n) = tm_backlog ?m"
    using keep(1) by (simp_all add: same_frame_def introduce_node_def)
  moreover have "outbox_ok h c (mb\<lparr>mb_node := n, mb_down := rest\<rparr>)"
    by (rule outbox_same [of h c mb]) (use ok frame in \<open>simp_all add: member_ok_def\<close>)
  ultimately have "member_ok paths h c (mb\<lparr>mb_node := n, mb_down := rest\<rparr>)"
    using ok keep(2) by (simp add: member_ok_def requests_ok_def subscriptions_ok_def Let_def)
  with run keep(1) show ?thesis by blast
qed

section \<open>Calls of the user\<close>

lemma local_ok:
  assumes ok: "member_ok paths h c mb" and wf: "node_wf n"
    and same: "in_manager n = mb_manager mb" "in_nodes n = in_nodes (mb_node mb)"
      "in_subscriptions n = in_subscriptions (mb_node mb)"
  shows "member_ok paths h c (mb\<lparr>mb_node := n, mb_up := mb_up mb @ sent_since (mb_node mb) n\<rparr>)"
proof -
  have "nbr_path n = nbr_path (mb_node mb)" using same by (simp add: nbr_path_def)
  with assms show ?thesis
    by (simp add: member_ok_def outbox_ok_def requests_ok_def inbox_ok_def subscriptions_ok_def sent_since_def Let_def)
qed

section \<open>All steps of a node\<close>

text \<open>The invariant of a member meets the contract, given the log and the order of its stream.\<close>

definition member_kept :: "(u64 \<rightharpoonup> string) \<Rightarrow> TopologyServer \<Rightarrow> fd \<Rightarrow> member \<Rightarrow> bool" where
  "member_kept paths h c mb \<longleftrightarrow> member_ok paths h c mb \<and> log_ok paths h \<and> ordered True (stream c (ts_wire h))"

interpretation member: member_contract "member_kept paths h c" for paths h c
proof
  fix mb and msg :: TopologyMessage and rest :: "TopologyMessage list" and ret :: int
    and S :: "string \<rightharpoonup> callback" and n
  assume kept: "member_kept paths h c mb"
  then have ok: "member_ok paths h c mb" and log: "log_ok paths h" "ordered True (stream c (ts_wire h))"
    by (auto simp: member_kept_def)
  show "pc_ok (mb_pc mb)" "node_wf (mb_node mb)" using ok by (simp_all add: member_ok_def requests_ok_def inbox_ok_def Let_def)
  show "member_kept paths h c (mb\<lparr>mb_pc := Introduce 0\<rparr>)" if "mb_pc mb = At_top"
    using connects_ok [OF ok that] log by (simp add: member_kept_def)
  show "\<exists>n. on_manager (IntroduceOurselves 0) (mb_node mb) = Inr n \<and> same_identity mb n \<and>
      member_kept paths h c (mb\<lparr>mb_pc := Adopt 0, mb_node := n, mb_up := mb_up mb @ introduced_since (mb_node mb) n\<rparr>)"
    if "mb_pc mb = Introduce 0" using introduces_ok [OF ok that] log by (auto simp: member_kept_def same_identity_def)
  show "\<exists>b m. adopt_client 0 (mb_manager mb) = Inr (b, m) \<and> tm_nodeId m = tm_nodeId (mb_manager mb) \<and>
      member_kept paths h c (mb\<lparr>mb_pc := Flush 0 b, mb_node := (mb_node mb)\<lparr>in_manager := m\<rparr>\<rparr>)"
    if "mb_pc mb = Adopt 0" using adopts_ok [OF ok that] log by (auto simp: member_kept_def)
  show "\<exists>n. on_manager (Send ret msg) (mb_node mb) = Inr n \<and> same_identity mb n \<and> member_kept paths h c
      (mb\<lparr>mb_pc := Flush 0 rest, mb_node := n, mb_up := mb_up mb @ sent_since (mb_node mb) n\<rparr>)"
    if "mb_pc mb = Flush 0 (msg # rest)" "0 \<le> ret"
    using flushes_ok [OF ok that] log by (auto simp: member_kept_def same_identity_def)
  show "member_kept paths h c (mb\<lparr>mb_pc := Calling_wait 0\<rparr>)" if "mb_pc mb = Flush 0 []"
    using flushed_ok [OF ok that] log by (simp add: member_kept_def)
  show "wait_on_client (mb_manager mb) = Inr (mb_manager mb) \<and> member_kept paths h c (mb\<lparr>mb_pc := Waiting 0\<rparr>)"
    if "mb_pc mb = Calling_wait 0" using waits_ok [OF ok that] log by (simp add: member_kept_def)
  show "\<exists>n. deliver_update msg (mb_node mb) = Inr n \<and> same_identity mb n \<and>
      member_kept paths h c (mb\<lparr>mb_node := n, mb_down := rest\<rparr>)" if "mb_down mb = msg # rest"
    using reads_ok [OF ok that log] log by (auto simp: member_kept_def same_identity_def same_frame_def)
  show "\<exists>n. on_manager (Send ret msg) (mb_node mb) = Inr n \<and> in_subscriptions n = in_subscriptions (mb_node mb) \<and>
      same_identity mb n \<and> member_kept paths h c (mb\<lparr>mb_node := n\<lparr>in_subscriptions := S\<rparr>,
        mb_up := mb_up mb @ sent_since (mb_node mb) (n\<lparr>in_subscriptions := S\<rparr>)\<rparr>)"
    if "own (tm_nodeId (mb_manager mb)) msg" "0 \<le> ret" "dom S = dom (in_subscriptions (mb_node mb)) \<union>
      asks (tm_nodeId (mb_manager mb)) [msg]" "\<forall>t. S t \<noteq> Some None"
    using request_ok [OF ok that] log by (auto simp: member_kept_def same_identity_def)
  show "member_kept paths h c (mb\<lparr>mb_node := n, mb_up := mb_up mb @ sent_since (mb_node mb) n\<rparr>)"
    if "node_wf n" "in_manager n = mb_manager mb" "in_nodes n = in_nodes (mb_node mb)"
      "in_subscriptions n = in_subscriptions (mb_node mb)"
    using local_ok [OF ok that] log by (simp add: member_kept_def)
qed

lemma system_stream:
  assumes "system_inv k s" "sy_members s c = Some mb"
  shows "c \<notin> fst ` set (ts_clients (sy_hub s)) \<Longrightarrow> stream c (ts_wire (sy_hub s)) = []"
    and "ordered True (stream c (ts_wire (sy_hub s)))"
proof -
  let ?h = "sy_hub s"
  have I: "hub_inv True k (fst ` set (ts_clients ?h)) (taken s) ?h" using assms(1) by (simp add: system_inv_def)
  show none: "stream c (ts_wire ?h) = []" if "c \<notin> fst ` set (ts_clients ?h)"
    using I assms(2) that by (intro stream_empty) (auto simp: hub_inv_def taken_def)
  have "view_ok True ?h c" if "c \<in> fst ` set (ts_clients ?h)"
    using I that unfolding hub_inv_def by blast
  with none show "ordered True (stream c (ts_wire ?h))"
    by (cases "c \<in> fst ` set (ts_clients ?h)") (auto simp: view_ok_def)
qed

lemma members_dom:
  assumes "members_ok s"
  shows "finite (dom (sy_members s))" "dom (sy_members s) \<subseteq> sy_used s"
    "fst ` set (ts_clients (sy_hub s)) \<subseteq> dom (sy_members s)"
  using assms unfolding members_ok_def by blast+

lemma members_okI:
  assumes "finite (dom (sy_members s))" "dom (sy_members s) \<subseteq> sy_used s"
    "fst ` set (ts_clients (sy_hub s)) \<subseteq> dom (sy_members s)"
    "\<And>c mb. sy_members s c = Some mb \<Longrightarrow> member_ok (sy_paths s) (sy_hub s) c mb"
    "\<And>c d mb mb'. sy_members s c = Some mb \<Longrightarrow> sy_members s d = Some mb' \<Longrightarrow>
      tm_nodeId (mb_manager mb) = tm_nodeId (mb_manager mb') \<Longrightarrow> c = d"
    "\<And>i. i \<in> dom (topology (ts_history (sy_hub s))) \<Longrightarrow> \<exists>c mb. sy_members s c = Some mb \<and>
      heard (sy_hub s) c \<noteq> [] \<and> tm_nodeId (mb_manager mb) = i"
  shows "members_ok s"
  unfolding members_ok_def using assms(1-3) by (intro conjI allI impI ballI) (assumption | erule assms(4-6))+

lemma members_okD:
  assumes "members_ok s"
  shows "sy_members s c = Some mb \<Longrightarrow> sy_members s d = Some mb' \<Longrightarrow>
      tm_nodeId (mb_manager mb) = tm_nodeId (mb_manager mb') \<Longrightarrow> c = d"
    and "i \<in> dom (topology (ts_history (sy_hub s))) \<Longrightarrow> \<exists>c mb. sy_members s c = Some mb \<and>
      heard (sy_hub s) c \<noteq> [] \<and> tm_nodeId (mb_manager mb) = i"
  using assms unfolding members_ok_def by blast+

lemma member_okD: "system_inv k s \<Longrightarrow> sy_members s c = Some mb \<Longrightarrow> member_ok (sy_paths s) (sy_hub s) c mb"
  unfolding system_inv_def members_ok_def by blast

lemma member_keptD:
  assumes "system_inv k s" "sy_members s c = Some mb"
  shows "member_kept (sy_paths s) (sy_hub s) c mb"
  using assms member_okD system_stream(2) by (auto simp: member_kept_def system_inv_def)

lemma node_step_inv:
  assumes inv: "system_inv k s" and mb: "sy_members s c = Some mb" and step: "node_step dparse dser mb mb'"
  shows "system_inv k (set_member c mb' s)"
  using member.node_step_ok [OF step member_keptD [OF inv mb]]
  by (intro set_member_inv [OF inv mb]) (auto simp: member_kept_def)

lemma call_inv:
  assumes inv: "system_inv k s" and mb: "sy_members s c = Some mb" and call: "user_call u"
    "run_call dparse dser u (mb_node mb) = Inr n"
  shows "system_inv k (set_member c (mb\<lparr>mb_node := n, mb_up := mb_up mb @ sent_since (mb_node mb) n\<rparr>) s)"
  using member.calls_ok [OF member_keptD [OF inv mb] call(1), of dparse dser] call(2)
  by (intro set_member_inv [OF inv mb]) (auto simp: member_kept_def same_identity_def)

lemma new_member_simps [simp]:
  "mb_up (new_member g nm i x) = []" "mb_down (new_member g nm i x) = []" "mb_pc (new_member g nm i x) = At_top"
  "mb_node (new_member g nm i x) = IPCNode_init g nm i (data_path x)"
  "in_manager (IPCNode_init g nm i p) = TopologyManager_init g nm i p"
  "in_subscriptions (IPCNode_init g nm i p) = Map.empty"
  "tm_nodeId (TopologyManager_init g nm i p) = i" "tm_address (TopologyManager_init g nm i p) = p"
  "tm_client (TopologyManager_init g nm i p) = None" "tm_backlog (TopologyManager_init g nm i p) = []"
  by (simp_all add: new_member_def IPCNode_init_def TopologyManager_init_def)

lemma entry_ok_mono: "entry_ok paths m \<Longrightarrow> paths i = None \<Longrightarrow> entry_ok (paths(i \<mapsto> p)) m"
  by (auto simp: entry_ok_def)

lemma member_ok_mono: "member_ok paths h c mb \<Longrightarrow> paths i = None \<Longrightarrow> member_ok (paths(i \<mapsto> p)) h c mb"
  by (auto simp: member_ok_def)

lemma start_inv:
  assumes inv: "system_inv k s" and new: "c \<notin> sy_used s" "sy_paths s i = None" "i \<noteq> 0" "i \<noteq> 1"
  shows "system_inv k (set_member c (new_member g nm i x) s\<lparr>sy_used := insert c (sy_used s),
    sy_paths := (sy_paths s)(i \<mapsto> data_path x)\<rparr>)"
proof -
  let ?mb = "new_member g nm i x" and ?h = "sy_hub s" and ?paths = "(sy_paths s)(i \<mapsto> data_path x)"
  let ?s = "set_member c ?mb s\<lparr>sy_used := insert c (sy_used s), sy_paths := ?paths\<rparr>"
  have I: "hub_inv True k (fst ` set (ts_clients ?h)) (taken s) ?h" and log: "log_ok (sy_paths s) ?h"
    and paths: "paths_ok (sy_paths s)" and mem: "members_ok s" using inv by (auto simp: system_inv_def)
  have c: "c \<notin> dom (sy_members s)" "c \<notin> fst ` set (ts_clients ?h)" "c \<notin> fst ` set (ts_wire ?h)"
  proof -
    show dom: "c \<notin> dom (sy_members s)" using members_dom(2) [OF mem] new(1) by (rule contra_subsetD)
    show "c \<notin> fst ` set (ts_clients ?h)" using members_dom(3) [OF mem] dom by (rule contra_subsetD)
    have "fst ` set (ts_wire ?h) \<subseteq> taken s" using I by (simp add: hub_inv_def)
    moreover have "c \<notin> taken s" using new(1) by (simp add: taken_def)
    ultimately show "c \<notin> fst ` set (ts_wire ?h)" by (rule contra_subsetD)
  qed
  have known: "sy_paths s (message_node_id m) \<noteq> None" if "m \<in> all_messages ?h" for m
    using log that by (auto simp: log_ok_def entry_ok_def)
  then have none: "\<forall>m\<in>all_messages ?h. message_node_id m \<noteq> i" using new(2) by metis
  have "i \<notin> left_ids (ts_history ?h)"
    using none by (auto simp: all_messages_def dest!: left_ids_message)
  moreover have "heard ?h c = []" using c(2) by (simp add: heard_def map_of_eq_None_iff [THEN iffD2])
  ultimately have self: "member_ok ?paths ?h c ?mb"
    using none c(3)
    by (simp add: member_ok_def outbox_ok_def requests_ok_def inbox_ok_def subscriptions_ok_def stream_empty pc_ok_def
        Let_def IPCNode_init_sys [simplified])
  have old: "member_ok ?paths ?h d mb" if "sy_members s d = Some mb" for d mb
    using member_okD [OF inv that] new(2) by (rule member_ok_mono)
  have fresh: "tm_nodeId (mb_manager mb) \<noteq> i" if "sy_members s d = Some mb" for d mb
    using member_okD [OF inv that] new(2) by (auto simp: member_ok_def)
  have proj: "sy_members ?s = (sy_members s)(c \<mapsto> ?mb)" "sy_hub ?s = ?h" "sy_used ?s = insert c (sy_used s)"
    "sy_paths ?s = ?paths" by (simp_all add: set_member_def)
  have "members_ok ?s"
  proof (rule members_okI, unfold proj)
    show "finite (dom ((sy_members s)(c \<mapsto> ?mb)))" using members_dom(1) [OF mem] by simp
    show "dom ((sy_members s)(c \<mapsto> ?mb)) \<subseteq> insert c (sy_used s)" using members_dom(2) [OF mem] by auto
    show "fst ` set (ts_clients ?h) \<subseteq> dom ((sy_members s)(c \<mapsto> ?mb))" using members_dom(3) [OF mem] by auto
    show "member_ok ?paths ?h d mb" if "((sy_members s)(c \<mapsto> ?mb)) d = Some mb" for d mb
      using that self old by (auto split: if_splits)
    show "c' = d" if "((sy_members s)(c \<mapsto> ?mb)) c' = Some x" "((sy_members s)(c \<mapsto> ?mb)) d = Some y"
      "tm_nodeId (mb_manager x) = tm_nodeId (mb_manager y)" for c' d x y
      using that fresh [of c' x] fresh [of d y] members_okD(1) [OF mem, of c' x d y] by (auto split: if_splits)
    show "\<exists>c' mb. ((sy_members s)(c \<mapsto> ?mb)) c' = Some mb \<and> heard ?h c' \<noteq> [] \<and> tm_nodeId (mb_manager mb) = j"
      if "j \<in> dom (topology (ts_history ?h))" for j
    proof -
      from members_okD(2) [OF mem that] obtain d y where d: "sy_members s d = Some y" "heard ?h d \<noteq> []" "tm_nodeId (mb_manager y) = j"
        by blast
      then have "d \<noteq> c" using c(1) by auto
      with d show ?thesis by auto
    qed
  qed
  moreover have "taken ?s = taken s" using c(2) new(1) by (auto simp: taken_def set_member_def)
  moreover have "paths_ok ?paths"
    using paths new(3,4) by (auto simp: paths_ok_def data_path_def sun_path_size_def ran_def)
  moreover have "log_ok ?paths ?h" using log new(2) by (auto simp: log_ok_def intro: entry_ok_mono)
  ultimately show ?thesis using I by (simp add: system_inv_def) (simp add: set_member_def)
qed

end
