(* ===== verification/SystemHub.thy ===== *)
theory SystemHub
  imports SystemSteps
begin

text \<open>
  The steps of the hub of \<open>SystemRun\<close> keep the invariant: a connection accepted, a message read, a
  connection lost, the purge.
\<close>

section \<open>Steps of the hub\<close>

text \<open>A member the hub has not just read from, seen from its new state.\<close>

lemma member_moves:
  assumes ok: "member_ok paths h c mb" and wire: "ts_wire h' = ts_wire h @ w"
    and seen: "heard h' c = heard h c" "heard h c \<noteq> [] \<Longrightarrow> believed h' c = believed h c"
    and topo: "topology (ts_history h') (tm_nodeId (mb_manager mb)) = topology (ts_history h) (tm_nodeId (mb_manager mb))"
    and left: "tm_nodeId (mb_manager mb) \<notin> left_ids (ts_history h')"
    and new: "\<forall>x\<in>all_messages h' - all_messages h. message_node_id x \<noteq> tm_nodeId (mb_manager mb)"
  shows "member_ok paths h' c (mb\<lparr>mb_down := mb_down mb @ stream c w\<rparr>)"
proof -
  have "outbox_ok h' c (mb\<lparr>mb_down := mb_down mb @ stream c w\<rparr>)"
    using ok seen topo new introducing_same [OF _ refl refl wire, of "mb_manager mb" "mb_up mb"]
    by (auto simp: member_ok_def outbox_ok_def Let_def split: if_splits)
  with ok left seen wire show ?thesis
    by (simp add: member_ok_def requests_ok_def inbox_ok_def subscriptions_ok_def)
qed

lemma log_moves:
  assumes log: "log_ok paths h" and sub: "all_messages h' \<subseteq> all_messages h \<union> set ms"
    and le: "last_seq (ts_history h) \<le> last_seq (ts_history h')" and inj: "inj_on seq (set ms)"
    and new: "\<forall>m\<in>set ms. entry_ok paths m \<and> last_seq (ts_history h) < seq m \<and> seq m \<le> last_seq (ts_history h')"
  shows "log_ok paths h'"
proof -
  have "inj_on seq (all_messages h \<union> set ms)"
    using log new inj by (auto simp: log_ok_def inj_on_Un) (metis leD)
  with log sub new le show ?thesis
    by (auto simp: log_ok_def intro: inj_on_subset order_trans)
qed

text \<open>What a step of the hub that reads from, or loses, the member \<open>c\<close> has to keep.\<close>

lemma hub_moves_inv:
  assumes inv: "system_inv k0 s" and wire: "ts_wire h' = ts_wire (sy_hub s) @ w"
    and others: "\<forall>d. d \<noteq> c \<longrightarrow> M d = sy_members s d"
    and same: "\<And>mb. M c = Some mb \<Longrightarrow> \<exists>mb0. sy_members s c = Some mb0 \<and>
      tm_nodeId (mb_manager mb) = tm_nodeId (mb_manager mb0)"
    and hub: "hub_inv True k (fst ` set (ts_clients h')) (taken (hub_moves h' (s\<lparr>sy_members := M\<rparr>))) h'"
      "fst ` set (ts_clients h') \<subseteq> dom M"
    and log: "log_ok (sy_paths s) h'"
    and ok: "\<And>d mb. M d = Some mb \<Longrightarrow> member_ok (sy_paths s) h' d (mb\<lparr>mb_down := mb_down mb @ stream d w\<rparr>)"
    and nodes: "\<And>i. i \<in> dom (topology (ts_history h')) \<Longrightarrow> \<exists>d mb. M d = Some mb \<and> heard h' d \<noteq> [] \<and>
      tm_nodeId (mb_manager mb) = i"
  shows "system_inv k (hub_moves h' (s\<lparr>sy_members := M\<rparr>))"
proof -
  let ?s = "hub_moves h' (s\<lparr>sy_members := M\<rparr>)"
  have down: "drop (length (ts_wire (sy_hub s))) (ts_wire h') = w" by (simp add: wire)
  have mem: "sy_members ?s = (\<lambda>d. map_option (\<lambda>mb. mb\<lparr>mb_down := mb_down mb @ stream d w\<rparr>) (M d))"
    by (simp add: hub_moves_def down)
  have dom: "dom (sy_members ?s) = dom M" "dom M \<subseteq> dom (sy_members s)"
    using others same by (auto simp: mem) (metis domI domIff)
  have old: "members_ok s" using inv by (simp add: system_inv_def)
  have ids: "\<exists>mb0. sy_members s d = Some mb0 \<and> tm_nodeId (mb_manager mb) = tm_nodeId (mb_manager mb0)"
    if "M d = Some mb" for d mb using that others same by (cases "d = c") auto
  have proj: "sy_hub ?s = h'" "sy_used ?s = sy_used s" "sy_paths ?s = sy_paths s" by (simp_all add: hub_moves_def)
  have fin: "finite (dom (sy_members ?s))" "dom (sy_members ?s) \<subseteq> sy_used s"
    "fst ` set (ts_clients h') \<subseteq> dom (sy_members ?s)"
    using members_dom [OF old] dom hub(2) by (auto intro: finite_subset)
  have "c' = d" if "sy_members ?s c' = Some mb" "sy_members ?s d = Some mb'"
    "tm_nodeId (mb_manager mb) = tm_nodeId (mb_manager mb')" for c' d mb mb'
  proof -
    from that obtain x y where "M c' = Some x" "M d = Some y" "tm_nodeId (mb_manager x) = tm_nodeId (mb_manager y)"
      by (auto simp: mem)
    with ids [of c' x] ids [of d y] old show ?thesis unfolding members_ok_def by metis
  qed
  moreover have "\<exists>d mb. sy_members ?s d = Some mb \<and> heard h' d \<noteq> [] \<and> tm_nodeId (mb_manager mb) = i"
    if "i \<in> dom (topology (ts_history h'))" for i
    using nodes [OF that] by (elim exE conjE) (rule exI, rule exI, auto simp: mem)
  moreover have "member_ok (sy_paths s) h' d mb" if "sy_members ?s d = Some mb" for d mb
    using that ok by (auto simp: mem)
  ultimately have "members_ok ?s"
    using fin by (intro members_okI) (simp_all only: proj)
  then show ?thesis using hub log inv by (simp add: system_inv_def) (simp add: hub_moves_def)
qed

lemma system_hub:
  assumes "system_inv k s"
  shows "hub_inv True k (fst ` set (ts_clients (sy_hub s))) (taken s) (sy_hub s)"
    "fst ` set (ts_clients (sy_hub s)) \<subseteq> taken s"
    "settled {} (ts_history (sy_hub s))" "no_zero_topic (ts_history (sy_hub s))"
    "1 \<notin> left_ids (ts_history (sy_hub s))" "ordered True (ts_history (sy_hub s))"
    "log_ok (sy_paths s) (sy_hub s)" "members_ok s"
proof -
  let ?h = "sy_hub s"
  show I: "hub_inv True k (fst ` set (ts_clients ?h)) (taken s) ?h" and log: "log_ok (sy_paths s) ?h"
    and mem: "members_ok s" using assms by (auto simp: system_inv_def)
  then show "settled {} (ts_history ?h)" "no_zero_topic (ts_history ?h)" "ordered True (ts_history ?h)"
    by (auto simp: hub_inv_def hub_ok_def)
  show "fst ` set (ts_clients ?h) \<subseteq> taken s" using members_dom [OF mem] unfolding taken_def by blast
  have "sy_paths s 1 = None" using assms by (simp add: system_inv_def paths_ok_def)
  then have "\<forall>m\<in>all_messages ?h. message_node_id m \<noteq> 1" using log by (auto simp: log_ok_def entry_ok_def)
  then show "1 \<notin> left_ids (ts_history ?h)"
    by (auto simp: all_messages_def dest!: left_ids_message)
qed

lemma taken_hub_moves: "taken (hub_moves h' (s\<lparr>sy_members := M\<rparr>)) =
    {d \<in> sy_used s. d \<in> dom M \<longrightarrow> d \<in> fst ` set (ts_clients h')}"
  by (auto simp: taken_def hub_moves_def)

lemma system_node:
  assumes "system_inv k s" "i \<in> dom (topology (ts_history (sy_hub s)))"
  shows "\<exists>c mb. sy_members s c = Some mb \<and> heard (sy_hub s) c \<noteq> [] \<and> tm_nodeId (mb_manager mb) = i"
  using assms unfolding system_inv_def members_ok_def by blast

lemma accept_inv:
  assumes inv: "system_inv (Suc k) s" and mb: "sy_members s c = Some mb" and new: "c \<notin> fst ` set (ts_clients (sy_hub s))"
    and run: "OnConnect c (sy_hub s) = Inr h'"
  shows "system_inv k (hub_moves h' s)"
proof -
  let ?h = "sy_hub s"
  let ?w = "map (Pair c) (ts_history ?h)"
  note hub = system_hub [OF inv]
  have c: "map_of (ts_clients ?h) c = None" using new by (simp add: map_of_eq_None_iff)
  have h': "h' = ?h\<lparr>ts_clients := ts_clients ?h @ [(c, default_Client\<lparr>cl_seq := last_seq (ts_history ?h)\<rparr>)],
      ts_wire := ts_wire ?h @ ?w\<rparr>"
    using OnConnect_eq [OF ordered_sorted [OF hub(6)] c] run by simp
  have seen: "heard h' d = heard ?h d" "d \<noteq> c \<Longrightarrow> believed h' d = believed ?h d" for d
    by (cases "map_of (ts_clients ?h) d"; auto simp: h' heard_def believed_def default_Client_def c map_add_def)+
  have proj: "ts_history h' = ts_history ?h" "ts_wire h' = ts_wire ?h @ ?w" by (simp_all add: h')
  have all: "all_messages h' = all_messages ?h" by (auto simp: h' all_messages_def)
  have none: "heard ?h c = []" by (simp add: heard_def c)
  then have kept: "heard ?h d \<noteq> [] \<Longrightarrow> believed h' d = believed ?h d" for d using seen(2) [of d] by (cases "d = c") auto
  have "c \<notin> taken s" using mb new by (auto simp: taken_def)
  from OnConnect_outcome [OF hub(1,2) this] run
  have "hub_inv True k (insert c (fst ` set (ts_clients ?h))) (insert c (taken s)) h'" by simp
  moreover have dom: "fst ` set (ts_clients h') = insert c (fst ` set (ts_clients ?h))" by (simp add: h')
  moreover have "insert c (taken s) \<subseteq> taken (hub_moves h' (s\<lparr>sy_members := sy_members s\<rparr>))"
    using members_dom(2) [OF hub(8)] mb unfolding taken_hub_moves dom by (auto simp: taken_def)
  ultimately have hub': "hub_inv True k (fst ` set (ts_clients h')) (taken (hub_moves h' (s\<lparr>sy_members := sy_members s\<rparr>))) h'"
    by (auto intro: hub_inv_used)
  have "system_inv k (hub_moves h' (s\<lparr>sy_members := sy_members s\<rparr>))"
  proof (rule hub_moves_inv [OF inv _ _ _ hub', where c = c and w = ?w])
    show "log_ok (sy_paths s) h'" using hub(7) unfolding log_ok_def all by (simp add: h')
    show "fst ` set (ts_clients h') \<subseteq> dom (sy_members s)" using dom members_dom(3) [OF hub(8)] mb by auto
    show "member_ok (sy_paths s) h' d (mb\<lparr>mb_down := mb_down mb @ stream d ?w\<rparr>)" if "sy_members s d = Some mb" for d mb
      by (rule member_moves [OF member_okD [OF inv that]])
        (use member_okD [OF inv that] seen(1) kept proj all in \<open>auto simp: member_ok_def\<close>)
    show "\<exists>d mb. sy_members s d = Some mb \<and> heard h' d \<noteq> [] \<and> tm_nodeId (mb_manager mb) = i"
      if "i \<in> dom (topology (ts_history h'))" for i
      using system_node [OF inv, of i] that by (simp add: seen) (simp add: h')
  qed (auto simp: h')
  then show ?thesis by simp
qed

text \<open>Steps that change neither the topology nor the wire: echoes, repeated requests and the purge.\<close>

lemma quiet_inv:
  assumes inv: "system_inv k0 s" and others: "\<forall>d. d \<noteq> c \<longrightarrow> M d = sy_members s d" and dom: "dom M = dom (sy_members s)"
    and same: "\<And>mb. M c = Some mb \<Longrightarrow> member_ok (sy_paths s) (sy_hub s) c mb \<and>
      (\<exists>mb0. sy_members s c = Some mb0 \<and> tm_nodeId (mb_manager mb) = tm_nodeId (mb_manager mb0))"
    and h1: "ts_wire h1 = ts_wire (sy_hub s)" "fst ` set (ts_clients h1) = fst ` set (ts_clients (sy_hub s))"
      "\<And>d. heard h1 d = heard (sy_hub s) d"
      "\<And>d. heard (sy_hub s) d \<noteq> [] \<Longrightarrow> believed h1 d = believed (sy_hub s) d"
    and hub: "hub_inv True k (fst ` set (ts_clients (sy_hub s))) (taken s) (synced (ts_history (sy_hub s)) [] h1)"
  shows "system_inv k (hub_moves (synced (ts_history (sy_hub s)) [] h1) (s\<lparr>sy_members := M\<rparr>))"
proof -
  let ?h = "sy_hub s"
  let ?h' = "synced (ts_history ?h) [] h1"
  note old = system_hub [OF inv]
  have topo: "topology (ts_history ?h') = topology (ts_history ?h)"
    using topology_prune [OF old(3), of "[]"] old(4,5) by simp
  have last: "last_seq (ts_history ?h') = last_seq (ts_history ?h)" using last_seq_prune [OF old(3), of "[]"] by simp
  have all: "all_messages ?h' \<subseteq> all_messages ?h" using synced_messages [of ?h "[]" h1] h1(1) by (auto simp: all_messages_def)
  have dom': "fst ` set (ts_clients ?h') = fst ` set (ts_clients ?h)" by (simp add: h1(2))
  have hub': "hub_inv True k (fst ` set (ts_clients ?h')) (taken (hub_moves ?h' (s\<lparr>sy_members := M\<rparr>))) ?h'"
    using hub unfolding taken_hub_moves dom dom' by (simp add: taken_def)
  show ?thesis
  proof (rule hub_moves_inv [OF inv _ others _ hub', where w = "[]"])
    show wire: "ts_wire ?h' = ts_wire ?h @ []" by (simp add: synced_def h1(1))
    show "fst ` set (ts_clients ?h') \<subseteq> dom M" using members_dom(3) [OF old(8)] by (simp add: dom h1(2))
    show "log_ok (sy_paths s) ?h'" by (rule log_moves [OF old(7), where ms = "[]"]) (use all last in auto)
    show "member_ok (sy_paths s) ?h' d (mb\<lparr>mb_down := mb_down mb @ stream d []\<rparr>)" if "M d = Some mb" for d mb
    proof -
      have ok: "member_ok (sy_paths s) ?h d mb"
        using that others same member_okD [OF inv] by (cases "d = c") auto
      then show ?thesis
        by (rule member_moves) (use wire all topo h1 ok in \<open>auto simp: member_ok_def\<close>)
    qed
    show "\<exists>d mb. M d = Some mb \<and> heard ?h' d \<noteq> [] \<and> tm_nodeId (mb_manager mb) = i"
      if i: "i \<in> dom (topology (ts_history ?h'))" for i
    proof -
      from i obtain d mb where d: "sy_members s d = Some mb" "heard ?h d \<noteq> []" "tm_nodeId (mb_manager mb) = i"
        using system_node [OF inv] unfolding topo by blast
      moreover obtain mb' where "M d = Some mb'" using dom d(1) by (metis domD domI)
      moreover from this have "tm_nodeId (mb_manager mb') = i" using d others same [of mb'] by (cases "d = c") auto
      ultimately show ?thesis by (auto simp: h1(3))
    qed
  qed (use same in blast)
qed

section \<open>The hub reads a message\<close>

lemma quiet_commit:
  assumes I: "hub_inv strict (Suc k) C U h" and c: "c \<in> C" "C \<subseteq> U" and cl: "map_of (ts_clients h) c = Some cl"
  shows "hub_inv strict k C U (synced (ts_history h) []
    (h\<lparr>ts_clients := AList.update c (cl\<lparr>cl_nodeId := n\<rparr>) (ts_clients h)\<rparr>))"
proof -
  let ?cl = "cl\<lparr>cl_nodeId := n\<rparr>"
  let ?h = "h\<lparr>ts_clients := AList.update c ?cl (ts_clients h)\<rparr>"
  have "outcome {} (hub_inv strict k C U) (Broadcast (PruneRemoved ?h))"
    using OnData_commit [OF I c extends_refl [OF I, of "cl\<lparr>cl_nodeId := n\<rparr>"] cl] by simp
  moreover have "Broadcast (PruneRemoved ?h) = Inr (synced (ts_history h) [] ?h)"
    by (rule Broadcast_PruneRemoved)
      (use I updated_seqs [OF _ cl, of strict ?cl] in \<open>auto simp: hub_inv_def hub_ok_def\<close>)
  ultimately show ?thesis by simp
qed

lemma redundant_asks:
  assumes "IsRedundant_in m hs" "has_topic_change m"
  shows "asks i [m] \<subseteq> asks i hs"
  using assms
  by (induction hs) (auto simp: oneof_defs split: if_splits oneof_op.splits)

text \<open>The first message of a queue: an echo, the node's own \<open>JOIN\<close>, or a request.\<close>

lemma outbox_head:
  assumes "outbox_ok h c mb" "mb_up mb = msg # rest"
  obtains (echo) "heard h c = []" "introduced (mb_pc mb)" "msg \<in> snd ` set (ts_wire h)"
      "introducing h (mb_manager mb) rest"
  | (hello) "heard h c = []" "introduced (mb_pc mb)" "msg = introduce_node (mb_manager mb)"
      "list_all (own (tm_nodeId (mb_manager mb))) rest"
  | (request) "heard h c \<noteq> []" "introduced (mb_pc mb)" "own (tm_nodeId (mb_manager mb)) msg"
      "list_all (own (tm_nodeId (mb_manager mb))) rest"
proof (cases "heard h c = []")
  case True
  with assms have intro: "introduced (mb_pc mb)" "introducing h (mb_manager mb) (msg # rest)"
    by (auto simp: outbox_ok_def Let_def split: if_splits)
  then obtain es us where q: "msg # rest = es @ introduce_node (mb_manager mb) # us"
    "set es \<subseteq> snd ` set (ts_wire h)" "list_all (own (tm_nodeId (mb_manager mb))) us"
    by (auto simp: introducing_def)
  show thesis
  proof (cases es)
    case Nil
    with q True intro show thesis by (intro hello) auto
  next
    case (Cons e es')
    with q have "introducing h (mb_manager mb) rest"
      unfolding introducing_def by (intro exI [of _ es'] exI [of _ us]) auto
    with q Cons True intro show thesis by (intro echo) auto
  qed
next
  case False
  with assms show thesis by (intro request) (auto simp: outbox_ok_def Let_def)
qed

lemma client_of:
  assumes "c \<in> fst ` set (ts_clients h)"
  obtains cl where "map_of (ts_clients h) c = Some cl" "heard h c = cl_history cl" "believed h c = Some (cl_nodeId cl)"
proof -
  have "map_of (ts_clients h) c \<noteq> None" using assms by (simp add: map_of_eq_None_iff)
  then show thesis using that by (auto simp: heard_def believed_def)
qed

text \<open>Only the node id that the hub notes for the connection changes.\<close>

lemma noted_inv:
  assumes inv: "system_inv (Suc k) s" and mb: "sy_members s c = Some mb"
    and c: "c \<in> fst ` set (ts_clients (sy_hub s))" "map_of (ts_clients (sy_hub s)) c = Some cl"
    and noted: "heard (sy_hub s) c \<noteq> [] \<longrightarrow> believed (sy_hub s) c = Some n"
    and ok: "member_ok (sy_paths s) (sy_hub s) c (mb\<lparr>mb_up := rest\<rparr>)"
  shows "system_inv k (hub_moves (synced (ts_history (sy_hub s)) []
      ((sy_hub s)\<lparr>ts_clients := AList.update c (cl\<lparr>cl_nodeId := n\<rparr>) (ts_clients (sy_hub s))\<rparr>))
    (set_member c (mb\<lparr>mb_up := rest\<rparr>) s))"
  unfolding set_member_def
proof (rule quiet_inv [OF inv, where c = c])
  let ?h = "sy_hub s"
  let ?h1 = "?h\<lparr>ts_clients := AList.update c (cl\<lparr>cl_nodeId := n\<rparr>) (ts_clients ?h)\<rparr>"
  note hub = system_hub [OF inv]
  show "dom ((sy_members s)(c \<mapsto> mb\<lparr>mb_up := rest\<rparr>)) = dom (sy_members s)" using mb by auto
  show "heard ?h1 d = heard ?h d" for d using c(2) by (simp add: heard_def update_conv')
  show "believed ?h1 d = believed ?h d" if "heard ?h d \<noteq> []" for d
    using noted that by (cases "d = c") (auto simp: believed_def update_conv')
  show "fst ` set (ts_clients ?h1) = fst ` set (ts_clients ?h)" using c(1) by (auto simp: dom_update)
  show "hub_inv True k (fst ` set (ts_clients ?h)) (taken s) (synced (ts_history ?h) [] ?h1)"
    by (rule quiet_commit [OF hub(1) c(1) hub(2) c(2)])
qed (use mb ok in auto)

lemma echo_run:
  assumes inv: "system_inv (Suc k) s" and cl: "map_of (ts_clients (sy_hub s)) c = Some cl" and bs: "bs \<noteq> []"
    and echo: "parse bs \<in> snd ` set (ts_wire (sy_hub s))"
  shows "OnData parse rng c bs (sy_hub s) = Inr (synced (ts_history (sy_hub s)) [] ((sy_hub s)\<lparr>ts_clients :=
    AList.update c (cl\<lparr>cl_nodeId := message_node_id (parse bs)\<rparr>) (ts_clients (sy_hub s))\<rparr>))"
proof -
  let ?h = "sy_hub s" and ?m = "parse bs"
  note hub = system_hub [OF inv]
  have all: "?m \<in> all_messages ?h" using echo by (simp add: all_messages_def)
  then have entry: "entry_ok (sy_paths s) ?m" "seq ?m \<le> last_seq (ts_history ?h)" using hub(7) by (auto simp: log_ok_def)
  have "\<forall>x\<in>set (ts_history ?h). seq x = seq ?m \<longrightarrow> x = ?m"
    using hub(7) all by (auto simp: log_ok_def all_messages_def dest: inj_onD)
  moreover have "message_node_id ?m \<noteq> 0" "seq ?m \<noteq> 0"
    using entry(1) inv by (auto simp: entry_ok_def system_inv_def paths_ok_def)
  ultimately show ?thesis
    using OnData_echo [where parse = parse and bs = bs, OF hub(1) cl bs _ _ entry(2)] by simp
qed

lemma echo_inv:
  assumes inv: "system_inv (Suc k) s" and mb: "sy_members s c = Some mb" and c: "c \<in> fst ` set (ts_clients (sy_hub s))"
    and up: "mb_up mb = parse bs # rest" "bs \<noteq> []"
    and run: "OnData parse rng c bs (sy_hub s) = Inr h'"
    and echo: "heard (sy_hub s) c = []" "introduced (mb_pc mb)" "parse bs \<in> snd ` set (ts_wire (sy_hub s))"
      "introducing (sy_hub s) (mb_manager mb) rest"
  shows "system_inv k (hub_moves h' (set_member c (mb\<lparr>mb_up := rest\<rparr>) s))"
proof -
  let ?h = "sy_hub s" and ?m = "parse bs"
  obtain cl where cl: "map_of (ts_clients ?h) c = Some cl" using client_of [OF c] by blast
  have h': "h' = synced (ts_history ?h) []
      (?h\<lparr>ts_clients := AList.update c (cl\<lparr>cl_nodeId := message_node_id ?m\<rparr>) (ts_clients ?h)\<rparr>)"
    using echo_run [where parse = parse and bs = bs, OF inv cl up(2) echo(3), of rng] run by simp
  have all: "?m \<in> all_messages ?h" using echo(3) by (simp add: all_messages_def)
  have ok: "member_ok (sy_paths s) ?h c mb" by (rule member_okD [OF inv mb])
  then have "message_node_id ?m \<noteq> tm_nodeId (mb_manager mb)"
    using echo(1) all by (auto simp: member_ok_def outbox_ok_def Let_def)
  then have "asks (tm_nodeId (mb_manager mb)) [?m] = {}" by (intro asks_others) simp
  then have "asks (tm_nodeId (mb_manager mb)) (mb_up mb) = asks (tm_nodeId (mb_manager mb)) rest"
    unfolding up(1) by (simp del: asks_simps(2) add: asks_simps(3) [of _ "[?m]" rest, simplified append.simps])
  with ok echo have "member_ok (sy_paths s) ?h c (mb\<lparr>mb_up := rest\<rparr>)"
    by (simp add: member_ok_def outbox_ok_def requests_ok_def inbox_ok_def subscriptions_ok_def Let_def)
  then show ?thesis unfolding h' using echo(1) by (intro noted_inv [OF inv mb c cl]) auto
qed

lemma redundant_inv:
  assumes inv: "system_inv (Suc k) s" and mb: "sy_members s c = Some mb" and c: "c \<in> fst ` set (ts_clients (sy_hub s))"
    and up: "mb_up mb = parse bs # rest" "bs \<noteq> []"
    and run: "OnData parse rng c bs (sy_hub s) = Inr h'"
    and req: "heard (sy_hub s) c \<noteq> []" "introduced (mb_pc mb)" "own (tm_nodeId (mb_manager mb)) (parse bs)"
    and cl: "map_of (ts_clients (sy_hub s)) c = Some cl" and red: "IsRedundant (parse bs) cl"
  shows "system_inv k (hub_moves h' (set_member c (mb\<lparr>mb_up := rest\<rparr>) s))"
proof -
  let ?h = "sy_hub s" and ?m = "parse bs" and ?i = "tm_nodeId (mb_manager mb)"
  note hub = system_hub [OF inv]
  have ok: "member_ok (sy_paths s) ?h c mb" by (rule member_okD [OF inv mb])
  have key: "message_node_id ?m = ?i"
    using req(3) by (cases rule: oneof_exhaust [of ?m]) (auto simp: own_def message_node_id_def)
  have "?i \<noteq> 0" using ok inv by (auto simp: member_ok_def system_inv_def paths_ok_def)
  moreover have "seq ?m = 0" using req(3) by (simp add: own_def)
  ultimately have h': "h' = synced (ts_history ?h) []
      (?h\<lparr>ts_clients := AList.update c (cl\<lparr>cl_nodeId := message_node_id ?m\<rparr>) (ts_clients ?h)\<rparr>)"
    using OnData_redundant [where parse = parse and bs = bs, OF hub(1) cl up(2) _ _ red] key run by simp
  have "heard ?h c = cl_history cl" by (simp add: heard_def cl)
  then have "asks ?i [?m] \<subseteq> asks ?i (heard ?h c)"
    using redundant_asks [of ?m "cl_history cl" ?i] red req(3) by (simp add: IsRedundant_def own_def)
  then have "asks ?i (heard ?h c) \<union> asks ?i (mb_up mb) = asks ?i (heard ?h c) \<union> asks ?i rest"
    using asks_simps(3) [of ?i "[?m]" rest] unfolding up(1) by auto
  then have "subscriptions_ok ?h c (mb\<lparr>mb_up := rest\<rparr>)"
    using ok by (simp add: member_ok_def subscriptions_ok_def) (simp add: Un_assoc [symmetric])
  with ok req up have "member_ok (sy_paths s) ?h c (mb\<lparr>mb_up := rest\<rparr>)"
    by (simp add: member_ok_def outbox_ok_def requests_ok_def inbox_ok_def Let_def)
  moreover have "believed ?h c = Some ?i" using ok req(1) by (simp add: member_ok_def outbox_ok_def Let_def)
  ultimately show ?thesis unfolding h' by (intro noted_inv [OF inv mb c cl]) (auto simp: key)
qed

text \<open>A message of the node itself that the hub has not had from it becomes part of the log.\<close>

lemma fresh_inv:
  assumes inv: "system_inv (Suc k) s" and mb: "sy_members s c = Some mb"
    and cl: "map_of (ts_clients (sy_hub s)) c = Some cl" and bs: "bs \<noteq> []"
    and run: "OnData parse rng c bs (sy_hub s) = Inr h'"
    and fresh: "\<not> IsRedundant (parse bs) cl" "seq (parse bs) = 0"
    and key: "message_node_id (parse bs) = tm_nodeId (mb_manager mb)" and stays: "\<not> leaves (parse bs)"
    and address: "joins (parse bs) \<longrightarrow> nc_address (node_change (parse bs)) = tm_address (mb_manager mb)"
      "address_fits (parse bs)"
    and node: "\<exists>v. topology_step (parse bs) (topology (ts_history (sy_hub s))) (tm_nodeId (mb_manager mb)) = Some v \<and>
      nv_address v = tm_address (mb_manager mb) \<and>
      nv_subs v = asks (tm_nodeId (mb_manager mb)) (heard (sy_hub s) c @ [parse bs])"
    and rest: "introduced (mb_pc mb)" "list_all (own (tm_nodeId (mb_manager mb))) rest"
      "asks (tm_nodeId (mb_manager mb)) (mb_up mb) = asks (tm_nodeId (mb_manager mb)) (parse bs # rest)"
  shows "system_inv k (hub_moves h' (set_member c (mb\<lparr>mb_up := rest\<rparr>) s))"
proof -
  let ?h = "sy_hub s" and ?i = "tm_nodeId (mb_manager mb)" and ?mb = "mb\<lparr>mb_up := rest\<rparr>"
  let ?m = "(parse bs)\<lparr>seq := ts_nextSeq ?h, uid := rng (ts_draws ?h)\<rparr>"
  let ?M = "(sy_members s)(c \<mapsto> ?mb)"
  note hub = system_hub [OF inv]
  have ok: "member_ok (sy_paths s) ?h c mb" by (rule member_okD [OF inv mb])
  have i: "?i \<noteq> 0" "?i \<noteq> 1" "?i \<notin> left_ids (ts_history ?h)" "sy_paths s ?i = Some (tm_address (mb_manager mb))"
    using ok inv by (auto simp: member_ok_def system_inv_def paths_ok_def)
  have c: "c \<in> fst ` set (ts_clients ?h)" using map_of_SomeD [OF cl] by force
  obtain h1 where h': "h' = synced (ts_history ?h) [?m] h1" and h1: "ts_wire h1 = ts_wire ?h"
      "fst ` set (ts_clients h1) = fst ` set (ts_clients ?h)"
      "map_of (ts_clients h1) = (map_of (ts_clients ?h))(c \<mapsto>
        cl\<lparr>cl_nodeId := message_node_id (parse bs), cl_history := cl_history cl @ [?m]\<rparr>)"
    by (rule OnData_fresh [where parse = parse and bs = bs and rng = rng, OF hub(1) cl bs fresh(2) _ fresh(1)])
      (use i key run in auto)
  have seen: "heard h' c = heard ?h c @ [?m]" "believed h' c = Some ?i"
    "d \<noteq> c \<Longrightarrow> heard h' d = heard ?h d" "d \<noteq> c \<Longrightarrow> believed h' d = believed ?h d" for d
    by (simp_all add: h') (simp_all add: heard_def believed_def h1(3) cl key)
  have zero: "has_topic_change (parse bs) \<longrightarrow> tc_node_id (topic_change (parse bs)) \<noteq> 0"
    using message_node_id_topic [of "parse bs"] key i by simp
  have kept: "kept (ts_history ?h) [?m] = [?m]"
    by (rule kept_live) (use hub(5) stays key i zero in \<open>auto simp: leaves_def\<close>)
  have stays': "\<not> leaves ?m" using stays by (simp add: leaves_def)
  have hist: "ts_history h' = prune (ts_history ?h @ [?m])" by (simp add: h')
  have topo: "topology (ts_history h') = topology_step (parse bs) (topology (ts_history ?h))"
    unfolding hist using topology_prune [OF hub(3), of "[?m]"] hub(4,5) stays' zero
    by (simp add: kept) (simp add: no_zero_topic_def)
  have other: "topology (ts_history h') j = topology (ts_history ?h) j" if "j \<noteq> ?i" for j
    unfolding topo using that key message_node_id_key [of "parse bs"] i by (intro topology_other_key) simp
  have left: "left_ids (ts_history h') = left_ids (ts_history ?h)" unfolding hist by (simp add: stays')
  have last: "last_seq (ts_history h') = ts_nextSeq ?h" unfolding hist using last_seq_prune [OF hub(3), of "[?m]"] by (simp add: kept)
  have less: "last_seq (ts_history ?h) < ts_nextSeq ?h" using hub(1) by (auto simp: hub_inv_def intro: last_seq_less_next)
  have all: "all_messages h' \<subseteq> all_messages ?h \<union> set [?m]"
    using synced_messages [of ?h "[?m]" h1] unfolding h' h1(1) by (auto simp: all_messages_def)
  obtain w where wire: "ts_wire h' = ts_wire ?h @ w" using synced_wire [of "ts_history ?h" "[?m]" h1] h1(1) by (auto simp: h')
  have dom: "fst ` set (ts_clients h') = fst ` set (ts_clients ?h)" by (simp add: h' h1(2))
  have M: "dom ?M = dom (sy_members s)" using mb by auto
  have "novel parse bs" using fresh(2) by (simp add: novel_def)
  from OnData_novel_outcome [OF hub(1) c hub(2) this, of rng] run
  have hub': "hub_inv True k (fst ` set (ts_clients h')) (taken (hub_moves h' (s\<lparr>sy_members := ?M\<rparr>))) h'"
    unfolding taken_hub_moves M dom by (simp add: taken_def)
  show ?thesis unfolding set_member_def
  proof (rule hub_moves_inv [OF inv wire _ _ hub', where c = c])
    show "fst ` set (ts_clients h') \<subseteq> dom ?M" unfolding dom M by (rule members_dom(3) [OF hub(8)])
    have fits: "address_fits ?m" using address(2) by (simp add: address_fits_def)
    show "log_ok (sy_paths s) h'"
      by (rule log_moves [OF hub(7) all])
        (use last less i address key fits u64_less_pos [OF less] in \<open>auto simp: entry_ok_def\<close>)
    show "member_ok (sy_paths s) h' d (mb'\<lparr>mb_down := mb_down mb' @ stream d w\<rparr>)" if d: "?M d = Some mb'" for d mb'
    proof (cases "d = c")
      case False
      then have old: "sy_members s d = Some mb'" using d by simp
      have "tm_nodeId (mb_manager mb') \<noteq> ?i" using members_okD(1) [OF hub(8) old mb] False by blast
      moreover have "member_ok (sy_paths s) ?h d mb'" by (rule member_okD [OF inv old])
      ultimately show ?thesis
        by (intro member_moves [where h = ?h, OF _ wire])
          (use all False key in \<open>auto simp: seen other left member_ok_def\<close>)
    next
      case True
      then have mb': "mb' = ?mb" using d by simp
      let ?new = "?mb\<lparr>mb_down := mb_down mb @ stream c w\<rparr>"
      have asks: "asks ?i (?m # xs) = asks ?i [parse bs] \<union> asks ?i xs" for xs by simp
      have up: "asks ?i (mb_up mb) = asks ?i [parse bs] \<union> asks ?i rest"
        using rest(3) asks_simps(3) [of ?i "[parse bs]" rest] by simp
      have asks_snoc: "asks ?i (heard ?h c @ [?m]) = asks ?i (heard ?h c @ [parse bs])" by simp
      have "outbox_ok h' c ?new"
        using node rest(1,2) asks_snoc by (simp add: outbox_ok_def Let_def seen topo del: asks_simps)
      moreover have "inbox_ok h' c ?new"
        using ok by (simp add: member_ok_def inbox_ok_def wire)
      moreover have "subscriptions_ok h' c ?new"
      proof -
        have "dom (in_subscriptions (mb_node mb)) = asks ?i (heard ?h c) \<union> asks ?i (mb_up mb) \<union>
            asks ?i (tm_backlog (mb_manager mb)) \<union> asks ?i (pending (mb_pc mb))"
          using ok by (simp add: member_ok_def subscriptions_ok_def Un_assoc)
        then show ?thesis
          by (simp add: subscriptions_ok_def seen asks up Un_assoc del: asks_simps(2))
      qed
      moreover have "requests_ok ?new" using ok by (simp add: member_ok_def requests_ok_def)
      ultimately show ?thesis using i left by (simp add: mb' True member_ok_def)
    qed
    show "\<exists>d mb'. ?M d = Some mb' \<and> heard h' d \<noteq> [] \<and> tm_nodeId (mb_manager mb') = j"
      if j: "j \<in> dom (topology (ts_history h'))" for j
    proof (cases "j = ?i")
      case True
      then show ?thesis by (intro exI [of _ c] exI [of _ ?mb]) (simp add: seen)
    next
      case False
      then have "j \<in> dom (topology (ts_history ?h))" using j other by auto
      from system_node [OF inv this] obtain d y where d: "sy_members s d = Some y" "heard ?h d \<noteq> []"
        "tm_nodeId (mb_manager y) = j" by blast
      then have "d \<noteq> c" using mb False by auto
      with d show ?thesis by (intro exI [of _ d] exI [of _ y]) (simp add: seen)
    qed
  qed (use mb in auto)
qed

lemma introduce_node_simps [simp]:
  "seq (introduce_node m) = 0" "has_node_change (introduce_node m)" "\<not> has_topic_change (introduce_node m)"
  "node_change (introduce_node m) = \<lparr>nc_id = tm_nodeId m, nc_op = JOIN, nc_name = tm_name m, nc_address = tm_address m\<rparr>"
  "message_node_id (introduce_node m) = tm_nodeId m"
  by (simp_all add: introduce_node_def mutable_node_change_def default_TopologyMessage_def default_NodeChange_def
      message_node_id_def oneof_defs)

lemma topic_cell_subs:
  "nv_subs (topic_cell c v) = (if tc_op c = SUBSCRIBE then insert (tc_name c) (nv_subs v)
     else if tc_op c = UNSUBSCRIBE then nv_subs v - {tc_name c} else nv_subs v)"
  by (cases "tc_op c") simp_all

lemma data_inv:
  assumes inv: "system_inv (Suc k) s" and mb: "sy_members s c = Some mb" and c: "c \<in> fst ` set (ts_clients (sy_hub s))"
    and up: "mb_up mb = parse bs # rest" "bs \<noteq> []"
    and run: "OnData parse rng c bs (sy_hub s) = Inr h'"
  shows "system_inv k (hub_moves h' (set_member c (mb\<lparr>mb_up := rest\<rparr>) s))"
proof -
  let ?h = "sy_hub s" and ?m = "mb_manager mb" and ?i = "tm_nodeId (mb_manager mb)"
  have ok: "member_ok (sy_paths s) ?h c mb" by (rule member_okD [OF inv mb])
  then have out: "outbox_ok ?h c mb" and address: "sy_paths s ?i = Some (tm_address ?m)" by (auto simp: member_ok_def)
  obtain cl where cl: "map_of (ts_clients ?h) c = Some cl" "heard ?h c = cl_history cl" using client_of [OF c] by blast
  have size: "length (tm_address ?m) \<le> sun_path_size"
    using address inv by (auto simp: system_inv_def paths_ok_def ran_def)
  from out up(1) show ?thesis
  proof (cases rule: outbox_head)
    case echo
    then show ?thesis by (rule echo_inv [where parse = parse and bs = bs, OF inv mb c up run])
  next
    case hello
    then have none: "\<forall>x\<in>all_messages ?h. message_node_id x \<noteq> ?i" using out by (simp add: outbox_ok_def Let_def)
    then have "topology (ts_history ?h) ?i = None"
      by (intro topology_unjoined)
        (auto simp: joins_def msg_key_def message_node_id_def all_messages_def oneof_defs split: oneof_op.splits)
    then have "topology_step (parse bs) (topology (ts_history ?h)) ?i =
        Some \<lparr>nv_name = tm_name ?m, nv_address = tm_address ?m, nv_pubs = Map.empty, nv_subs = {}\<rparr>"
      by (simp add: hello(3) topology_step_node)
    with hello show ?thesis
      by (intro fresh_inv [where parse = parse and bs = bs, OF inv mb cl(1) up(2) run])
        (use size up(1) cl(2) in \<open>auto simp: IsRedundant_def leaves_def address_fits_def\<close>)
  next
    case request
    show ?thesis
    proof (cases "IsRedundant (parse bs) cl")
      case True
      then show ?thesis
        by (rule redundant_inv [where parse = parse and bs = bs, OF inv mb c up run request(1-3) cl(1)])
    next
      case False
      let ?t = "topic_change (parse bs)"
      have t: "has_topic_change (parse bs)" "\<not> has_node_change (parse bs)" "tc_node_id ?t = ?i" "tc_op ?t \<noteq> UNSUBSCRIBE"
        "seq (parse bs) = 0"
        using request(3) by (cases rule: oneof_exhaust [of "parse bs"]; simp add: own_def)+
      obtain v where v: "topology (ts_history ?h) ?i = Some v" "nv_address v = tm_address ?m"
        "nv_subs v = asks ?i (heard ?h c)"
        using out request(1) by (auto simp: outbox_ok_def Let_def)
      have "topology_step (parse bs) (topology (ts_history ?h)) ?i = Some (topic_cell ?t v)"
        using t v(1) by (simp add: topology_step_topic)
      moreover have "nv_subs (topic_cell ?t v) = asks ?i (heard ?h c @ [parse bs])"
        using t v(3) by (auto simp: topic_cell_subs simp del: topic_cell.simps)
      moreover have "node_change (parse bs) = default_NodeChange"
        using t(2) by (auto simp: oneof_defs split: oneof_op.splits)
      ultimately show ?thesis
        by (intro fresh_inv [where parse = parse and bs = bs, OF inv mb cl(1) up(2) run False t(5)])
          (use t v(2) request up(1) in \<open>auto simp: leaves_def joins_def address_fits_def default_NodeChange_def
            message_node_id_def simp del: topic_cell.simps\<close>)
    qed
  qed
qed

text \<open>No message a member sends makes the hub fail.\<close>

lemma data_total:
  assumes inv: "system_inv (Suc k) s" and mb: "sy_members s c = Some mb" and c: "c \<in> fst ` set (ts_clients (sy_hub s))"
    and up: "mb_up mb = parse bs # rest" "bs \<noteq> []"
  shows "\<exists>h'. OnData parse rng c bs (sy_hub s) = Inr h'"
proof -
  note hub = system_hub [OF inv]
  obtain cl where cl: "map_of (ts_clients (sy_hub s)) c = Some cl" using client_of [OF c] by blast
  have out: "outbox_ok (sy_hub s) c mb" using member_okD [OF inv mb] by (simp add: member_ok_def)
  have new: "\<exists>h'. OnData parse rng c bs (sy_hub s) = Inr h'" if "seq (parse bs) = 0"
    using OnData_novel_outcome [OF hub(1) c hub(2), of parse bs rng] that by (auto simp: novel_def outcome_total)
  from out up(1) show ?thesis
  proof (cases rule: outbox_head)
    case echo
    with echo_run [where parse = parse and bs = bs, OF inv cl up(2), of rng] show ?thesis by blast
  qed (use new in \<open>auto simp: own_def\<close>)
qed

section \<open>A connection is lost\<close>

lemma hang_up_inv:
  assumes inv: "system_inv (Suc k) s" and mb: "sy_members s c = Some mb"
    and cl: "map_of (ts_clients (sy_hub s)) c = Some cl" "cl_nodeId cl = tm_nodeId (mb_manager mb)"
    and run: "OnDisconnect c (sy_hub s) = Inr h'"
  shows "system_inv k (hub_moves h' (s\<lparr>sy_members := (sy_members s)(c := None)\<rparr>))"
proof -
  let ?h = "sy_hub s" and ?i = "tm_nodeId (mb_manager mb)" and ?M = "(sy_members s)(c := None)"
  let ?m = "leave_message (ts_nextSeq ?h) ?i"
  note hub = system_hub [OF inv]
  have ok: "member_ok (sy_paths s) ?h c mb" by (rule member_okD [OF inv mb])
  have i: "?i \<noteq> 1" "sy_paths s ?i = Some (tm_address (mb_manager mb))"
    using ok inv by (auto simp: member_ok_def system_inv_def paths_ok_def)
  have c: "c \<in> fst ` set (ts_clients ?h)" using cl(1) by (metis map_of_eq_None_iff option.distinct(1))
  define h1 where "h1 = mint_leave ?i ?h\<lparr>ts_clients := AList.delete c (ts_clients ?h)\<rparr>"
  have h': "h' = synced (ts_history ?h) [?m] h1"
    using OnDisconnect_eq [OF hub(1) cl(1)] run cl(2) by (simp add: h1_def)
  have h1: "ts_wire h1 = ts_wire ?h" "ts_clients h1 = AList.delete c (ts_clients ?h)" by (simp_all add: h1_def mint_leave_def)
  have m: "leaves ?m" "message_node_id ?m = ?i" "msg_key ?m = Some ?i" by (simp_all add: message_node_id_def)
  have seen: "heard h' d = heard ?h d" "believed h' d = believed ?h d" if "d \<noteq> c" for d
    using that by (simp_all add: h') (simp_all add: heard_def believed_def h1 delete_conv)
  have kept: "kept (ts_history ?h) [?m] = [?m]" by (rule leaves_kept) simp
  have hist: "ts_history h' = prune (ts_history ?h @ [?m])" by (simp add: h')
  have topo: "topology (ts_history h') = (topology (ts_history ?h))(?i := None)"
    unfolding hist using topology_prune [OF hub(3), of "[?m]"] hub(4,5) i(1)
    by (simp add: kept topology_step_leave) (simp add: no_zero_topic_def)
  have left: "left_ids (ts_history h') = insert ?i (left_ids (ts_history ?h))" unfolding hist by simp
  have last: "last_seq (ts_history h') = ts_nextSeq ?h" unfolding hist using last_seq_prune [OF hub(3), of "[?m]"] by (simp add: kept)
  have less: "last_seq (ts_history ?h) < ts_nextSeq ?h" using hub(1) by (auto simp: hub_inv_def intro: last_seq_less_next)
  have all: "all_messages h' \<subseteq> all_messages ?h \<union> set [?m]"
    using synced_messages [of ?h "[?m]" h1] unfolding h' h1(1) by (auto simp: all_messages_def)
  obtain w where wire: "ts_wire h' = ts_wire ?h @ w"
    using synced_wire [of "ts_history ?h" "[?m]" h1] h1(1) by (auto simp: h')
  have dom: "fst ` set (ts_clients h') = fst ` set (ts_clients ?h) - {c}" by (auto simp: h' h1(2) AList.delete_eq)
  have "hub_inv True k (fst ` set (ts_clients ?h) - {c}) (taken s) h'"
    using OnDisconnect_outcome [OF hub(1) c hub(2)] run by simp
  then have hub': "hub_inv True k (fst ` set (ts_clients h')) (taken (hub_moves h' (s\<lparr>sy_members := ?M\<rparr>))) h'"
    unfolding taken_hub_moves dom by (rule hub_inv_used) (auto simp: taken_def)
  show ?thesis
  proof (rule hub_moves_inv [OF inv wire _ _ hub', where c = c])
    show "fst ` set (ts_clients h') \<subseteq> dom ?M" unfolding dom using members_dom(3) [OF hub(8)] by auto
    show "log_ok (sy_paths s) h'"
      by (rule log_moves [OF hub(7) all])
        (use last less i u64_less_pos [OF less] m in \<open>auto simp: entry_ok_def address_fits_def joins_def\<close>)
    show "member_ok (sy_paths s) h' d (mb'\<lparr>mb_down := mb_down mb' @ stream d w\<rparr>)" if d: "?M d = Some mb'" for d mb'
    proof -
      have old: "d \<noteq> c" "sy_members s d = Some mb'" using d by (auto split: if_splits)
      moreover from this have "tm_nodeId (mb_manager mb') \<noteq> ?i" using members_okD(1) [OF hub(8) old(2) mb] by blast
      moreover have "member_ok (sy_paths s) ?h d mb'" by (rule member_okD [OF inv old(2)])
      ultimately show ?thesis
        by (intro member_moves [where h = ?h, OF _ wire]) (use all m in \<open>auto simp: seen topo left member_ok_def\<close>)
    qed
    show "\<exists>d mb'. ?M d = Some mb' \<and> heard h' d \<noteq> [] \<and> tm_nodeId (mb_manager mb') = j"
      if j: "j \<in> dom (topology (ts_history h'))" for j
    proof -
      have "j \<noteq> ?i" "j \<in> dom (topology (ts_history ?h))" using j by (auto simp: topo split: if_splits)
      from system_node [OF inv this(2)] this(1) obtain d y where d: "sy_members s d = Some y" "heard ?h d \<noteq> []"
        "tm_nodeId (mb_manager y) = j" "j \<noteq> ?i" by blast
      then have "d \<noteq> c" using mb by auto
      with d show ?thesis by (intro exI [of _ d] exI [of _ y]) (simp add: seen)
    qed
  qed auto
qed

text \<open>A member the hub has never heard of.\<close>

lemma quit_inv:
  assumes inv: "system_inv k s" and c: "map_of (ts_clients (sy_hub s)) c = None"
  shows "system_inv k (s\<lparr>sy_members := (sy_members s)(c := None)\<rparr>)"
proof -
  let ?M = "(sy_members s)(c := None)" and ?h = "sy_hub s"
  let ?s = "s\<lparr>sy_members := ?M\<rparr>"
  note hub = system_hub [OF inv]
  have c': "c \<notin> fst ` set (ts_clients ?h)" "heard ?h c = []"
    using c by (simp add: map_of_eq_None_iff) (simp add: heard_def c)
  have old: "sy_members s d = Some mb \<and> d \<noteq> c" if "?M d = Some mb" for d mb using that by (simp split: if_splits)
  have proj: "sy_members ?s = ?M" "sy_hub ?s = ?h" "sy_used ?s = sy_used s" "sy_paths ?s = sy_paths s" by simp_all
  have "members_ok ?s"
    unfolding members_ok_def proj
  proof (intro conjI allI impI ballI)
    show "finite (dom ?M)" "dom ?M \<subseteq> sy_used s" "fst ` set (ts_clients ?h) \<subseteq> dom ?M"
      using members_dom [OF hub(8)] c'(1) by auto
    show "member_ok (sy_paths s) ?h d mb" if "?M d = Some mb" for d mb
      using member_okD [OF inv] old [OF that] by blast
    show "d = e" if "?M d = Some x" "?M e = Some y" "tm_nodeId (mb_manager x) = tm_nodeId (mb_manager y)" for d e x y
      using members_okD(1) [OF hub(8) _ _ that(3)] old [OF that(1)] old [OF that(2)] by blast
    show "\<exists>d mb. ?M d = Some mb \<and> heard ?h d \<noteq> [] \<and> tm_nodeId (mb_manager mb) = i"
      if i: "i \<in> dom (topology (ts_history ?h))" for i
    proof -
      from system_node [OF inv i] obtain d mb where "sy_members s d = Some mb" "heard ?h d \<noteq> []" "tm_nodeId (mb_manager mb) = i"
        by blast
      moreover from this(2) c'(2) have "d \<noteq> c" by auto
      ultimately show ?thesis by (intro exI [of _ d] exI [of _ mb]) simp
    qed
  qed
  moreover have "taken s \<subseteq> taken ?s" by (auto simp: taken_def)
  with hub(1) have "hub_inv True k (fst ` set (ts_clients ?h)) (taken ?s) ?h" by (rule hub_inv_used)
  ultimately show ?thesis using inv unfolding system_inv_def proj by blast
qed

section \<open>The purge\<close>

text \<open>Every node the hub knows is connected, so the purge finds nothing to do.\<close>

lemma purge_inv:
  assumes inv: "system_inv (k + Suc (active_count (sy_hub s))) s"
    and order: "mset (order (historicallyActive (ts_history (sy_hub s)) [])) = mset (historicallyActive (ts_history (sy_hub s)) [])"
    and run: "PurgeDisconnected order (sy_hub s) = Inr h'"
  shows "system_inv k (hub_moves h' s)" "h' = synced (ts_history (sy_hub s)) [] (sy_hub s)"
proof -
  let ?h = "sy_hub s"
  note hub = system_hub [OF inv]
  have "i \<in> connected_ids ?h" if "i \<in> dom (topology (ts_history ?h))" for i
  proof -
    from system_node [OF inv that] obtain d y where d: "sy_members s d = Some y" "heard ?h d \<noteq> []"
      "tm_nodeId (mb_manager y) = i" by blast
    then have "believed ?h d = Some i"
      using member_okD [OF inv d(1)] by (auto simp: member_ok_def outbox_ok_def Let_def)
    then obtain cl where "map_of (ts_clients ?h) d = Some cl" "cl_nodeId cl = i" by (auto simp: believed_def)
    from this(2) map_of_SomeD [OF this(1)] show ?thesis by (force simp: connected_ids_def)
  qed
  with PurgeDisconnected_none [where order = order, OF hub(1) order] run show h': "h' = synced (ts_history ?h) [] ?h" by auto
  have "length (order (historicallyActive (ts_history ?h) [])) = active_count ?h"
    using mset_eq_length [OF order] by (simp add: active_count_def)
  then have "hub_inv True k (fst ` set (ts_clients ?h)) (taken s) (synced (ts_history ?h) [] ?h)"
    using PurgeDisconnected_outcome [of True k order ?h] hub(1,2) run by (simp add: h')
  from quiet_inv [OF inv _ refl _ refl refl refl refl this] member_okD [OF inv]
  show "system_inv k (hub_moves h' s)" by (simp add: h')
qed

section \<open>Every reachable state\<close>

lemma internal_inv:
  assumes "internal parse rng dparse dser j s s'" "system_inv (k + j) s"
  shows "system_inv k s'"
  using assms(1)
proof cases
  case (node c mb mb')
  with assms(2) show ?thesis by (auto intro: node_step_inv)
next
  case (accepts c mb h)
  with assms(2) show ?thesis by (auto intro: accept_inv)
next
  case (hub_reads c mb msg rest bs h)
  with assms(2) show ?thesis by (auto intro: data_inv)
qed

lemma external_inv:
  assumes "external dparse dser j s s'" "system_inv (k + j) s"
  shows "system_inv k s'"
  using assms(1)
proof cases
  case (starts c i g nm x)
  with assms(2) show ?thesis by (auto intro: start_inv)
next
  case (calls c mb u n)
  with assms(2) show ?thesis by (auto intro: call_inv)
next
  case (hangs_up c mb cl h)
  with assms(2) show ?thesis by (auto intro: hang_up_inv)
next
  case (quits c mb)
  with assms(2) show ?thesis by (auto intro: quit_inv)
qed

lemma purging_inv: "purging j s s' \<Longrightarrow> system_inv (k + j) s \<Longrightarrow> system_inv k s'"
  by (erule purging.cases) (auto intro: purge_inv(1))

lemma system_reach_inv:
  "system_reach parse rng dparse dser n s \<Longrightarrow> n + k < 2 ^ 63 \<Longrightarrow> system_inv k s"
proof (induction arbitrary: k rule: system_reach.induct)
  case init
  then show ?case by (simp add: system_init_inv)
next
  case (inside n s j s')
  then show ?case by (intro internal_inv [OF inside.hyps(2)] inside.IH) simp
next
  case (outside n s j s')
  then show ?case by (intro external_inv [OF outside.hyps(2)] outside.IH) simp
next
  case (purged n s j s')
  then show ?case by (intro purging_inv [OF purged.hyps(2)] purged.IH) simp
qed

end
