(* ===== verification/SystemProperties.thy ===== *)
theory SystemProperties
  imports SystemHub HubProperties
begin

text \<open>
  What the group as a whole achieves: it comes to rest, and at rest every node publishes to exactly
  the nodes whose users have subscribed.
\<close>

section \<open>The group at rest\<close>

text \<open>At rest the table of every node is the topology of the hub, which is made up of the members.\<close>

lemma quiescent_heard:
  assumes inv: "system_inv k s" and rest: "quiescent s" and mb: "sy_members s c = Some mb"
  shows "heard (sy_hub s) c \<noteq> []"
proof -
  have "mb_pc mb = Waiting 0" "mb_up mb = []" using rest mb by (auto simp: quiescent_def)
  with member_okD [OF inv mb] show ?thesis by (auto simp: member_ok_def outbox_ok_def introducing_def Let_def)
qed

lemma quiescent_table:
  assumes inv: "system_inv k s" and rest: "quiescent s" and mb: "sy_members s c = Some mb"
  shows "abs_topology (mb_manager mb) = topology (ts_history (sy_hub s))"
proof -
  let ?h = "sy_hub s"
  note hub = system_hub [OF inv]
  have "map_of (ts_clients ?h) c \<noteq> None" using quiescent_heard [OF assms] by (auto simp: heard_def split: option.splits)
  then have "c \<in> fst ` set (ts_clients ?h)" by (simp add: map_of_eq_None_iff)
  then have "view_ok True ?h c" using hub(1) unfolding hub_inv_def by blast
  then have "topology (stream c (ts_wire ?h)) = topology (ts_history ?h)" using hub(5) by (simp add: view_ok_def)
  moreover have "mb_down mb = []" using rest mb by (auto simp: quiescent_def)
  ultimately show ?thesis using member_okD [OF inv mb] by (simp add: member_ok_def inbox_ok_def)
qed

lemma quiescent_node:
  assumes inv: "system_inv k s" and rest: "quiescent s" and mb: "sy_members s c = Some mb"
  shows "\<exists>v. topology (ts_history (sy_hub s)) (tm_nodeId (mb_manager mb)) = Some v \<and>
    nv_address v = tm_address (mb_manager mb) \<and> nv_subs v = dom (in_subscriptions (mb_node mb))"
proof -
  have idle: "mb_pc mb = Waiting 0" "mb_up mb = []" using rest mb by (auto simp: quiescent_def)
  have ok: "member_ok (sy_paths s) (sy_hub s) c mb" by (rule member_okD [OF inv mb])
  then have "tm_backlog (mb_manager mb) = []" using idle by (simp add: member_ok_def requests_ok_def Let_def)
  then have "dom (in_subscriptions (mb_node mb)) = asks (tm_nodeId (mb_manager mb)) (heard (sy_hub s) c)"
    using ok idle by (simp add: member_ok_def subscriptions_ok_def)
  with ok quiescent_heard [OF assms] show ?thesis by (auto simp: member_ok_def outbox_ok_def Let_def)
qed

text \<open>The members whose users have subscribed to a topic.\<close>

definition subscribed :: "string \<Rightarrow> system \<Rightarrow> member set" where
  "subscribed topic s = {mb \<in> ran (sy_members s). topic \<in> dom (in_subscriptions (mb_node mb))}"

text \<open>A node delivers to its subscribers once its table has every member, as it is, and nobody else.\<close>

definition node_id :: "member \<Rightarrow> u64" where
  "node_id mb = tm_nodeId (mb_manager mb)"

definition delivers :: "(MetadataMessage \<Rightarrow> bytes) \<Rightarrow> string \<Rightarrow> bytes \<Rightarrow> member \<Rightarrow> system \<Rightarrow> bool" where
  "delivers dser topic data mb s \<longleftrightarrow>
     (\<exists>out. in_out (Publish dser topic data (mb_node mb)) = in_out (mb_node mb) @ out \<and>
       length out = card (subscribed topic s) \<and>
       set out = {(path_address (tm_address (mb_manager mb')), dser \<lparr>mm_topic = topic, mm_inlined = data\<rparr>) |mb'.
         mb' \<in> subscribed topic s})"

lemma table_delivers:
  assumes wf: "node_wf (mb_node mb)" "nbr_path (mb_node mb) = mgr_path (mb_manager mb)"
    and inj: "inj_on node_id (ran (sy_members s))"
    and node: "\<And>mb'. mb' \<in> ran (sy_members s) \<Longrightarrow> \<exists>v. abs_topology (mb_manager mb) (node_id mb') = Some v \<and>
      nv_address v = tm_address (mb_manager mb') \<and> nv_address v \<noteq> [] \<and> nv_subs v = dom (in_subscriptions (mb_node mb'))"
    and only: "dom (abs_topology (mb_manager mb)) \<subseteq> node_id ` ran (sy_members s)"
  shows "delivers dser topic data mb s"
proof -
  let ?m = "mb_manager mb" and ?blob = "dser \<lparr>mm_topic = topic, mm_inlined = data\<rparr>"
  have subs: "nbr_subs (mb_node mb) i = map_option nv_subs (abs_topology ?m i)" for i
    using wf(1) mgr_observations(1) [of ?m i] by (simp add: node_wf_def node_sys_def neighbours.mirrors_def)
  have path: "nbr_path (mb_node mb) i = map_option nv_address (abs_topology ?m i)" for i
    using wf(2) mgr_observations(2) [of ?m i] by simp
  have sub: "subscribed topic s \<subseteq> ran (sy_members s)" by (auto simp: subscribed_def)
  have who: "recipients topic (mb_node mb) = node_id ` subscribed topic s"
  proof (intro set_eqI iffI)
    fix i assume "i \<in> recipients topic (mb_node mb)"
    then obtain v where v: "abs_topology ?m i = Some v" "topic \<in> nv_subs v" by (auto simp: recipients_def subs)
    then obtain mb' where d: "mb' \<in> ran (sy_members s)" "node_id mb' = i" using only by blast
    with node [OF d(1)] v have "mb' \<in> subscribed topic s" by (auto simp: subscribed_def)
    with d(2) show "i \<in> node_id ` subscribed topic s" by blast
  next
    fix i assume "i \<in> node_id ` subscribed topic s"
    then obtain mb' where mb': "i = node_id mb'" "mb' \<in> ran (sy_members s)" "topic \<in> dom (in_subscriptions (mb_node mb'))"
      by (auto simp: subscribed_def)
    from node [OF mb'(2)] mb'(1,3) show "i \<in> recipients topic (mb_node mb)" by (auto simp: recipients_def subs path)
  qed
  have where_to: "nbr_path (mb_node mb) (node_id mb') = Some (tm_address (mb_manager mb'))" if "mb' \<in> subscribed topic s" for mb'
    using node [of mb'] that sub by (auto simp: path)
  have "card (recipients topic (mb_node mb)) = card (subscribed topic s)"
    unfolding who by (rule card_image [OF inj_on_subset [OF inj sub]])
  moreover have "{(path_address p, ?blob) |i p. i \<in> recipients topic (mb_node mb) \<and> nbr_path (mb_node mb) i = Some p} =
      {(path_address (tm_address (mb_manager mb')), ?blob) |mb'. mb' \<in> subscribed topic s}"
    using where_to unfolding who by fastforce
  moreover have "node_inv (mb_node mb)" using wf(1) by (simp add: node_wf_def node_sys_def neighbours.mirrors_def)
  note publish_once [OF this, of topic ?blob]
  ultimately show ?thesis
    unfolding delivers_def
    by (intro exI [of _ "publish_to topic ?blob (in_nodes (mb_node mb))"]) (simp add: Publish_def)
qed

text \<open>
  C1: The library does what it is for. Take any group of nodes and their hub, started, connecting,
  introducing themselves, subscribing, announcing, publishing and going away, with every handler call
  and every message in flight interleaved in any way. Whenever the group is at rest, what any node
  publishes goes, as one datagram each, to exactly the nodes whose users have called \<open>Subscribe\<close> for the
  topic, at the addresses they were created with, itself included. That holds for subscriptions made
  before a node was connected and for nodes that joined long after others left. It is under three
  conditions of the model: there is room in the hub's counter; no system call fails; and a node goes away
  either before it connects, or at a moment at which the last message the hub has read from its
  connection was about the node itself (\<open>interrupted_introduction_impersonates\<close> is what happens at
  other moments). \<open>Unsubscribe\<close>, which never returns, is not among the calls.
\<close>

theorem system_delivers:
  assumes reach: "system_reach parse rng dparse dser n s" and room: "n < 2 ^ 63" and rest: "quiescent s"
    and mb: "sy_members s c = Some mb"
  shows "\<exists>out. in_out (Publish dser topic data (mb_node mb)) = in_out (mb_node mb) @ out \<and>
    length out = card (subscribed topic s) \<and>
    set out = {(path_address (tm_address (mb_manager mb')), dser \<lparr>mm_topic = topic, mm_inlined = data\<rparr>) |mb'.
      mb' \<in> subscribed topic s}"
proof -
  let ?V = "topology (ts_history (sy_hub s))"
  have inv: "system_inv 0 s" using system_reach_inv [OF reach, of 0] room by simp
  note mem = system_hub(8) [OF inv]
  have inb: "inbox_ok (sy_hub s) c mb" using member_okD [OF inv mb] by (simp add: member_ok_def)
  have abs: "abs_topology (mb_manager mb) = ?V" by (rule quiescent_table [OF inv rest mb])
  have "delivers dser topic data mb s"
  proof (rule table_delivers, unfold abs)
    show "node_wf (mb_node mb)" "nbr_path (mb_node mb) = mgr_path (mb_manager mb)" using inb by (auto simp: inbox_ok_def)
    show "inj_on node_id (ran (sy_members s))"
    proof (rule inj_onI)
      fix x y assume "x \<in> ran (sy_members s)" "y \<in> ran (sy_members s)" and same: "node_id x = node_id y"
      then obtain a b where ab: "sy_members s a = Some x" "sy_members s b = Some y" by (auto simp: ran_def)
      from members_okD(1) [OF mem ab same [unfolded node_id_def]] ab show "x = y" by simp
    qed
    show "\<exists>v. ?V (node_id mb') = Some v \<and> nv_address v = tm_address (mb_manager mb') \<and>
        nv_address v \<noteq> [] \<and> nv_subs v = dom (in_subscriptions (mb_node mb'))" if mem: "mb' \<in> ran (sy_members s)" for mb'
    proof -
      obtain d where d: "sy_members s d = Some mb'" using mem by (auto simp: ran_def)
      have "tm_address (mb_manager mb') \<noteq> []"
        using member_okD [OF inv d] inv by (auto simp: member_ok_def system_inv_def paths_ok_def ran_def)
      with quiescent_node [OF inv rest d] show ?thesis by (auto simp: node_id_def)
    qed
    show "dom ?V \<subseteq> node_id ` ran (sy_members s)"
      using system_node [OF inv] by (fastforce simp: node_id_def ran_def)
  qed
  then show ?thesis by (simp add: delivers_def)
qed

text \<open>
  C5: No node is ever told anything false. In every state the group can reach (under the conditions of
  \<open>system_delivers\<close>), not only at rest, the
  table of a node and its neighbours are the topology of the messages it has read, which are the
  first part of what the hub has written to it; what is under way completes them to the topology of
  the hub; and whatever the hub has is true of a member: its node, its address, and
  only topics its user has subscribed to.
\<close>

theorem system_consistent:
  assumes reach: "system_reach parse rng dparse dser n s" and room: "n < 2 ^ 63" and mb: "sy_members s c = Some mb"
  shows "stream c (ts_wire (sy_hub s)) = tm_history (mb_manager mb) @ mb_down mb \<and>
    abs_topology (mb_manager mb) = topology (tm_history (mb_manager mb)) \<and>
    nbr_subs (mb_node mb) = mgr_subs (mb_manager mb) \<and> nbr_path (mb_node mb) = mgr_path (mb_manager mb) \<and>
    (c \<in> fst ` set (ts_clients (sy_hub s)) \<longrightarrow>
      fold topology_step (mb_down mb) (abs_topology (mb_manager mb)) = topology (ts_history (sy_hub s))) \<and>
    (\<forall>i v. topology (ts_history (sy_hub s)) i = Some v \<longrightarrow> (\<exists>mb'\<in>ran (sy_members s).
      tm_nodeId (mb_manager mb') = i \<and> nv_address v = tm_address (mb_manager mb') \<and>
      nv_subs v \<subseteq> dom (in_subscriptions (mb_node mb'))))"
proof -
  let ?h = "sy_hub s"
  have inv: "system_inv 0 s" using system_reach_inv [OF reach, of 0] room by simp
  note hub = system_hub [OF inv]
  have inb: "inbox_ok ?h c mb" using member_okD [OF inv mb] by (simp add: member_ok_def)
  then have st: "stream c (ts_wire ?h) = tm_history (mb_manager mb) @ mb_down mb"
    and abs: "abs_topology (mb_manager mb) = topology (tm_history (mb_manager mb))" by (auto simp: inbox_ok_def)
  have "nbr_subs (mb_node mb) = mgr_subs (mb_manager mb)" "nbr_path (mb_node mb) = mgr_path (mb_manager mb)"
    using inb by (auto simp: inbox_ok_def node_wf_def node_sys_def neighbours.mirrors_def)
  moreover have "fold topology_step (mb_down mb) (abs_topology (mb_manager mb)) = topology (ts_history ?h)"
    if "c \<in> fst ` set (ts_clients ?h)"
  proof -
    have "view_ok True ?h c" using hub(1) that unfolding hub_inv_def by blast
    then have "topology (stream c (ts_wire ?h)) = topology (ts_history ?h)" using hub(5) by (simp add: view_ok_def)
    then show ?thesis by (simp add: st abs topology_append)
  qed
  moreover have "\<exists>mb'\<in>ran (sy_members s). tm_nodeId (mb_manager mb') = i \<and> nv_address v = tm_address (mb_manager mb') \<and>
      nv_subs v \<subseteq> dom (in_subscriptions (mb_node mb'))" if v: "topology (ts_history ?h) i = Some v" for i v
  proof -
    have "i \<in> dom (topology (ts_history ?h))" using v by auto
    from system_node [OF inv this] obtain d mb' where d: "sy_members s d = Some mb'" "heard ?h d \<noteq> []"
      "tm_nodeId (mb_manager mb') = i" by blast
    from member_okD [OF inv d(1)] have "outbox_ok ?h d mb'" "subscriptions_ok ?h d mb'" by (auto simp: member_ok_def)
    then have "nv_address v = tm_address (mb_manager mb')" "nv_subs v \<subseteq> dom (in_subscriptions (mb_node mb'))"
      using d(2,3) v by (auto simp: outbox_ok_def subscriptions_ok_def Let_def)
    with d show ?thesis by (auto intro: ranI)
  qed
  ultimately show ?thesis using st abs by blast
qed

section \<open>The group comes to rest\<close>

text \<open>
  What is left to do: the work of the main threads, the connections to accept, and the records in
  the two kinds of queues, in this order.
\<close>

fun pc_rank :: "main_pc \<Rightarrow> nat" where
  "pc_rank At_top = 5"
| "pc_rank (Introduce c) = 4"
| "pc_rank (Adopt c) = 3"
| "pc_rank (Flush c ms) = 2 + length ms"
| "pc_rank (Calling_wait c) = 1"
| "pc_rank _ = 0"

definition member_rank :: "member \<Rightarrow> nat" where
  "member_rank mb = pc_rank (mb_pc mb) + (if adopted (mb_pc mb) then 0 else length (tm_backlog (mb_manager mb)))"

definition member_sum :: "(member \<Rightarrow> nat) \<Rightarrow> system \<Rightarrow> nat" where
  "member_sum f s = (\<Sum>c\<in>dom (sy_members s). f (the (sy_members s c)))"

definition unaccepted :: "system \<Rightarrow> nat" where
  "unaccepted s = card (dom (sy_members s) - fst ` set (ts_clients (sy_hub s)))"

definition left_to_do :: "(system \<Rightarrow> nat) list" where
  "left_to_do = [member_sum member_rank, unaccepted, member_sum (\<lambda>mb. length (mb_up mb)), member_sum (\<lambda>mb. length (mb_down mb))]"

lemma sum_set_member:
  assumes "finite (dom (sy_members s))" "sy_members s c = Some mb"
  shows "member_sum f (set_member c mb' s) + f mb = member_sum f s + f mb'"
proof -
  let ?M = "sy_members s" and ?M' = "(sy_members s)(c \<mapsto> mb')"
  have dom: "dom ?M' = dom ?M" and c: "c \<in> dom ?M" using assms(2) by auto
  have "(\<Sum>d\<in>dom ?M - {c}. f (the (?M' d))) = (\<Sum>d\<in>dom ?M - {c}. f (the (?M d)))" by (rule sum.cong) auto
  then have "(\<Sum>d\<in>dom ?M. f (the (?M' d))) = f mb' + (\<Sum>d\<in>dom ?M - {c}. f (the (?M d)))"
    using sum.remove [OF assms(1) c, of "\<lambda>d. f (the (?M' d))"] by simp
  moreover have "(\<Sum>d\<in>dom ?M. f (the (?M d))) = f mb + (\<Sum>d\<in>dom ?M - {c}. f (the (?M d)))"
    using sum.remove [OF assms(1) c, of "\<lambda>d. f (the (?M d))"] assms(2) by simp
  moreover have "member_sum f (set_member c mb' s) = (\<Sum>d\<in>dom ?M. f (the (?M' d)))"
    unfolding dom [symmetric] by (simp add: member_sum_def set_member_def)
  ultimately show ?thesis by (simp add: member_sum_def)
qed

lemma hub_moves_dom [simp]: "dom (sy_members (hub_moves h s)) = dom (sy_members s)"
  by (auto simp: hub_moves_def)

lemma hub_moves_hub [simp]: "sy_hub (hub_moves h s) = h"
  by (simp add: hub_moves_def)

lemma sum_hub_moves:
  assumes "\<And>mb x. f (mb\<lparr>mb_down := x\<rparr>) = f mb"
  shows "member_sum f (hub_moves h s) = member_sum f s"
proof -
  have "f (the (sy_members (hub_moves h s) d)) = f (the (sy_members s d))" if "d \<in> dom (sy_members s)" for d
    using that assms by (auto simp: hub_moves_def)
  then show ?thesis by (simp add: member_sum_def cong: sum.cong)
qed

lemma set_member_dom: "sy_members s c = Some mb \<Longrightarrow> dom (sy_members (set_member c mb' s)) = dom (sy_members s)"
  by (auto simp: set_member_def)

lemma node_step_rank:
  assumes "node_step dparse dser mb mb'"
  shows "member_rank mb' < member_rank mb \<or>
    member_rank mb' = member_rank mb \<and> mb_up mb' = mb_up mb \<and> length (mb_down mb') < length (mb_down mb)"
  using assms
proof cases
  case (introduces n)
  then show ?thesis
    by (auto simp: member_rank_def on_manager_def IntroduceOurselves_def with_lock_def bind_res_eq_Inr split: if_splits)
next
  case (adopts backlog m)
  then show ?thesis by (auto simp: member_rank_def adopt_client_def bind_res_eq_Inr)
next
  case (reads msg rest n)
  then have "tm_backlog (in_manager n) = tm_backlog (mb_manager mb)"
    by (auto simp: deliver_update_def bind_res_eq_Inr same_frame_def dest!: feed_notification_manager ApplyUpdate_frame)
  with reads show ?thesis by (simp add: member_rank_def)
qed (auto simp: member_rank_def)

text \<open>Which descriptors the hub knows changes with connections only.\<close>

lemma broadcast_clients_fst:
  "broadcast_clients next ms cs w = Inr (cs', w') \<Longrightarrow> map fst cs' = map fst cs"
  by (induction cs arbitrary: w cs' w') (auto simp: bind_res_eq_Inr)

lemma Broadcast_fst: "Broadcast h = Inr h' \<Longrightarrow> map fst (ts_clients h') = map fst (ts_clients h)"
  by (auto simp: Broadcast_def bind_res_eq_Inr dest: broadcast_clients_fst)

lemma OnData_fst:
  assumes "OnData parse rng c bs h = Inr h'" "c \<in> fst ` set (ts_clients h)"
  shows "fst ` set (ts_clients h') = fst ` set (ts_clients h)"
proof -
  have upd: "fst ` set (AList.update c x (ts_clients h)) = fst ` set (ts_clients h)" for x
    using assms(2) by (auto simp: dom_update)
  have same: "ts_clients h1 = ts_clients h" if "AddOldMessage m cl h = Inr (cl', h1)" for m cl cl' h1
    using that by (auto simp: AddOldMessage_def Let_def bind_res_eq_Inr assert_that_def split: if_splits)
  have novel: "ts_clients (snd (AddNovelMessage rng m cl h)) = ts_clients h" for m cl
    by (simp add: AddNovelMessage_def Let_def)
  have commit: "fst ` set (ts_clients h') = fst ` set (ts_clients h)"
    if "Broadcast (PruneRemoved (h1\<lparr>ts_clients := AList.update c x (ts_clients h1)\<rparr>)) = Inr h'"
      "ts_clients h1 = ts_clients h" for h1 x
  proof -
    have "map fst (ts_clients h') = map fst (AList.update c x (ts_clients h))"
      using Broadcast_fst [OF that(1)] that(2) by (simp add: PruneRemoved_def)
    then have "fst ` set (ts_clients h') = fst ` set (AList.update c x (ts_clients h))"
      by (metis list.set_map)
    then show ?thesis by (simp only: upd)
  qed
  show ?thesis
  proof (cases "length bs = 0 \<or> message_node_id (parse bs) = 0")
    case True
    with assms(1) have "h' = h" unfolding OnData_def Let_def by (cases "length bs = 0") simp_all
    then show ?thesis by simp
  next
    case False
    obtain cl where "map_of (ts_clients h) c = Some cl" using assms(2) client_of by blast
    with False assms(1) obtain cl' h1 where step: "(if seq (parse bs) = 0
        then Inr (AddNovelMessage rng (parse bs) (cl\<lparr>cl_nodeId := message_node_id (parse bs)\<rparr>) h)
        else AddOldMessage (parse bs) (cl\<lparr>cl_nodeId := message_node_id (parse bs)\<rparr>) h) = Inr (cl', h1)"
      and bc: "Broadcast (PruneRemoved (h1\<lparr>ts_clients := AList.update c cl' (ts_clients h1)\<rparr>)) = Inr h'"
      by (auto simp: OnData_def Let_def bind_res_eq_Inr)
    have "ts_clients h1 = ts_clients h"
      using step same novel [of "parse bs" "cl\<lparr>cl_nodeId := message_node_id (parse bs)\<rparr>"]
      by (cases "seq (parse bs) = 0") auto
    with bc show ?thesis by (rule commit)
  qed
qed

lemma OnConnect_fst:
  assumes "OnConnect c h = Inr h'"
  shows "fst ` set (ts_clients h') = insert c (fst ` set (ts_clients h))"
proof -
  obtain x where "ts_clients h' = AList.update c x (emplace c default_Client (ts_clients h))"
    using assms by (auto simp: OnConnect_def Let_def bind_res_eq_Inr)
  then show ?thesis
    by (simp add: dom_update emplace_def split: option.split)
qed

text \<open>Every step inside the group does some of the work and makes no more of what comes before.\<close>

lemma internal_decreases:
  assumes "internal parse rng dparse dser j s s'" and fin: "finite (dom (sy_members s))"
  shows "(s', s) \<in> measures left_to_do" "dom (sy_members s') = dom (sy_members s)"
proof -
  have "(s', s) \<in> measures left_to_do \<and> dom (sy_members s') = dom (sy_members s)"
    using assms(1)
  proof cases
    case (node c mb mb')
    have "unaccepted s' = unaccepted s" unfolding node unaccepted_def set_member_dom [OF node(3)] by (simp add: set_member_def)
    moreover note node_step_rank [OF node(4)]
      sum_set_member [OF fin node(3), of member_rank mb'] sum_set_member [OF fin node(3), of "\<lambda>mb. length (mb_up mb)" mb']
      sum_set_member [OF fin node(3), of "\<lambda>mb. length (mb_down mb)" mb']
    ultimately show ?thesis using set_member_dom [OF node(3)] unfolding node left_to_do_def by auto
  next
    case (accepts c mb h)
    have "dom (sy_members s) - fst ` set (ts_clients h) = (dom (sy_members s) - fst ` set (ts_clients (sy_hub s))) - {c}"
      using OnConnect_fst [OF accepts(6)] by auto
    moreover have "c \<in> dom (sy_members s) - fst ` set (ts_clients (sy_hub s))" using accepts by auto
    ultimately have "unaccepted s' < unaccepted s"
      unfolding accepts unaccepted_def hub_moves_dom hub_moves_hub by (simp only:) (rule card_Diff1_less, use fin in simp_all)
    moreover have "member_sum member_rank s' = member_sum member_rank s"
      unfolding accepts by (rule sum_hub_moves) (simp add: member_rank_def)
    ultimately show ?thesis by (simp add: left_to_do_def accepts)
  next
    case (hub_reads c mb msg rest bs h)
    let ?mb = "mb\<lparr>mb_up := rest\<rparr>"
    have same: "member_sum member_rank s' = member_sum member_rank s"
    proof -
      have "member_rank ?mb = member_rank mb" by (simp add: member_rank_def)
      then have "member_sum member_rank (set_member c ?mb s) = member_sum member_rank s"
        using sum_set_member [OF fin hub_reads(3), of member_rank ?mb] by simp
      moreover have "member_sum member_rank (hub_moves h (set_member c ?mb s)) = member_sum member_rank (set_member c ?mb s)"
        by (rule sum_hub_moves) (simp add: member_rank_def)
      ultimately show ?thesis by (simp add: hub_reads(2))
    qed
    have "unaccepted s' = unaccepted s"
      unfolding hub_reads unaccepted_def using OnData_fst [OF hub_reads(8,4)] set_member_dom [OF hub_reads(3), of ?mb]
      by (simp add: set_member_def)
    moreover have "member_sum (\<lambda>mb. length (mb_up mb)) s' < member_sum (\<lambda>mb. length (mb_up mb)) s"
      using sum_set_member [OF fin hub_reads(3), of "\<lambda>mb. length (mb_up mb)" ?mb] hub_reads(5) unfolding hub_reads(1,2)
      by (subst sum_hub_moves) simp_all
    ultimately show ?thesis using same set_member_dom [OF hub_reads(3), of ?mb] by (simp add: left_to_do_def hub_reads(2))
  qed
  then show "(s', s) \<in> measures left_to_do" "dom (sy_members s') = dom (sy_members s)" by blast+
qed

lemma internal_terminates:
  assumes "finite (dom (sy_members s))"
  shows "\<not> (\<exists>f. f 0 = s \<and> (\<forall>i. \<exists>j. internal parse rng dparse dser j (f i) (f (Suc i))))"
proof
  assume "\<exists>f. f 0 = s \<and> (\<forall>i. \<exists>j. internal parse rng dparse dser j (f i) (f (Suc i)))"
  then obtain f where f: "f 0 = s" "\<And>i. \<exists>j. internal parse rng dparse dser j (f i) (f (Suc i))" by blast
  have fin: "finite (dom (sy_members (f i)))" for i
  proof (induction i)
    case (Suc i)
    from f(2) obtain j where "internal parse rng dparse dser j (f i) (f (Suc i))" by blast
    from internal_decreases(2) [OF this Suc.IH] Suc.IH show ?case by simp
  qed (simp add: f(1) assms)
  have "(f (Suc i), f i) \<in> measures left_to_do" for i using f(2) [of i] internal_decreases(1) [OF _ fin] by blast
  then show False using wf_measures unfolding wf_iff_no_infinite_down_chain by blast
qed

text \<open>Where no process can move any more, the group is at rest: no call can fail, and nothing waits for nothing.\<close>

lemma stuck_quiescent:
  assumes waits: "\<And>c mb. sy_members s c = Some mb \<Longrightarrow> (\<And>mb'. \<not> node_step dparse dser mb mb') \<Longrightarrow>
      mb_pc mb = Waiting 0 \<and> mb_down mb = []"
    and sorted: "sorted (map seq (ts_history (sy_hub s)))"
    and data: "\<And>c mb bs rest. sy_members s c = Some mb \<Longrightarrow> c \<in> fst ` set (ts_clients (sy_hub s)) \<Longrightarrow>
      mb_up mb = parse bs # rest \<Longrightarrow> bs \<noteq> [] \<Longrightarrow> \<exists>h. OnData parse rng c bs (sy_hub s) = Inr h"
    and codec: "\<forall>c mb m. sy_members s c = Some mb \<longrightarrow> m \<in> set (mb_up mb) \<longrightarrow> (\<exists>bs. bs \<noteq> [] \<and> parse bs = m)"
    and stuck: "\<And>j s'. \<not> internal parse rng dparse dser j s s'"
  shows "quiescent s"
  unfolding quiescent_def
proof (intro allI impI)
  fix c mb assume mb: "sy_members s c = Some mb"
  have still: "\<not> node_step dparse dser mb mb'" for mb' using stuck internal.node [OF mb] by blast
  have pc: "mb_pc mb = Waiting 0" and down: "mb_down mb = []" using waits [OF mb still] by auto
  have c: "c \<in> fst ` set (ts_clients (sy_hub s))"
  proof (rule ccontr)
    assume new: "c \<notin> fst ` set (ts_clients (sy_hub s))"
    then have "map_of (ts_clients (sy_hub s)) c = None" by (simp add: map_of_eq_None_iff)
    from OnConnect_eq [OF sorted this] obtain h where "OnConnect c (sy_hub s) = Inr h" by blast
    moreover have "mb_pc mb \<noteq> At_top" using pc by simp
    ultimately show False using stuck internal.accepts [OF mb _ new] by blast
  qed
  have "mb_up mb = []"
  proof (rule ccontr)
    assume "mb_up mb \<noteq> []"
    then obtain msg rest where up: "mb_up mb = msg # rest" by (cases "mb_up mb") auto
    then have "msg \<in> set (mb_up mb)" by simp
    with codec mb obtain bs where bs: "bs \<noteq> []" "parse bs = msg" by blast
    from up bs(2) have "mb_up mb = parse bs # rest" by simp
    from data [OF mb c this bs(1)] obtain h where "OnData parse rng c bs (sy_hub s) = Inr h" by blast
    from stuck internal.hub_reads [OF mb c up bs this] show False by (rule notE)
  qed
  with pc down show "mb_pc mb = Waiting 0 \<and> mb_up mb = [] \<and> mb_down mb = []" by simp
qed

text \<open>
  C3: The group always comes to rest. From any state it can reach (under the conditions of
  \<open>system_delivers\<close>), if users stop making calls and nobody
  comes or goes, the processes cannot go on for ever, in whatever order they run; and where none of
  them can move, every message has been read and every main thread waits on its connection. No call
  of a handler or an operation can fail on the way there and leave messages behind. Together with
  \<open>system_delivers\<close>: every subscription is known to every node in the end.
\<close>

theorem system_settles:
  assumes reach: "system_reach parse rng dparse dser n s" and room: "n + 1 < 2 ^ 63"
    and codec: "\<forall>c mb m. sy_members s c = Some mb \<longrightarrow> m \<in> set (mb_up mb) \<longrightarrow> (\<exists>bs. bs \<noteq> [] \<and> parse bs = m)"
  shows "\<not> (\<exists>f. f 0 = s \<and> (\<forall>i. \<exists>j. internal parse rng dparse dser j (f i) (f (Suc i)))) \<and>
    ((\<forall>j s'. \<not> internal parse rng dparse dser j s s') \<longrightarrow> quiescent s)"
proof -
  have inv: "system_inv (Suc 0) s" using system_reach_inv [OF reach, of "Suc 0"] room by simp
  have "finite (dom (sy_members s))" using members_dom(1) [OF system_hub(8) [OF inv]] .
  moreover have "quiescent s" if stuck: "\<forall>j s'. \<not> internal parse rng dparse dser j s s'"
  proof (rule stuck_quiescent [OF _ ordered_sorted [OF system_hub(6) [OF inv]] data_total [OF inv] codec stuck [rule_format]])
    fix c mb assume mb: "sy_members s c = Some mb" and still: "\<And>mb'. \<not> node_step dparse dser mb mb'"
    show "mb_pc mb = Waiting 0 \<and> mb_down mb = []" using member.stuck_waits [OF member_keptD [OF inv mb] still] by auto
  qed
  ultimately show ?thesis using internal_terminates by blast
qed

section \<open>A run\<close>

text \<open>The steps as a function, to run a group.\<close>

datatype action =
    Start fd u64
  | Main fd                  \<comment> \<open>the main thread of the member\<close>
  | Read fd                  \<comment> \<open>its reader\<close>
  | Call fd node_call
  | Accept fd
  | Hub_reads fd bytes
  | Hang_up fd

fun main_step :: "member \<Rightarrow> member option" where
  "main_step mb = (case mb_pc mb of
      At_top \<Rightarrow> Some (mb\<lparr>mb_pc := Introduce 0\<rparr>)
    | Introduce c \<Rightarrow> (case on_manager (IntroduceOurselves 0) (mb_node mb) of
        Inr n \<Rightarrow> if c = 0 then Some (mb\<lparr>mb_pc := Adopt 0, mb_node := n,
          mb_up := mb_up mb @ introduced_since (mb_node mb) n\<rparr>) else None
      | Inl e \<Rightarrow> None)
    | Adopt c \<Rightarrow> (case adopt_client 0 (mb_manager mb) of
        Inr (backlog, m) \<Rightarrow> if c = 0
          then Some (mb\<lparr>mb_pc := Flush 0 backlog, mb_node := (mb_node mb)\<lparr>in_manager := m\<rparr>\<rparr>) else None
      | Inl e \<Rightarrow> None)
    | Flush c ms \<Rightarrow> (if c \<noteq> 0 then None else case ms of
        [] \<Rightarrow> Some (mb\<lparr>mb_pc := Calling_wait 0\<rparr>)
      | msg # backlog \<Rightarrow> (case on_manager (Send 0 msg) (mb_node mb) of
          Inr n \<Rightarrow> Some (mb\<lparr>mb_pc := Flush 0 backlog, mb_node := n, mb_up := mb_up mb @ sent_since (mb_node mb) n\<rparr>)
        | Inl e \<Rightarrow> None))
    | Calling_wait c \<Rightarrow> (case wait_on_client (mb_manager mb) of
        Inr m \<Rightarrow> if c = 0 then Some (mb\<lparr>mb_pc := Waiting 0\<rparr>) else None
      | Inl e \<Rightarrow> None)
    | _ \<Rightarrow> None)"

fun read_step :: "member \<Rightarrow> member option" where
  "read_step mb = (case mb_down mb of
      [] \<Rightarrow> None
    | msg # rest \<Rightarrow> (case deliver_update msg (mb_node mb) of
        Inr n \<Rightarrow> if mb_pc mb = At_top then None else Some (mb\<lparr>mb_node := n, mb_down := rest\<rparr>)
      | Inl e \<Rightarrow> None))"

lemma main_step_sound: "main_step mb = Some mb' \<Longrightarrow> node_step dparse dser mb mb'"
  by (cases "mb_pc mb") (auto intro: node_step.intros [where dparse = dparse and dser = dser, simplified]
      split: sum.splits if_splits list.splits)

lemma read_step_sound: "read_step mb = Some mb' \<Longrightarrow> node_step dparse dser mb mb'"
  by (auto intro: node_step.reads split: sum.splits if_splits list.splits)

definition take_step ::
  "(bytes \<Rightarrow> TopologyMessage) \<Rightarrow> (nat \<Rightarrow> u64) \<Rightarrow> (bytes \<Rightarrow> bool \<times> MetadataMessage) \<Rightarrow>
   (MetadataMessage \<Rightarrow> bytes) \<Rightarrow> action \<Rightarrow> system \<Rightarrow> (nat \<times> system) option" where
  "take_step parse rng dparse dser a s = (case a of
      Start c i \<Rightarrow> (if c \<notin> sy_used s \<and> sy_paths s i = None \<and> i \<noteq> 0 \<and> i \<noteq> 1
        then Some (0, set_member c (new_member ''g'' ''n'' i i) s\<lparr>sy_used := insert c (sy_used s),
          sy_paths := (sy_paths s)(i \<mapsto> data_path i)\<rparr>) else None)
    | Main c \<Rightarrow> (case sy_members s c of None \<Rightarrow> None | Some mb \<Rightarrow>
        map_option (\<lambda>mb'. (0, set_member c mb' s)) (main_step mb))
    | Read c \<Rightarrow> (case sy_members s c of None \<Rightarrow> None | Some mb \<Rightarrow>
        map_option (\<lambda>mb'. (0, set_member c mb' s)) (read_step mb))
    | Call c k \<Rightarrow> (case sy_members s c of None \<Rightarrow> None | Some mb \<Rightarrow>
        (case run_call dparse dser k (mb_node mb) of Inl e \<Rightarrow> None | Inr n \<Rightarrow> if user_call k
          then Some (0, set_member c (mb\<lparr>mb_node := n, mb_up := mb_up mb @ sent_since (mb_node mb) n\<rparr>) s) else None))
    | Accept c \<Rightarrow> (case sy_members s c of None \<Rightarrow> None | Some mb \<Rightarrow>
        (case OnConnect c (sy_hub s) of Inl e \<Rightarrow> None | Inr h \<Rightarrow>
          if mb_pc mb \<noteq> At_top \<and> map_of (ts_clients (sy_hub s)) c = None then Some (1, hub_moves h s) else None))
    | Hub_reads c bs \<Rightarrow> (case sy_members s c of None \<Rightarrow> None | Some mb \<Rightarrow>
        (case mb_up mb of [] \<Rightarrow> None | msg # rest \<Rightarrow>
          (case OnData parse rng c bs (sy_hub s) of Inl e \<Rightarrow> None | Inr h \<Rightarrow>
            if map_of (ts_clients (sy_hub s)) c \<noteq> None \<and> bs \<noteq> [] \<and> parse bs = msg
            then Some (1, hub_moves h (set_member c (mb\<lparr>mb_up := rest\<rparr>) s)) else None)))
    | Hang_up c \<Rightarrow> (case sy_members s c of None \<Rightarrow> None | Some mb \<Rightarrow>
        (case OnDisconnect c (sy_hub s) of Inl e \<Rightarrow> None | Inr h \<Rightarrow>
          if map_option cl_nodeId (map_of (ts_clients (sy_hub s)) c) = Some (tm_nodeId (mb_manager mb))
          then Some (1, hub_moves h (s\<lparr>sy_members := (sy_members s)(c := None)\<rparr>)) else None)))"

lemma registered_iff: "c \<in> fst ` set al \<longleftrightarrow> map_of al c \<noteq> None"
  by (simp add: map_of_eq_None_iff)

lemma take_step_sound:
  assumes "take_step parse rng dparse dser a s = Some (j, s')"
  shows "internal parse rng dparse dser j s s' \<or> external dparse dser j s s'"
proof (cases a)
  case (Start c i)
  with assms show ?thesis by (auto simp: take_step_def intro: external.starts split: if_splits)
next
  case (Main c)
  with assms show ?thesis
    by (auto simp: take_step_def simp del: main_step.simps intro!: internal.node main_step_sound split: option.splits)
next
  case (Read c)
  with assms show ?thesis
    by (auto simp: take_step_def simp del: read_step.simps intro!: internal.node read_step_sound split: option.splits)
next
  case (Call c k)
  with assms show ?thesis by (auto simp: take_step_def intro: external.calls split: option.splits sum.splits if_splits)
next
  case (Accept c)
  with assms obtain mb h where *: "sy_members s c = Some mb" "OnConnect c (sy_hub s) = Inr h" "mb_pc mb \<noteq> At_top"
    "map_of (ts_clients (sy_hub s)) c = None" "j = 1" "s' = hub_moves h s"
    by (auto simp: take_step_def split: option.splits sum.splits if_splits)
  then have "c \<notin> fst ` set (ts_clients (sy_hub s))" by (simp add: registered_iff)
  from internal.accepts [OF *(1,3) this *(2)] *(5,6) show ?thesis by blast
next
  case (Hub_reads c bs)
  with assms obtain mb msg rest h where *: "sy_members s c = Some mb" "mb_up mb = msg # rest"
    "OnData parse rng c bs (sy_hub s) = Inr h" "map_of (ts_clients (sy_hub s)) c \<noteq> None" "bs \<noteq> []" "parse bs = msg"
    "j = 1" "s' = hub_moves h (set_member c (mb\<lparr>mb_up := rest\<rparr>) s)"
    by (auto simp: take_step_def split: option.splits sum.splits if_splits list.splits)
  then have "c \<in> fst ` set (ts_clients (sy_hub s))" by (simp only: registered_iff not_False_eq_True)
  from internal.hub_reads [OF *(1) this *(2,5,6,3)] *(7,8) show ?thesis by blast
next
  case (Hang_up c)
  with assms obtain mb cl h where *: "sy_members s c = Some mb" "map_of (ts_clients (sy_hub s)) c = Some cl"
    "cl_nodeId cl = tm_nodeId (mb_manager mb)" "OnDisconnect c (sy_hub s) = Inr h"
    "j = 1" "s' = hub_moves h (s\<lparr>sy_members := (sy_members s)(c := None)\<rparr>)"
    by (auto simp: take_step_def split: option.splits sum.splits if_splits)
  from external.hangs_up [OF *(1-4)] *(5,6) show ?thesis by blast
qed

fun take_steps ::
  "(bytes \<Rightarrow> TopologyMessage) \<Rightarrow> (nat \<Rightarrow> u64) \<Rightarrow> (bytes \<Rightarrow> bool \<times> MetadataMessage) \<Rightarrow>
   (MetadataMessage \<Rightarrow> bytes) \<Rightarrow> action list \<Rightarrow> nat \<times> system \<Rightarrow> (nat \<times> system) option" where
  "take_steps parse rng dparse dser [] ns = Some ns"
| "take_steps parse rng dparse dser (a # as) ns = (case take_step parse rng dparse dser a (snd ns) of
      None \<Rightarrow> None
    | Some (j, s) \<Rightarrow> take_steps parse rng dparse dser as (fst ns + j, s))"

lemma take_steps_sound:
  "take_steps parse rng dparse dser as (n, s) = Some (n', s') \<Longrightarrow> system_reach parse rng dparse dser n s \<Longrightarrow>
   system_reach parse rng dparse dser n' s'"
proof (induction as arbitrary: n s)
  case (Cons a as)
  then obtain j s1 where "take_step parse rng dparse dser a s = Some (j, s1)"
    "take_steps parse rng dparse dser as (n + j, s1) = Some (n', s')" by (auto split: option.splits)
  with Cons.IH Cons.prems(2) take_step_sound [of parse rng dparse dser a s j s1] show ?case
    by (blast intro: system_reach.inside system_reach.outside)
qed simp

text \<open>
  Node 7 subscribes before it is connected. Node 8 comes while node 7 introduces itself, and so sends
  the hub back what it has heard of node 7.
\<close>

definition group_parse :: "bytes \<Rightarrow> TopologyMessage" where
  "group_parse bs =
     (if bs = [1] then node_msg 0 0 JOIN 7 ''n'' (data_path 7)
      else if bs = [2] then topic_msg 0 0 SUBSCRIBE 7 ''t'' []
      else if bs = [3] then node_msg 0 0 JOIN 8 ''n'' (data_path 8)
      else if bs = [4] then node_msg 1 9 JOIN 7 ''n'' (data_path 7)
      else default_TopologyMessage)"

definition group_actions :: "action list" where
  "group_actions = [Start 5 7, Call 5 (Subscribe_call 0 ''t'' (Some 3)), Main 5, Accept 5, Main 5, Main 5,
     Hub_reads 5 [1], Start 6 8, Main 6, Accept 6, Read 6, Main 6, Main 5, Hub_reads 5 [2], Hub_reads 6 [4],
     Hub_reads 6 [3], Main 5, Main 5, Main 6, Main 6, Main 6, Read 5, Read 5, Read 5, Read 6, Read 6]"

abbreviation group_decode :: "bytes \<Rightarrow> bool \<times> MetadataMessage" where
  "group_decode \<equiv> \<lambda>b. (True, \<lparr>mm_topic = ''t'', mm_inlined = b\<rparr>)"

definition idle_member :: "fd \<Rightarrow> system \<Rightarrow> bool" where
  "idle_member c s = (case sy_members s c of None \<Rightarrow> False | Some mb \<Rightarrow>
     mb_pc mb = Waiting 0 \<and> mb_up mb = [] \<and> mb_down mb = [])"

definition has_callback :: "string \<Rightarrow> fd \<Rightarrow> system \<Rightarrow> bool" where
  "has_callback t c s = (case sy_members s c of None \<Rightarrow> False | Some mb \<Rightarrow>
     (case in_subscriptions (mb_node mb) t of None \<Rightarrow> False | Some f \<Rightarrow> True))"

lemma has_callback_iff:
  "sy_members s c = Some mb \<Longrightarrow> has_callback t c s \<longleftrightarrow> t \<in> dom (in_subscriptions (mb_node mb))"
  by (simp add: has_callback_def domIff split: option.split)

definition known_outbox :: "fd \<Rightarrow> system \<Rightarrow> bool" where
  "known_outbox c s = (case sy_members s c of None \<Rightarrow> False | Some mb \<Rightarrow>
     mb_up mb \<noteq> [] \<and> list_all (\<lambda>m. m = group_parse [1] \<or> m = group_parse [2] \<or> m = group_parse [3] \<or> m = group_parse [4]) (mb_up mb))"

lemma group_rests:
  "case take_steps group_parse (\<lambda>_. 9) group_decode mm_inlined group_actions (0, system_init) of
     None \<Rightarrow> False
   | Some (n, s) \<Rightarrow> n = 6 \<and> sy_used s = {5, 6} \<and> idle_member 5 s \<and> idle_member 6 s \<and>
       has_callback ''t'' 5 s \<and> \<not> has_callback ''t'' 6 s"
  by code_simp

lemma group_under_way:
  "case take_steps group_parse (\<lambda>_. 9) group_decode mm_inlined (take 13 group_actions) (0, system_init) of
     None \<Rightarrow> False
   | Some (n, s) \<Rightarrow> n = 3 \<and> sy_used s = {5, 6} \<and> known_outbox 5 s \<and> known_outbox 6 s"
  by code_simp

lemma reached:
  assumes "case take_steps parse rng dparse dser as (0, system_init) of None \<Rightarrow> False | Some (n, s) \<Rightarrow> P n s"
  obtains n s where "system_reach parse rng dparse dser n s" "P n s"
proof -
  from assms obtain n s where run: "take_steps parse rng dparse dser as (0, system_init) = Some (n, s)" and P: "P n s"
    by (auto split: option.splits)
  from that [OF take_steps_sound [OF run system_reach.init] P] show thesis .
qed

lemma reached_members:
  assumes "system_reach parse rng dparse dser n s" "n < 2 ^ 63" "sy_members s c = Some mb"
  shows "c \<in> sy_used s"
  using members_dom(2) [OF system_hub(8) [OF system_reach_inv [OF assms(1), of 0]]] assms(2,3) by auto

lemma system_delivers_witness:
  "\<exists>s mb out. system_reach group_parse (\<lambda>_. 9) group_decode mm_inlined 6 s \<and> quiescent s \<and>
    sy_members s 6 = Some mb \<and> in_out (Publish mm_inlined ''t'' [1, 2] (mb_node mb)) = in_out (mb_node mb) @ out \<and>
    length out = 1"
proof -
  from reached [OF group_rests] obtain n s where reach: "system_reach group_parse (\<lambda>_. 9) group_decode mm_inlined n s"
    and s: "n = 6 \<and> sy_used s = {5, 6} \<and> idle_member 5 s \<and> idle_member 6 s \<and>
      has_callback ''t'' 5 s \<and> \<not> has_callback ''t'' 6 s" by blast
  have room: "n < 2 ^ 63" using s by simp
  have mem: "c = 5 \<or> c = 6" if "sy_members s c = Some mb" for c mb using reached_members [OF reach room that] s by auto
  obtain m5 m6 where m: "sy_members s 5 = Some m5" "sy_members s 6 = Some m6"
    using s by (auto simp: idle_member_def split: option.splits)
  have rest: "quiescent s"
    unfolding quiescent_def
  proof (intro allI impI)
    fix c mb assume mb: "sy_members s c = Some mb"
    from mem [OF mb] show "mb_pc mb = Waiting 0 \<and> mb_up mb = [] \<and> mb_down mb = []"
      using s mb by (auto simp: idle_member_def)
  qed
  have "m5 \<in> subscribed ''t'' s"
    using s has_callback_iff [OF m(1)] ranI [of "sy_members s", OF m(1)] by (simp add: subscribed_def)
  moreover have "mb = m5" if sub: "mb \<in> subscribed ''t'' s" for mb
  proof -
    from sub obtain c where c: "sy_members s c = Some mb" by (auto simp: subscribed_def ran_def)
    then have "has_callback ''t'' c s" using sub has_callback_iff by (simp add: subscribed_def)
    with s mem [OF c] have "c = 5" by blast
    with c m(1) show ?thesis by simp
  qed
  ultimately have "subscribed ''t'' s = {m5}" by blast
  with system_delivers [OF reach room rest m(2), of "''t''" "[1, 2]"] reach rest m(2) s show ?thesis by auto
qed

lemma system_settles_witness:
  "\<exists>s. system_reach group_parse (\<lambda>_. 9) group_decode mm_inlined 3 s \<and>
    (\<exists>c mb. sy_members s c = Some mb \<and> mb_up mb \<noteq> []) \<and>
    \<not> (\<exists>f. f 0 = s \<and> (\<forall>i. \<exists>j. internal group_parse (\<lambda>_. 9) group_decode mm_inlined j (f i) (f (Suc i)))) \<and>
    ((\<forall>j s'. \<not> internal group_parse (\<lambda>_. 9) group_decode mm_inlined j s s') \<longrightarrow> quiescent s)"
proof -
  from reached [OF group_under_way] obtain n s where reach: "system_reach group_parse (\<lambda>_. 9) group_decode mm_inlined n s"
    and s: "n = 3 \<and> sy_used s = {5, 6} \<and> known_outbox 5 s \<and> known_outbox 6 s" by blast
  have room: "n + 1 < 2 ^ 63" "n < 2 ^ 63" using s by simp_all
  have "\<exists>bs. bs \<noteq> [] \<and> group_parse bs = m" if mb: "sy_members s c = Some mb" and m: "m \<in> set (mb_up mb)" for c mb m
  proof -
    have "c = 5 \<or> c = 6" using reached_members [OF reach room(2) mb] s by auto
    with s mb m have "m = group_parse [1] \<or> m = group_parse [2] \<or> m = group_parse [3] \<or> m = group_parse [4]"
      by (auto simp: known_outbox_def list_all_iff)
    then show ?thesis by blast
  qed
  then have codec: "\<forall>c mb m. sy_members s c = Some mb \<longrightarrow> m \<in> set (mb_up mb) \<longrightarrow> (\<exists>bs. bs \<noteq> [] \<and> group_parse bs = m)"
    by blast
  have "\<exists>c mb. sy_members s c = Some mb \<and> mb_up mb \<noteq> []"
    using s by (auto simp: known_outbox_def split: option.splits)
  with system_settles [OF reach room(1) codec] reach s show ?thesis by blast
qed

lemma system_consistent_witness:
  "\<exists>n s mb. system_reach group_parse (\<lambda>_. 9) group_decode mm_inlined n s \<and> sy_members s 6 = Some mb \<and>
    mb_up mb \<noteq> [] \<and> abs_topology (mb_manager mb) = topology (tm_history (mb_manager mb))"
proof -
  from reached [OF group_under_way] obtain n s where reach: "system_reach group_parse (\<lambda>_. 9) group_decode mm_inlined n s"
    and s: "n = 3 \<and> sy_used s = {5, 6} \<and> known_outbox 5 s \<and> known_outbox 6 s" by blast
  have room: "n < 2 ^ 63" using s by simp
  from s obtain mb where mb: "sy_members s 6 = Some mb" "mb_up mb \<noteq> []"
    by (auto simp: known_outbox_def split: option.splits)
  from system_consistent [OF reach room mb(1)] reach mb show ?thesis by blast
qed

section \<open>A connection lost too early\<close>

text \<open>
  C15: An introduction that is cut short takes another node away. A client that introduces itself first
  sends the messages it has received; each makes the hub note the message's node id for the
  connection. If the client goes away before its own \<open>JOIN\<close> has been read, the hub announces that the
  node of the last message has left, although that node is connected; its topics and its
  neighbours' entries for it are gone, and it will not come back, because the hub erases every later
  \<open>JOIN\<close> of an id that has left.
\<close>

theorem interrupted_introduction_impersonates:
  assumes I: "hub_inv strict (Suc (Suc k)) C U h" and c: "c \<in> C" "C \<subseteq> U" and bs: "bs \<noteq> []"
    and old: "parse bs \<in> set (ts_history h)" "message_node_id (parse bs) = i" "i \<noteq> 0" "i \<noteq> 1"
    and one: "1 \<notin> left_ids (ts_history h)" and d: "d \<noteq> c" "believed h d = Some i"
  shows "\<exists>h1 h2. OnData parse rng c bs h = Inr h1 \<and> topology (ts_history h1) = topology (ts_history h) \<and>
    OnDisconnect c h1 = Inr h2 \<and> believed h2 d = Some i \<and>
    topology (ts_history h2) = (topology (ts_history h))(i := None) \<and> i \<in> left_ids (ts_history h2)"
proof -
  have "map_of (ts_clients h) c \<noteq> None" using I c(1) by (auto simp: hub_inv_def map_of_eq_None_iff)
  then obtain cl where cl: "map_of (ts_clients h) c = Some cl" by blast
  let ?hm = "h\<lparr>ts_clients := AList.update c (cl\<lparr>cl_nodeId := i\<rparr>) (ts_clients h)\<rparr>"
  let ?h1 = "synced (ts_history h) [] ?hm"
  have ok: "ordered strict (ts_history h)" "settled {} (ts_history h)" "no_zero_topic (ts_history h)"
    using I by (auto simp: hub_inv_def hub_ok_def)
  have "OnData parse rng c bs h = Inr ?h1"
    using OnData_echo [where parse = parse and bs = bs and rng = rng, OF I cl bs] old(2,3)
      ordered_pos [OF ok(1) old(1)] ordered_le_last [OF ok(1) old(1)] ordered_seq_inj [OF ok(1) _ old(1)] by auto
  moreover have topo1: "topology (ts_history ?h1) = topology (ts_history h)"
    using topology_prune [OF ok(2), of "[]"] ok(3) one by simp
  moreover have I1: "hub_inv strict (Suc k) C U ?h1" by (rule quiet_commit [OF I c cl])
  have "map_of (ts_clients ?h1) c = Some (cl\<lparr>cl_nodeId := i, cl_seq := last_seq (prune (ts_history h))\<rparr>)"
    by (simp add: map_of_synced update_conv')
  from OnDisconnect_eq [OF I1 this]
  have run: "OnDisconnect c ?h1 = Inr (synced (ts_history ?h1) [leave_message (ts_nextSeq ?h1) i]
      (mint_leave i ?h1\<lparr>ts_clients := AList.delete c (ts_clients ?h1)\<rparr>))" (is "_ = Inr ?h2") by simp
  have ok1: "settled {} (ts_history ?h1)" "no_zero_topic (ts_history ?h1)" using I1 by (auto simp: hub_inv_def hub_ok_def)
  have "topology (ts_history ?h2) = (topology (ts_history ?h1))(i := None)"
    using topology_prune [OF ok1(1), of "[leave_message (ts_nextSeq ?h1) i]"] ok1(2) one old(4)
    by (simp add: leaves_kept topology_step_leave) (simp add: no_zero_topic_def)
  then have "topology (ts_history ?h2) = (topology (ts_history h))(i := None)" by (simp only: topo1)
  moreover have "believed ?h2 d = Some i"
    using d by (cases "map_of (ts_clients h) d") (simp_all add: believed_def map_of_synced delete_conv update_conv')
  moreover have "i \<in> left_ids (ts_history ?h2)" by simp
  ultimately show ?thesis using run by blast
qed

lemma interrupted_introduction_impersonates_witness:
  "\<exists>h1 h2. OnData (\<lambda>_. hd sample_log) (\<lambda>n. of_nat n) 6 [1] sample_hub = Inr h1 \<and>
    OnDisconnect 6 h1 = Inr h2 \<and> believed h2 5 = Some 7 \<and> topology (ts_history h2) 7 = None"
proof -
  have facts: "hub_inv True (Suc (Suc 98)) {5, 6} {5, 6} sample_hub" "hd sample_log \<in> set sample_log"
    "message_node_id (hd sample_log) = 7" "believed sample_hub 5 = Some 7"
    using sample_hub_inv [of True] by (simp_all add: sample_log_def message_node_id_def)
      (simp add: sample_hub_def believed_def)
  have "\<exists>h1 h2. OnData (\<lambda>_. hd sample_log) (\<lambda>n. of_nat n) 6 [1] sample_hub = Inr h1 \<and>
      topology (ts_history h1) = topology (ts_history sample_hub) \<and>
      OnDisconnect 6 h1 = Inr h2 \<and> believed h2 5 = Some 7 \<and>
      topology (ts_history h2) = (topology (ts_history sample_hub))(7 := None) \<and> 7 \<in> left_ids (ts_history h2)"
    by (rule interrupted_introduction_impersonates [OF facts(1)]) (simp_all add: facts)
  then show ?thesis by (elim exE conjE) (intro exI conjI, assumption+, simp)
qed

end
