(* ===== verification/SystemRestart.thy ===== *)
theory SystemRestart
  imports SystemProperties
begin

text \<open>
  The group of \<open>SystemRun\<close> when its hub dies. The hub lives in the process of one of the nodes
  (\<open>TopologyManager::MainLoop\<close>), so nodes may die with it; the others lose their connections, forget
  their clients, and offer their histories to a new hub, which is seeded by the one that binds the
  announce path first. Everybody connects again and sends the new hub its whole history and itself.
\<close>

section \<open>Losing the hub\<close>

text \<open>
  What becomes of a member whose connection is gone: \<open>Wait\<close> has returned, \<open>mClient\<close> is reset, and the
  main thread is back at the top of its loop. What was in the queues is lost. A member that was not
  connected stays as it is.
\<close>

definition rejoining :: "member \<Rightarrow> member" where
  "rejoining mb = mb\<lparr>mb_pc := At_top, mb_node := (mb_node mb)\<lparr>in_manager := (mb_manager mb)\<lparr>tm_client := None\<rparr>\<rparr>,
     mb_up := [], mb_down := []\<rparr>"

text \<open>This is what the main thread of \<open>ManagerLoop\<close> does, offering its history on the way.\<close>

lemma rejoining_steps:
  assumes "mt_pc t = Waiting c" "c \<in> mt_gone t" "\<not> tm_shutdown (mt_manager t)"
  shows "threads_steps H t (t\<lparr>mt_manager := (mt_manager t)\<lparr>tm_client := None\<rparr>, mt_pc := At_top,
    mt_digests := mt_digests t @ [tm_history (mt_manager t)]\<rparr>)"
proof -
  let ?m = "(mt_manager t)\<lparr>tm_client := None\<rparr>"
  have "threads_step H t (t\<lparr>mt_pc := Reset\<rparr>)" using assms by (intro threads_step.woken)
  moreover have "threads_step H (t\<lparr>mt_pc := Reset\<rparr>) (t\<lparr>mt_pc := Check, mt_manager := ?m\<rparr>)"
    using threads_step.reset [of "t\<lparr>mt_pc := Reset\<rparr>" H] by simp
  moreover have "threads_step H (t\<lparr>mt_pc := Check, mt_manager := ?m\<rparr>) (t\<lparr>mt_manager := ?m, mt_pc := Serve\<rparr>)"
    using threads_step.check_go [of "t\<lparr>mt_pc := Check, mt_manager := ?m\<rparr>" H] assms(3) by simp
  moreover have "threads_step H (t\<lparr>mt_manager := ?m, mt_pc := Serve\<rparr>) (t\<lparr>mt_manager := ?m, mt_pc := At_top,
      mt_digests := mt_digests t @ [tm_history (mt_manager t)]\<rparr>)"
    using threads_step.serve [of "t\<lparr>mt_manager := ?m, mt_pc := Serve\<rparr>" H] by simp
  ultimately show ?thesis by (meson rtranclp.rtrancl_refl rtranclp.rtrancl_into_rtrancl)
qed

text \<open>
  The hub dies together with the members \<open>D\<close>, and the manager \<open>m\<close> is the first to start a new one.
\<close>

definition hub_lost :: "fd set \<Rightarrow> TopologyManager \<Rightarrow> system \<Rightarrow> system" where
  "hub_lost D m s = s\<lparr>sy_hub := TopologyServer_init (tm_history m),
     sy_members := (\<lambda>d. if d \<in> D then None else map_option rejoining (sy_members s d))\<rparr>"

text \<open>
  In the code the hub may die at any moment and be seeded by anybody. An \<^emph>\<open>orderly\<close> failure is one at a
  good moment: every survivor either waits on its connection or is not connected yet (it may have just
  been started, or be about to connect after the failure before), none has a message on its way to
  the hub, and the new hub is started by a connected survivor that has read all it was sent. The
  others may have any part of it still to read. Failures at other moments lose what was on its way,
  or split the history (\<open>SplitHistory\<close>).
\<close>

inductive orderly_failure :: "system \<Rightarrow> system \<Rightarrow> bool" where
  fails: "sy_members s c = Some mb \<Longrightarrow> c \<notin> D \<Longrightarrow> mb_pc mb = Waiting 0 \<Longrightarrow> mb_down mb = [] \<Longrightarrow>
    (\<forall>d x. d \<notin> D \<longrightarrow> sy_members s d = Some x \<longrightarrow> mb_pc x \<in> {At_top, Waiting 0} \<and> mb_up x = []) \<Longrightarrow>
    orderly_failure s (hub_lost D (mb_manager mb) s)"

text \<open>
  The purge of a new hub comes 200 ms after it has started. Here it comes after every node in the
  history that is still alive has connected and said so.
\<close>

definition all_back :: "system \<Rightarrow> bool" where
  "all_back s \<longleftrightarrow> (\<forall>mb\<in>ran (sy_members s). tm_nodeId (mb_manager mb) \<in> dom (topology (ts_history (sy_hub s))) \<longrightarrow>
     tm_nodeId (mb_manager mb) \<in> connected_ids (sy_hub s))"

text \<open>The states such a group can reach. Every process has a random generator of its own.\<close>

inductive restart_reach ::
  "(bytes \<Rightarrow> TopologyMessage) \<Rightarrow> (bytes \<Rightarrow> bool \<times> MetadataMessage) \<Rightarrow> (MetadataMessage \<Rightarrow> bytes) \<Rightarrow>
   nat \<Rightarrow> system \<Rightarrow> bool"
  for parse dparse dser where
  init: "restart_reach parse dparse dser 0 system_init"
| inside: "restart_reach parse dparse dser n s \<Longrightarrow> internal parse rng dparse dser j s s' \<Longrightarrow>
    restart_reach parse dparse dser (n + j) s'"
| outside: "restart_reach parse dparse dser n s \<Longrightarrow> external dparse dser j s s' \<Longrightarrow>
    restart_reach parse dparse dser (n + j) s'"
| purged: "restart_reach parse dparse dser n s \<Longrightarrow> all_back s \<Longrightarrow> purging j s s' \<Longrightarrow>
    restart_reach parse dparse dser (n + j) s'"
| failed: "restart_reach parse dparse dser n s \<Longrightarrow> orderly_failure s s' \<Longrightarrow> restart_reach parse dparse dser n s'"

section \<open>What the group knows\<close>

text \<open>Every message that is in a history or has been written to a connection.\<close>

definition group_log :: "system \<Rightarrow> TopologyMessage set" where
  "group_log s = all_messages (sy_hub s) \<union> (\<Union>mb\<in>ran (sy_members s). set (tm_history (mb_manager mb)))"

definition unsubscribes :: "TopologyMessage \<Rightarrow> bool" where
  "unsubscribes m \<longleftrightarrow> has_topic_change m \<and> tc_op (topic_change m) = UNSUBSCRIBE"

text \<open>
  One log is behind all of it, whoever keeps which part: every message has its own number, none is
  newer than the history of the hub, and the hub has every message about a node that has not left.
  What is known of a node begins with its joining; after it has left nothing new is said about it.
\<close>

definition knowledge_ok ::
  "(u64 \<rightharpoonup> string) \<Rightarrow> TopologyMessage set \<Rightarrow> TopologyMessage list \<Rightarrow> bool" where
  "knowledge_ok paths K hist \<longleftrightarrow> set hist \<subseteq> K \<and> inj_on seq K \<and>
     (\<forall>x\<in>K. entry_ok paths x \<and> seq x \<le> last_seq hist \<and> \<not> unsubscribes x) \<and>
     (\<forall>x\<in>K. message_node_id x \<notin> left_ids hist \<longrightarrow> x \<in> set hist) \<and>
     (\<forall>x\<in>K. leaves x \<longrightarrow> message_node_id x \<in> left_ids hist) \<and>
     (\<forall>x\<in>K. \<forall>y\<in>K. leaves x \<longrightarrow> \<not> leaves y \<longrightarrow> message_node_id x = message_node_id y \<longrightarrow> seq y < seq x) \<and>
     (\<forall>x\<in>K. message_node_id x \<notin> left_ids hist \<longrightarrow>
       (\<exists>y\<in>K. joins y \<and> message_node_id y = message_node_id x \<and> seq y \<le> seq x))"

lemma knowledge_okD:
  assumes "knowledge_ok paths K hist"
  shows "set hist \<subseteq> K" "inj_on seq K"
    "x \<in> K \<Longrightarrow> entry_ok paths x" "x \<in> K \<Longrightarrow> seq x \<le> last_seq hist" "x \<in> K \<Longrightarrow> \<not> unsubscribes x"
    "x \<in> K \<Longrightarrow> message_node_id x \<notin> left_ids hist \<Longrightarrow> x \<in> set hist"
    "x \<in> K \<Longrightarrow> leaves x \<Longrightarrow> message_node_id x \<in> left_ids hist"
    "x \<in> K \<Longrightarrow> y \<in> K \<Longrightarrow> leaves x \<Longrightarrow> \<not> leaves y \<Longrightarrow> message_node_id x = message_node_id y \<Longrightarrow> seq y < seq x"
    "x \<in> K \<Longrightarrow> message_node_id x \<notin> left_ids hist \<Longrightarrow>
       \<exists>y\<in>K. joins y \<and> message_node_id y = message_node_id x \<and> seq y \<le> seq x"
  using assms unfolding knowledge_ok_def by blast+

lemma entry_node:
  assumes "entry_ok paths m" "paths_ok paths"
  shows "message_node_id m \<noteq> 0" "message_node_id m \<noteq> 1" "msg_key m = Some (message_node_id m)"
proof -
  show "message_node_id m \<noteq> 0" "message_node_id m \<noteq> 1" using assms by (auto simp: entry_ok_def paths_ok_def)
  then show "msg_key m = Some (message_node_id m)" by (intro message_node_id_key)
qed

lemma knowledge_one:
  assumes "knowledge_ok paths K hist" "paths_ok paths"
  shows "1 \<notin> left_ids hist"
proof
  assume "1 \<in> left_ids hist"
  then obtain m where "m \<in> set hist" "message_node_id m = 1" by (auto dest: left_ids_message)
  with knowledge_okD(1) [OF assms(1)] knowledge_okD(3) [OF assms(1), of m] entry_node(2) [OF _ assms(2), of m]
  show False by auto
qed

text \<open>Pruning takes nothing about nodes that have not left.\<close>

lemma live_kept:
  assumes "x \<in> set ms" "message_node_id x \<notin> left_ids ms" "1 \<notin> left_ids ms" "message_node_id x \<noteq> 0"
  shows "x \<in> set (prune ms)"
proof -
  have topic: "has_topic_change x \<longrightarrow> tc_node_id (topic_change x) \<noteq> 0"
    using assms(4) message_node_id_topic [of x] by auto
  have "\<not> removed (left_ids ms) x"
  proof
    assume "removed (left_ids ms) x"
    from removed_node [OF this assms(3) topic] assms(2) show False by (auto simp: message_node_id_def)
  qed
  with assms(1) show ?thesis by (simp add: prune_def)
qed

text \<open>Less may be known, as long as the history has all about the nodes that have not left.\<close>

lemma knowledge_shrink:
  assumes K: "knowledge_ok paths K hist" and sub: "K' \<subseteq> K" "set hist' \<subseteq> K'"
    and same: "left_ids hist' = left_ids hist" "last_seq hist' = last_seq hist"
    and live: "\<And>x. x \<in> set hist \<Longrightarrow> message_node_id x \<notin> left_ids hist \<Longrightarrow> x \<in> set hist'"
  shows "knowledge_ok paths K' hist'"
proof -
  note D = knowledge_okD [OF K]
  have "\<exists>y\<in>K'. joins y \<and> message_node_id y = message_node_id x \<and> seq y \<le> seq x"
    if x: "x \<in> K'" "message_node_id x \<notin> left_ids hist'" for x
  proof -
    from D(9) [of x] x sub(1) same(1) obtain y where y: "y \<in> K" "joins y" "message_node_id y = message_node_id x" "seq y \<le> seq x"
      by auto
    with D(6) [OF y(1)] x(2) same(1) live [of y] sub(2) have "y \<in> K'" by auto
    with y show ?thesis by blast
  qed
  moreover have "x \<in> set hist'" if "x \<in> K'" "message_node_id x \<notin> left_ids hist'" for x
    using D(6) [of x] live [of x] that sub(1) same(1) by auto
  moreover have "inj_on seq K'" using D(2) sub(1) by (rule inj_on_subset)
  moreover have "entry_ok paths x \<and> seq x \<le> last_seq hist' \<and> \<not> unsubscribes x" "leaves x \<longrightarrow> message_node_id x \<in> left_ids hist'"
    if "x \<in> K'" for x using D(3,4,5,7) [of x] that sub(1) same by auto
  moreover have "seq y < seq x"
    if "x \<in> K'" "y \<in> K'" "leaves x" "\<not> leaves y" "message_node_id x = message_node_id y" for x y
    using D(8) [of x y] that sub(1) by auto
  ultimately show ?thesis using sub(2) unfolding knowledge_ok_def by blast
qed

text \<open>What a handler of the hub may add: departures, or one message of a node that has joined.\<close>

definition addable :: "(u64 \<rightharpoonup> string) \<Rightarrow> TopologyMessage set \<Rightarrow> TopologyMessage list \<Rightarrow> TopologyMessage list \<Rightarrow> bool" where
  "addable paths K hist ms \<longleftrightarrow> newer hist ms \<and>
     (\<forall>m\<in>set ms. entry_ok paths m \<and> \<not> unsubscribes m \<and> message_node_id m \<notin> left_ids hist) \<and>
     (list_all leaves ms \<or> (\<exists>m. ms = [m] \<and> \<not> leaves m \<and>
       (joins m \<or> (\<exists>y\<in>K. joins y \<and> message_node_id y = message_node_id m))))"

lemma addable_kept:
  assumes "addable paths K hist ms" "knowledge_ok paths K hist" "paths_ok paths"
  shows "kept hist ms = ms"
proof (cases "list_all leaves ms")
  case True
  then show ?thesis by (rule leaves_kept)
next
  case False
  with assms(1) obtain m where m: "ms = [m]" "\<not> leaves m" by (auto simp: addable_def)
  with assms(1) have e: "entry_ok paths m" "message_node_id m \<notin> left_ids hist" by (auto simp: addable_def)
  have "message_node_id m \<noteq> 0" using entry_node(1) [OF e(1) assms(3)] .
  then have "has_topic_change m \<longrightarrow> tc_node_id (topic_change m) \<noteq> 0" using message_node_id_topic [of m] by auto
  with kept_live [OF knowledge_one [OF assms(2,3)], of m] m e show ?thesis by simp
qed

lemma knowledge_add:
  assumes K: "knowledge_ok paths K hist" and paths: "paths_ok paths" and settled: "settled {} hist"
    and add: "addable paths K hist ms"
  shows "knowledge_ok paths (K \<union> set ms) (prune (hist @ ms))"
proof -
  note D = knowledge_okD [OF K]
  let ?hist = "prune (hist @ ms)"
  have new: "newer hist ms" and ms: "\<And>m. m \<in> set ms \<Longrightarrow> entry_ok paths m" "\<And>m. m \<in> set ms \<Longrightarrow> \<not> unsubscribes m"
    "\<And>m. m \<in> set ms \<Longrightarrow> message_node_id m \<notin> left_ids hist" using add by (auto simp: addable_def)
  then have above: "\<And>m. m \<in> set ms \<Longrightarrow> last_seq hist < seq m" and ord: "ordered True ms" by (auto simp: newer_def)
  have left: "left_ids ?hist = left_ids hist \<union> left_ids ms" by simp
  have node: "message_node_id m \<noteq> 0" "message_node_id m \<noteq> 1" if "m \<in> K \<union> set ms" for m
    using that D(3) ms(1) entry_node [OF _ paths] by auto
  then have one: "1 \<notin> left_ids (hist @ ms)" using D(1) by (auto dest!: left_ids_message)
  have last: "last_seq ?hist = (if ms = [] then last_seq hist else last_seq ms)"
    using last_seq_prune [OF settled, of ms] addable_kept [OF add K paths] by (simp add: last_seq_append)
  have le: "seq x \<le> last_seq ?hist" if "x \<in> K \<union> set ms" for x
  proof (cases "ms = []")
    case False
    have "seq m \<le> last_seq ms" if "m \<in> set ms" for m using ordered_le_last [OF ord that] .
    moreover have "last_seq hist < last_seq ms" using above [of "last ms"] False by (simp add: last_seq_def)
    ultimately show ?thesis using that D(4) [of x] False by (auto simp: last intro: order_trans less_imp_le)
  qed (use that D(4) last in auto)
  have live: "x \<in> set ?hist" if "x \<in> K \<union> set ms" "message_node_id x \<notin> left_ids ?hist" for x
    using that D(6) [of x] node(1) one by (intro live_kept) (auto simp: left)
  have "set ?hist \<subseteq> K \<union> set ms" using D(1) set_prune [of "hist @ ms"] by auto
  moreover have "inj_on seq (K \<union> set ms)"
    using D(2,4) above ord by (auto simp: inj_on_Un ordered_def) (metis leD)
  moreover have "message_node_id x \<in> left_ids ?hist" if "x \<in> K \<union> set ms" "leaves x" for x
  proof -
    have "nc_id (node_change x) = message_node_id x" using that(2) by (simp add: leaves_def message_node_id_def)
    with that D(7) [of x] show ?thesis by (auto simp: left left_ids_mem)
  qed
  moreover have "seq y < seq x"
    if xy: "x \<in> K \<union> set ms" "y \<in> K \<union> set ms" "leaves x" "\<not> leaves y" "message_node_id x = message_node_id y" for x y
  proof (cases "x \<in> set ms")
    case True
    then have "\<not> (\<exists>m. ms = [m] \<and> \<not> leaves m)" using xy(3) by auto
    then have "list_all leaves ms" using add unfolding addable_def by blast
    then have "y \<in> K" using xy(2,4) by (auto simp: list_all_iff)
    with D(4) [of y] above [OF True] show ?thesis by simp
  next
    case False
    then have x: "x \<in> K" using xy(1) by simp
    then have "message_node_id y \<in> left_ids hist" using D(7) [OF x xy(3)] xy(5) by simp
    then have "y \<in> K" using ms(3) xy(2) by auto
    with D(8) [OF x] xy show ?thesis by blast
  qed
  moreover have "\<exists>y\<in>K \<union> set ms. joins y \<and> message_node_id y = message_node_id x \<and> seq y \<le> seq x"
    if x: "x \<in> K \<union> set ms" "message_node_id x \<notin> left_ids ?hist" for x
  proof (cases "x \<in> K")
    case True
    with D(9) [of x] x(2) show ?thesis by (auto simp: left)
  next
    case False
    then have "x \<in> set ms" using x(1) by simp
    moreover from this x(2) have "\<not> leaves x" by (auto simp: left left_ids_mem leaves_def message_node_id_def)
    ultimately have "ms = [x]" "joins x \<or> (\<exists>y\<in>K. joins y \<and> message_node_id y = message_node_id x)"
      using add unfolding addable_def by (auto simp: list_all_iff)
    with above [of x] D(4) show ?thesis by (auto intro: less_imp_le le_less_trans)
  qed
  ultimately show ?thesis using le live D(3,5) ms(1,2) unfolding knowledge_ok_def by (auto simp del: left_ids_simps)
qed

end
