(* ===== verification/RestartSteps.thy ===== *)
theory RestartSteps
  imports SystemRestart
begin

text \<open>
  The invariant of a group whose hub may die, and the steps of its nodes. Unlike in
  \<open>SystemInvariant\<close> a node may be known to the hub before it has said a word to it, and its history
  may hold more than its connection has brought: so the members are judged by the messages they have
  rather than by the order in which they came.
\<close>

section \<open>The invariant of a member\<close>

text \<open>The part of a table the users depend on, and what a set of messages says it is.\<close>

definition table_view :: "topology \<Rightarrow> u64 \<Rightarrow> (string \<times> string set) option" where
  "table_view V i = map_option (\<lambda>v. (nv_address v, nv_subs v)) (V i)"

definition said :: "(u64 \<rightharpoonup> string) \<Rightarrow> TopologyMessage list \<Rightarrow> u64 \<Rightarrow> (string \<times> string set) option" where
  "said paths ms i =
     (if \<exists>x\<in>set ms. joins x \<and> message_node_id x = i then Some (the (paths i), asks i ms) else None)"

lemma asks_cong: "set ms = set ns \<Longrightarrow> asks i ms = asks i ns"
  by (simp add: asks_def)

lemma said_cong: "set ms = set ns \<Longrightarrow> said paths ms i = said paths ns i"
  by (simp add: said_def asks_def)

text \<open>
  The queue to the hub is empty before the introduction. Then it holds the introduction, of which the
  first part is history, or, after the \<open>JOIN\<close> has been read, requests only.
\<close>

definition still_introducing :: "TopologyManager \<Rightarrow> TopologyMessage list \<Rightarrow> bool" where
  "still_introducing m up \<longleftrightarrow> (\<exists>es rest. up = es @ introduce_node m # rest \<and>
     set es \<subseteq> set (tm_history m) \<and> list_all (own (tm_nodeId m)) rest)"

definition mailbox_ok :: "TopologyServer \<Rightarrow> fd \<Rightarrow> member \<Rightarrow> bool" where
  "mailbox_ok h c mb \<longleftrightarrow> (let m = mb_manager mb; i = tm_nodeId m in
     if introduced (mb_pc mb) then
       still_introducing m (mb_up mb) \<or>
       list_all (own i) (mb_up mb) \<and> believed h c = Some i \<and> (\<exists>x\<in>set (ts_history h). message_node_id x = i)
     else mb_up mb = [])"

lemma still_introducing_mono:
  assumes "still_introducing m up" "tm_nodeId m' = tm_nodeId m" "introduce_node m' = introduce_node m"
    and "set (tm_history m) \<subseteq> set (tm_history m')"
  shows "still_introducing m' up"
  using assms unfolding still_introducing_def by (metis subset_trans)

lemma still_introducing_add:
  assumes "still_introducing m up" "own (tm_nodeId m) msg"
  shows "still_introducing m (up @ [msg])"
  using assms(1) unfolding still_introducing_def
  by (elim exE conjE, intro exI [of _ "_ :: TopologyMessage list"] exI [of _ "_ @ [msg]"]) (use assms(2) in auto)

definition table_ok_for :: "(u64 \<rightharpoonup> string) \<Rightarrow> u64 set \<Rightarrow> TopologyManager \<Rightarrow> bool" where
  "table_ok_for paths left m \<longleftrightarrow>
     (\<forall>j. j \<notin> left \<longrightarrow> table_view (abs_topology m) j = said paths (tm_history m) j) \<and>
     (\<forall>j v. abs_topology m j = Some v \<longrightarrow> paths j = Some (nv_address v)) \<and>
     (\<forall>x\<in>set (tm_history m). message_node_id x \<notin> left \<longrightarrow>
       (\<exists>y\<in>set (tm_history m). joins y \<and> message_node_id y = message_node_id x))"

definition fed_ok :: "TopologyServer \<Rightarrow> fd \<Rightarrow> member \<Rightarrow> bool" where
  "fed_ok h c mb \<longleftrightarrow> node_wf (mb_node mb) \<and> nbr_path (mb_node mb) = mgr_path (mb_manager mb) \<and>
     (\<exists>read V. stream c (ts_wire h) = read @ mb_down mb \<and> set read \<subseteq> set (tm_history (mb_manager mb)) \<and>
       abs_topology (mb_manager mb) = fold topology_step read V) \<and>
     (c \<in> fst ` set (ts_clients h) \<longrightarrow> (\<forall>x\<in>set (ts_history h). message_node_id x \<notin> left_ids (ts_history h) \<longrightarrow>
       x \<in> set (stream c (ts_wire h))))"

definition asked_ok :: "TopologyServer \<Rightarrow> member \<Rightarrow> bool" where
  "asked_ok h mb \<longleftrightarrow> dom (in_subscriptions (mb_node mb)) = asks (tm_nodeId (mb_manager mb))
     (ts_history h @ mb_up mb @ tm_backlog (mb_manager mb) @ pending (mb_pc mb))"

definition associate_ok :: "(u64 \<rightharpoonup> string) \<Rightarrow> TopologyServer \<Rightarrow> fd \<Rightarrow> member \<Rightarrow> bool" where
  "associate_ok paths h c mb \<longleftrightarrow>
     paths (tm_nodeId (mb_manager mb)) = Some (tm_address (mb_manager mb)) \<and>
     tm_nodeId (mb_manager mb) \<notin> left_ids (ts_history h) \<and>
     (\<forall>x\<in>set (heard h c). x \<in> set (ts_history h) \<and> message_node_id x = tm_nodeId (mb_manager mb)) \<and>
     mailbox_ok h c mb \<and> requests_ok mb \<and> table_ok_for paths (left_ids (ts_history h)) (mb_manager mb) \<and>
     fed_ok h c mb \<and> asked_ok h mb"

lemmas associate_defs = associate_ok_def mailbox_ok_def requests_ok_def asked_ok_def Let_def

lemma associate_unlocked: "associate_ok paths h c mb \<Longrightarrow> \<not> tm_locked (mb_manager mb)"
  by (simp add: associate_ok_def fed_ok_def node_wf_def node_sys_def mgr_ok_def)

section \<open>Steps that leave table and history alone\<close>

lemma fed_same:
  assumes "fed_ok h c mb" "mb_node mb' = (mb_node mb)\<lparr>in_manager := m'\<rparr>" "mb_down mb' = mb_down mb"
    and "tm_nodes m' = tm_nodes (mb_manager mb)" "tm_history m' = tm_history (mb_manager mb)" "\<not> tm_locked m'"
  shows "fed_ok h c mb'"
proof -
  have "node_sys (mb_node mb)" using assms(1) by (simp add: fed_ok_def node_wf_def)
  from node_sys_tables [OF this assms(4-6)] have "node_wf (mb_node mb')"
    "abs_topology m' = abs_topology (mb_manager mb)"
    using assms(1,2) by (simp_all add: fed_ok_def node_wf_def)
  moreover have "mgr_path m' = mgr_path (mb_manager mb)" using assms(4) by (simp add: mgr_path_def)
  ultimately show ?thesis using assms by (simp add: fed_ok_def)
qed

lemma table_same:
  assumes "table_ok_for paths left m" "tm_nodes m' = tm_nodes m" "tm_history m' = tm_history m"
  shows "table_ok_for paths left m'"
proof -
  have "abs_topology m' = abs_topology m" using assms(2) by (simp add: abs_topology_def)
  with assms show ?thesis by (simp add: table_ok_for_def)
qed

text \<open>A queue that stays, and one that gets another request.\<close>

lemma mailbox_same:
  assumes "mailbox_ok h c mb" "introduced (mb_pc mb') = introduced (mb_pc mb)" "mb_up mb' = mb_up mb"
    and "tm_nodeId (mb_manager mb') = tm_nodeId (mb_manager mb)"
      "introduce_node (mb_manager mb') = introduce_node (mb_manager mb)"
      "set (tm_history (mb_manager mb)) \<subseteq> set (tm_history (mb_manager mb'))"
  shows "mailbox_ok h c mb'"
  using assms still_introducing_mono [of "mb_manager mb" "mb_up mb" "mb_manager mb'"]
  by (auto simp: mailbox_ok_def Let_def split: if_splits)

lemma mailbox_add:
  assumes "mailbox_ok h c mb" "introduced (mb_pc mb)" "own (tm_nodeId (mb_manager mb)) msg"
    and "introduced (mb_pc mb')" "mb_up mb' = mb_up mb @ [msg]"
    and "tm_nodeId (mb_manager mb') = tm_nodeId (mb_manager mb)"
      "introduce_node (mb_manager mb') = introduce_node (mb_manager mb)"
      "tm_history (mb_manager mb') = tm_history (mb_manager mb)"
  shows "mailbox_ok h c mb'"
  using assms still_introducing_add [of "mb_manager mb" "mb_up mb" msg]
    still_introducing_mono [of "mb_manager mb" "mb_up mb @ [msg]" "mb_manager mb'"]
  by (auto simp: mailbox_ok_def Let_def)

lemma connects_ok':
  assumes "associate_ok paths h c mb" "mb_pc mb = At_top"
  shows "associate_ok paths h c (mb\<lparr>mb_pc := Introduce 0\<rparr>)"
  using assms by (simp add: associate_defs fed_ok_def pc_ok_def)

lemma adopts_ok':
  assumes ok: "associate_ok paths h c mb" and pc: "mb_pc mb = Adopt 0"
  shows "\<exists>m. adopt_client 0 (mb_manager mb) = Inr (tm_backlog (mb_manager mb), m) \<and>
    tm_nodeId m = tm_nodeId (mb_manager mb) \<and> tm_history m = tm_history (mb_manager mb) \<and>
    associate_ok paths h c
      (mb\<lparr>mb_pc := Flush 0 (tm_backlog (mb_manager mb)), mb_node := (mb_node mb)\<lparr>in_manager := m\<rparr>\<rparr>)"
proof -
  let ?m = "mb_manager mb"
  let ?m' = "?m\<lparr>tm_client := Some 0, tm_backlog := [], tm_locked := False\<rparr>"
  let ?mb = "mb\<lparr>mb_pc := Flush 0 (tm_backlog ?m), mb_node := (mb_node mb)\<lparr>in_manager := ?m'\<rparr>\<rparr>"
  have run: "adopt_client 0 ?m = Inr (tm_backlog ?m, ?m')"
    using associate_unlocked [OF ok] by (simp add: adopt_client_def with_lock_def)
  have "fed_ok h c mb" "mailbox_ok h c mb" "table_ok_for paths (left_ids (ts_history h)) ?m" using ok by (auto simp: associate_ok_def)
  then have "fed_ok h c ?mb" "mailbox_ok h c ?mb" "table_ok_for paths (left_ids (ts_history h)) ?m'"
    using pc by (auto intro!: fed_same [where mb = mb and m' = ?m'] mailbox_same [where mb = mb] table_same [where m = ?m]
        simp: introduce_node_def)
  then show ?thesis using ok pc run by (intro exI [of _ ?m']) (simp add: associate_ok_def requests_ok_def asked_ok_def Let_def pc_ok_def)
qed

lemma flushed_ok':
  assumes "associate_ok paths h c mb" "mb_pc mb = Flush 0 []"
  shows "associate_ok paths h c (mb\<lparr>mb_pc := Calling_wait 0\<rparr>)"
  using assms by (simp add: associate_defs fed_ok_def pc_ok_def)

lemma waits_ok':
  assumes "associate_ok paths h c mb" "mb_pc mb = Calling_wait 0"
  shows "wait_on_client (mb_manager mb) = Inr (mb_manager mb)"
    and "associate_ok paths h c (mb\<lparr>mb_pc := Waiting 0\<rparr>)"
  using assms by (simp_all add: associate_defs fed_ok_def pc_ok_def wait_on_client_def)

lemma flushes_ok':
  assumes ok: "associate_ok paths h c mb" and pc: "mb_pc mb = Flush 0 (msg # backlog)" and ret: "0 \<le> ret"
  shows "\<exists>n. on_manager (Send ret msg) (mb_node mb) = Inr n \<and>
    tm_nodeId (in_manager n) = tm_nodeId (mb_manager mb) \<and> tm_history (in_manager n) = tm_history (mb_manager mb) \<and>
    associate_ok paths h c
      (mb\<lparr>mb_pc := Flush 0 backlog, mb_node := n, mb_up := mb_up mb @ sent_since (mb_node mb) n\<rparr>)"
proof -
  let ?m = "mb_manager mb"
  let ?m' = "?m\<lparr>tm_sent := tm_sent ?m @ [(0, msg, ret)], tm_locked := False\<rparr>"
  let ?n = "(mb_node mb)\<lparr>in_manager := ?m'\<rparr>"
  let ?mb = "mb\<lparr>mb_pc := Flush 0 backlog, mb_node := ?n, mb_up := mb_up mb @ sent_since (mb_node mb) ?n\<rparr>"
  have parts: "fed_ok h c mb" "mailbox_ok h c mb" "table_ok_for paths (left_ids (ts_history h)) ?m" and req: "requests_ok mb"
    using ok by (auto simp: associate_ok_def)
  have sent: "sent_since (mb_node mb) ?n = [msg]" using ret by (simp add: sent_since_def)
  have "on_manager (Send ret msg) (mb_node mb) = Inr ?n"
    using req pc associate_unlocked [OF ok] ret by (simp add: on_manager_Send_eq requests_ok_def Let_def)
  moreover have "fed_ok h c ?mb" by (rule fed_same [OF parts(1), where m' = ?m']) simp_all
  moreover have "mailbox_ok h c ?mb"
    by (rule mailbox_add [OF parts(2), where msg = msg])
      (use req pc in \<open>simp_all add: requests_ok_def Let_def sent\<close>, simp_all add: introduce_node_def)
  moreover have "table_ok_for paths (left_ids (ts_history h)) ?m'" by (rule table_same [OF parts(3)]) simp_all
  moreover have "requests_ok ?mb" "asked_ok h ?mb"
    using ok pc by (auto simp: associate_defs pc_ok_def sent)
  ultimately show ?thesis using ok by (intro exI [of _ ?n]) (simp add: associate_ok_def)
qed

section \<open>The introduction\<close>

lemma publications_own:
  assumes "seq msg = 0"
  shows "list_all (own i) (fst (introduce_publications i pubs msg)) \<and>
    asks i (fst (introduce_publications i pubs msg)) = {} \<and> seq (snd (introduce_publications i pubs msg)) = 0"
  using assms
  by (induction i pubs msg rule: introduce_publications.induct) (auto simp: split_beta Let_def own_def)

lemma subscriptions_own:
  assumes "seq msg = 0"
  shows "list_all (own i) (introduce_subscriptions i ts msg) \<and> asks i (introduce_subscriptions i ts msg) = set ts"
  using assms by (induction ts arbitrary: msg) (auto simp: Let_def own_def)

lemma introduction_parts:
  obtains topics where "introduction m = tm_history m @ introduce_node m # topics"
    "list_all (own (tm_nodeId m)) topics"
    "asks (tm_nodeId m) topics = (case abs_topology m (tm_nodeId m) of None \<Rightarrow> {} | Some v \<Rightarrow> nv_subs v)"
proof (cases "tm_nodes m (tm_nodeId m)")
  case None
  then show thesis by (intro that [of "[]"]) (simp_all add: introduction_def abs_topology_def)
next
  case (Some nd)
  let ?i = "tm_nodeId m"
  let ?pubs = "introduce_publications ?i (nd_publications nd) (introduce_node m)"
  let ?subs = "introduce_subscriptions ?i (nd_subscriptions nd) (snd ?pubs)"
  have pubs: "list_all (own ?i) (fst ?pubs)" "asks ?i (fst ?pubs) = {}" "seq (snd ?pubs) = 0"
    using publications_own [of "introduce_node m" ?i "nd_publications nd"] by auto
  with subscriptions_own [OF pubs(3), of ?i "nd_subscriptions nd"] Some show thesis
    by (intro that [of "fst ?pubs @ ?subs"])
      (simp_all add: introduction_def abs_topology_def abs_node_def split_beta Let_def)
qed

text \<open>What is known of a node that has not left is in the history of the hub.\<close>

lemma asks_live:
  assumes "knowledge_ok paths K hist" "set ms \<subseteq> K" "i \<notin> left_ids hist"
  shows "asks i ms \<subseteq> asks i hist"
proof
  fix t assume "t \<in> asks i ms"
  then obtain x where x: "t = tc_name (topic_change x)" "x \<in> set ms" "has_topic_change x"
    "tc_node_id (topic_change x) = i" "tc_op (topic_change x) = SUBSCRIBE" unfolding asks_def by blast
  then have "message_node_id x = i"
    by (cases rule: oneof_exhaust [of x]) (simp_all add: message_node_id_def)
  then have "x \<in> set hist" using knowledge_okD(6) [OF assms(1), of x] x(2) assms(2,3) by auto
  with x show "t \<in> asks i hist" unfolding asks_def by blast
qed

lemma introduces_ok':
  assumes ok: "associate_ok paths h c mb" and pc: "mb_pc mb = Introduce 0"
    and K: "knowledge_ok paths K (ts_history h)" "set (tm_history (mb_manager mb)) \<subseteq> K"
  shows "\<exists>n. on_manager (IntroduceOurselves 0) (mb_node mb) = Inr n \<and>
    tm_nodeId (in_manager n) = tm_nodeId (mb_manager mb) \<and> tm_history (in_manager n) = tm_history (mb_manager mb) \<and>
    associate_ok paths h c
      (mb\<lparr>mb_pc := Adopt 0, mb_node := n, mb_up := mb_up mb @ introduced_since (mb_node mb) n\<rparr>)"
proof -
  let ?m = "mb_manager mb" and ?i = "tm_nodeId (mb_manager mb)"
  let ?m' = "?m\<lparr>tm_locked := False, tm_intro := tm_intro ?m @ map (Pair 0) (introduction ?m)\<rparr>"
  let ?n = "(mb_node mb)\<lparr>in_manager := ?m'\<rparr>"
  let ?mb = "mb\<lparr>mb_pc := Adopt 0, mb_node := ?n, mb_up := mb_up mb @ introduced_since (mb_node mb) ?n\<rparr>"
  have parts: "fed_ok h c mb" "mailbox_ok h c mb" "table_ok_for paths (left_ids (ts_history h)) ?m"
    and live: "?i \<notin> left_ids (ts_history h)" using ok by (auto simp: associate_ok_def)
  obtain topics where topics: "introduction ?m = tm_history ?m @ introduce_node ?m # topics" "list_all (own ?i) topics"
    "asks ?i topics = (case abs_topology ?m ?i of None \<Rightarrow> {} | Some v \<Rightarrow> nv_subs v)"
    using introduction_parts [of ?m] .
  have up: "mb_up mb = []" using parts(2) pc by (simp add: mailbox_ok_def Let_def)
  have intro: "introduced_since (mb_node mb) ?n = introduction ?m" by (simp add: introduced_since_def comp_def)
  have run: "on_manager (IntroduceOurselves 0) (mb_node mb) = Inr ?n"
    using associate_unlocked [OF ok] by (simp add: on_manager_def IntroduceOurselves_def with_lock_def introduction_locked)
  have "table_view (abs_topology ?m) ?i = said paths (tm_history ?m) ?i"
    using parts(3) live by (simp add: table_ok_for_def)
  then have "asks ?i topics \<subseteq> asks ?i (tm_history ?m)"
    unfolding topics(3)
    by (cases "abs_topology ?m ?i"; cases "\<exists>x\<in>set (tm_history ?m). joins x \<and> message_node_id x = ?i")
      (simp_all add: table_view_def said_def)
  then have none: "asks ?i (introduction ?m) \<subseteq> asks ?i (ts_history h)"
    using asks_live [OF K live] unfolding topics(1) by auto
  have same: "introduce_node ?m' = introduce_node ?m" by (simp add: introduce_node_def)
  have "still_introducing ?m' (introduction ?m)"
    unfolding still_introducing_def same by (rule exI [of _ "tm_history ?m"], rule exI [of _ topics]) (simp add: topics(1,2))
  then have "mailbox_ok h c ?mb" by (simp add: mailbox_ok_def Let_def up intro)
  moreover have "fed_ok h c ?mb" by (rule fed_same [OF parts(1), where m' = ?m']) simp_all
  moreover have "table_ok_for paths (left_ids (ts_history h)) ?m'" by (rule table_same [OF parts(3)]) simp_all
  moreover have "requests_ok ?mb" "asked_ok h ?mb"
    using ok pc none by (auto simp: associate_defs pc_ok_def intro up)
  ultimately show ?thesis using ok run by (intro exI [of _ ?n]) (simp add: associate_ok_def)
qed

section \<open>Calls of the user\<close>

lemma request_ok':
  assumes ok: "associate_ok paths h c mb" and own: "own (tm_nodeId (mb_manager mb)) msg" and ret: "0 \<le> ret"
    and subs: "dom S = dom (in_subscriptions (mb_node mb)) \<union> asks (tm_nodeId (mb_manager mb)) [msg]" "\<forall>t. S t \<noteq> Some None"
  shows "\<exists>n. on_manager (Send ret msg) (mb_node mb) = Inr n \<and>
    in_subscriptions n = in_subscriptions (mb_node mb) \<and> tm_nodeId (in_manager n) = tm_nodeId (mb_manager mb) \<and>
    tm_history (in_manager n) = tm_history (mb_manager mb) \<and>
    associate_ok paths h c (mb\<lparr>mb_node := n\<lparr>in_subscriptions := S\<rparr>,
      mb_up := mb_up mb @ sent_since (mb_node mb) (n\<lparr>in_subscriptions := S\<rparr>)\<rparr>)"
proof -
  let ?m = "mb_manager mb"
  define m' where "m' = (case tm_client ?m of
      None \<Rightarrow> ?m\<lparr>tm_backlog := tm_backlog ?m @ [msg], tm_locked := False\<rparr>
    | Some c \<Rightarrow> ?m\<lparr>tm_sent := tm_sent ?m @ [(c, msg, ret)], tm_locked := False\<rparr>)"
  let ?n = "(mb_node mb)\<lparr>in_manager := m'\<rparr>"
  let ?sent = "sent_since (mb_node mb) (?n\<lparr>in_subscriptions := S\<rparr>)"
  let ?mid = "mb\<lparr>mb_node := ?n, mb_up := mb_up mb @ ?sent\<rparr>"
  let ?mb = "mb\<lparr>mb_node := ?n\<lparr>in_subscriptions := S\<rparr>, mb_up := mb_up mb @ ?sent\<rparr>"
  have parts: "fed_ok h c mb" "mailbox_ok h c mb" "table_ok_for paths (left_ids (ts_history h)) ?m" and req: "requests_ok mb"
    using ok by (auto simp: associate_ok_def)
  have sent: "?sent = (if adopted (mb_pc mb) then [msg] else [])"
    using req ret by (simp add: sent_since_def requests_ok_def Let_def m'_def)
  have same: "tm_nodeId m' = tm_nodeId ?m" "introduce_node m' = introduce_node ?m" "tm_address m' = tm_address ?m"
    "tm_nodes m' = tm_nodes ?m" "tm_history m' = tm_history ?m" "\<not> tm_locked m'" "tm_client m' = tm_client ?m"
    "tm_backlog m' = tm_backlog ?m @ (if tm_client ?m = None then [msg] else [])"
    by (simp_all add: m'_def introduce_node_def split: option.split)
  have run: "on_manager (Send ret msg) (mb_node mb) = Inr ?n"
    unfolding m'_def using associate_unlocked [OF ok] ret by (rule on_manager_Send_eq)
  have "fed_ok h c ?mid" by (rule fed_same [OF parts(1), where m' = m']) (use same in simp_all)
  then have "fed_ok h c ?mb"
    using subs(2) same by (simp add: fed_ok_def node_wf_def node_sys_def neighbours.mirrors_def node_inv_def
        nbr_subs_def nbr_path_def)
  moreover have "mailbox_ok h c ?mb"
  proof (cases "adopted (mb_pc mb)")
    case True
    show ?thesis
      by (rule mailbox_add [OF parts(2), where msg = msg])
        (use same own True introduced_adopted [OF True] in \<open>simp_all add: sent\<close>)
  next
    case False
    show ?thesis
      by (rule mailbox_same [OF parts(2)]) (use same False in \<open>simp_all add: sent\<close>)
  qed
  moreover have "table_ok_for paths (left_ids (ts_history h)) m'" by (rule table_same [OF parts(3)]) (use same in simp_all)
  moreover have "requests_ok ?mb" using req own same by (auto simp: requests_ok_def Let_def)
  moreover have "asked_ok h ?mb"
    using ok req subs(1) same by (auto simp: associate_ok_def asked_ok_def requests_ok_def Let_def sent)
  ultimately have "associate_ok paths h c ?mb" using ok same by (simp add: associate_ok_def)
  with run same show ?thesis by (intro exI [of _ ?n]) simp
qed

section \<open>Reading\<close>

text \<open>A message says nothing of other nodes.\<close>

lemma read_other:
  assumes "msg_key x = Some (message_node_id x)" "j \<noteq> message_node_id x"
  shows "topology_step x V j = V j" "said paths (x # ms) j = said paths ms j"
proof -
  show "topology_step x V j = V j" using assms by (intro topology_other_key) simp
  have "asks j [x] = {}" using assms(2) by (intro asks_others) simp
  then have "asks j (x # ms) = asks j ms" using asks_simps(3) [of j "[x]" ms] by simp
  then show "said paths (x # ms) j = said paths ms j" using assms(2) by (auto simp: said_def)
qed

text \<open>Joining: a node of which nothing has been said yet, or of which it has been said before.\<close>

lemma read_join:
  assumes T: "table_view V i = said paths ms i"
    and closed: "\<And>y. y \<in> set ms \<Longrightarrow> message_node_id y = i \<Longrightarrow> \<exists>z\<in>set ms. joins z \<and> message_node_id z = i"
    and x: "entry_ok paths x" "joins x" "message_node_id x = i"
  shows "table_view (topology_step x V) i = said paths (x # ms) i"
proof -
  have none: "asks i [x] = {}" using x(2) by (auto simp: joins_def oneof_defs split: oneof_op.splits)
  then have asks: "asks i (x # ms) = asks i ms" using asks_simps(3) [of i "[x]" ms] by simp
  have "has_node_change x" "nc_op (node_change x) = JOIN" "nc_id (node_change x) = i"
    using x(2,3) by (auto simp: joins_def message_node_id_def)
  moreover have "paths i = Some (nc_address (node_change x))" using x by (auto simp: entry_ok_def)
  moreover have "asks i ms = {}" if "V i = None"
  proof -
    have "\<not> (\<exists>y\<in>set ms. joins y \<and> message_node_id y = i)"
      using T that by (auto simp: table_view_def said_def split: if_splits)
    with closed show ?thesis by (intro asks_others) blast
  qed
  ultimately show ?thesis
    using x T asks by (cases "V i") (auto simp: topology_step_node table_view_def said_def simp del: asks_simps(2) split: if_splits)
qed

text \<open>Anything else that is said of a node that has joined.\<close>

lemma read_told:
  assumes T: "table_view V i = said paths ms i" and known: "\<exists>y\<in>set ms. joins y \<and> message_node_id y = i"
    and x: "message_node_id x = i" "i \<noteq> 0" "\<not> joins x" "\<not> leaves x" "\<not> unsubscribes x"
  shows "table_view (topology_step x V) i = said paths (x # ms) i"
proof -
  have "table_view V i = Some (the (paths i), asks i ms)" using known T by (simp add: said_def)
  then obtain v where v: "V i = Some v" "nv_address v = the (paths i)" "nv_subs v = asks i ms"
    by (auto simp: table_view_def)
  have after: "said paths (x # ms) i = Some (the (paths i), asks i [x] \<union> asks i ms)"
    using known asks_simps(3) [of i "[x]" ms] by (auto simp: said_def simp del: asks_simps)
  show ?thesis
  proof (cases rule: oneof_exhaust [of x])
    case node
    then have "asks i [x] = {}" "nc_id (node_change x) = i" using x(1) by (simp_all add: message_node_id_def)
    moreover have "node_cell (node_change x) (Some v) = Some v"
      using node x(3,4) by (auto simp: joins_def leaves_def split: NodeOperation.splits)
    ultimately show ?thesis unfolding after using node v by (simp add: topology_step_node table_view_def)
  next
    case topic
    then have "tc_node_id (topic_change x) = i" using x(1) by (simp add: message_node_id_def)
    with topic x(5) v show ?thesis unfolding after
      by (auto simp: topology_step_topic table_view_def topic_cell_subs unsubscribes_def simp del: topic_cell.simps)
  qed (use x(1,2) in \<open>simp add: message_node_id_def\<close>)
qed

text \<open>The addresses in a table are the ones the nodes were created with.\<close>

lemma read_path:
  assumes old: "\<And>j v. V j = Some v \<Longrightarrow> paths j = Some (nv_address v)" and x: "entry_ok paths x" "paths_ok paths"
    and v: "topology_step x V j = Some v"
  shows "paths j = Some (nv_address v)"
proof (cases "j = message_node_id x")
  case False
  with v old read_other(1) [OF entry_node(3) [OF x] False, of V] show ?thesis by simp
next
  case True
  show ?thesis
  proof (cases "joins x \<and> V j = None")
    case new: True
    then have "nv_address v = nc_address (node_change x)"
      using v True by (auto simp: topology_step_node joins_def message_node_id_def)
    with new True x(1) show ?thesis by (auto simp: entry_ok_def)
  next
    case False
    have "\<exists>w. V j = Some w \<and> nv_address w = nv_address v"
    proof (cases rule: oneof_exhaust [of x])
      case node
      then show ?thesis using v True False
        by (auto simp: topology_step_node message_node_id_def joins_def split: NodeOperation.splits option.splits)
    next
      case topic
      then show ?thesis using v True by (auto simp: topology_step_topic message_node_id_def simp del: topic_cell.simps)
    qed (use entry_node(1) [OF x] in \<open>simp add: message_node_id_def\<close>)
    with old show ?thesis by fastforce
  qed
qed

text \<open>A message keeps table and history in step if its node is known to the history.\<close>

lemma table_read:
  assumes T: "table_ok_for paths left m" and paths: "paths_ok paths" and x: "entry_ok paths x" "\<not> unsubscribes x"
    and gone: "leaves x \<Longrightarrow> message_node_id x \<in> left"
    and open_node: "message_node_id x \<notin> left \<Longrightarrow> \<not> joins x \<Longrightarrow>
      \<exists>y\<in>set (tm_history m). joins y \<and> message_node_id y = message_node_id x"
    and m': "abs_topology m' = topology_step x (abs_topology m)" "set (tm_history m') = insert x (set (tm_history m))"
  shows "table_ok_for paths left m'"
proof -
  let ?i = "message_node_id x" and ?V = "abs_topology m" and ?ms = "tm_history m"
  have T1: "table_view ?V j = said paths ?ms j" if "j \<notin> left" for j using T that by (simp add: table_ok_for_def)
  have T2: "\<And>j v. ?V j = Some v \<Longrightarrow> paths j = Some (nv_address v)" using T by (simp add: table_ok_for_def)
  have T3: "\<exists>z\<in>set ?ms. joins z \<and> message_node_id z = message_node_id y" if "y \<in> set ?ms" "message_node_id y \<notin> left" for y
    using T that by (simp add: table_ok_for_def)
  have said: "said paths (tm_history m') j = said paths (x # ?ms) j" for j by (rule said_cong) (simp add: m'(2))
  have "table_view (abs_topology m') j = said paths (tm_history m') j" if j: "j \<notin> left" for j
  proof (cases "j = ?i")
    case False
    from read_other [OF entry_node(3) [OF x(1) paths] False] T1 [OF j] show ?thesis by (simp add: said m'(1) table_view_def)
  next
    case True
    show ?thesis
    proof (cases "joins x")
      case joins: True
      show ?thesis unfolding said m'(1)
        by (rule read_join [OF T1 [OF j] _ x(1) joins True [symmetric]]) (use T3 j in blast)
    next
      case False
      then show ?thesis unfolding said m'(1)
        using open_node j gone entry_node(1) [OF x(1) paths] x(2) True by (intro read_told [OF T1 [OF j]]) auto
    qed
  qed
  moreover have "\<exists>y\<in>set (tm_history m'). joins y \<and> message_node_id y = message_node_id z"
    if "z \<in> set (tm_history m')" "message_node_id z \<notin> left" for z
    using that T3 open_node unfolding m'(2) by (cases "z = x"; cases "joins x") auto
  ultimately show ?thesis unfolding table_ok_for_def m'(1) using read_path [OF T2 x(1) paths] by blast
qed

text \<open>What a member may rely on: the log, and that its connection carries messages of it in order.\<close>

definition surroundings_ok ::
  "(u64 \<rightharpoonup> string) \<Rightarrow> TopologyMessage set \<Rightarrow> TopologyServer \<Rightarrow> fd \<Rightarrow> bool" where
  "surroundings_ok paths K h c \<longleftrightarrow> paths_ok paths \<and> knowledge_ok paths K (ts_history h) \<and>
     set (stream c (ts_wire h)) \<subseteq> K \<and> sorted (map seq (stream c (ts_wire h))) \<and>
     (stream c (ts_wire h) \<noteq> [] \<longrightarrow> c \<in> fst ` set (ts_clients h))"

lemma joined_before:
  assumes around: "surroundings_ok paths K h c" and fed: "fed_ok h c mb" and down: "mb_down mb = msg # rest"
    and live: "message_node_id msg \<notin> left_ids (ts_history h)" "\<not> joins msg"
  shows "\<exists>y\<in>set (tm_history (mb_manager mb)). joins y \<and> message_node_id y = message_node_id msg"
proof -
  from fed down obtain read where stream: "stream c (ts_wire h) = read @ msg # rest"
    and sub: "set read \<subseteq> set (tm_history (mb_manager mb))" by (auto simp: fed_ok_def)
  have K: "knowledge_ok paths K (ts_history h)" and sorted: "sorted (map seq (read @ msg # rest))"
    and msg: "msg \<in> K" and c: "c \<in> fst ` set (ts_clients h)"
    using around by (auto simp: surroundings_ok_def stream)
  from knowledge_okD(9) [OF K msg live(1)] obtain y where y: "y \<in> K" "joins y" "message_node_id y = message_node_id msg"
    "seq y \<le> seq msg" by blast
  with knowledge_okD(6) [OF K y(1)] live(1) fed c have "y \<in> set (read @ msg # rest)"
    unfolding stream [symmetric] by (auto simp: fed_ok_def)
  moreover have "y \<noteq> msg" using y(2) live(2) by blast
  moreover have "y \<notin> set rest"
  proof
    assume "y \<in> set rest"
    then have "seq msg \<le> seq y" using sorted by (auto simp: sorted_append)
    with y(4) have "seq y = seq msg" by simp
    with knowledge_okD(2) [OF K] y(1) msg have "y = msg" by (auto dest: inj_onD)
    with y(2) live(2) show False by blast
  qed
  ultimately show ?thesis using sub y(2,3) by auto
qed

lemma set_insert_history [simp]: "set (insert_history m hist) = insert m (set hist)"
  by (simp add: insert_history_def set_vector_insert lower_bound_le)

lemma reads_ok':
  assumes ok: "associate_ok paths h c mb" and down: "mb_down mb = msg # rest" and around: "surroundings_ok paths K h c"
  shows "\<exists>n. deliver_update msg (mb_node mb) = Inr n \<and> tm_nodeId (in_manager n) = tm_nodeId (mb_manager mb) \<and>
    set (tm_history (in_manager n)) = insert msg (set (tm_history (mb_manager mb))) \<and>
    associate_ok paths h c (mb\<lparr>mb_node := n, mb_down := rest\<rparr>)"
proof -
  let ?m = "mb_manager mb" and ?mb = "\<lambda>n. mb\<lparr>mb_node := n, mb_down := rest\<rparr>"
  have fed: "fed_ok h c mb" and table: "table_ok_for paths (left_ids (ts_history h)) ?m" and box: "mailbox_ok h c mb"
    using ok by (auto simp: associate_ok_def)
  from fed down obtain read V where stream: "stream c (ts_wire h) = read @ msg # rest" "set read \<subseteq> set (tm_history ?m)"
    "abs_topology ?m = fold topology_step read V" by (auto simp: fed_ok_def)
  have K: "knowledge_ok paths K (ts_history h)" and paths: "paths_ok paths" and msg: "msg \<in> K"
    using around by (auto simp: surroundings_ok_def stream(1))
  note D = knowledge_okD [OF K]
  have wf: "node_wf (mb_node mb)" and sys: "node_sys (mb_node mb)" using fed by (auto simp: fed_ok_def node_wf_def)
  have "address_fits msg" using D(3) [OF msg] by (simp add: entry_ok_def)
  from deliver_update_outcome [OF sys this] obtain n where run: "deliver_update msg (mb_node mb) = Inr n"
    and d: "delivered_ok msg (mb_node mb) n" by (auto simp: outcome_total)
  note keep = deliver_update_manager [OF sys run]
  have hist: "set (tm_history (in_manager n)) = insert msg (set (tm_history ?m))" by (simp add: keep(3))
  have abs: "abs_topology (in_manager n) = topology_step msg (abs_topology ?m)" using d by (simp add: delivered_ok_def)
  have "same_address msg ?m"
  proof (clarsimp simp: same_address_abs split: option.split)
    fix v assume j: "joins msg" and v: "abs_topology ?m (nc_id (node_change msg)) = Some v"
    then have "message_node_id msg = nc_id (node_change msg)" by (simp add: joins_def message_node_id_def)
    with D(3) [OF msg] j v table show "nv_address v = nc_address (node_change msg)"
      by (auto simp: entry_ok_def table_ok_for_def)
  qed
  then have "nbr_path n = mgr_path (in_manager n)" using d fed by (simp add: delivered_ok_def fed_ok_def)
  moreover have "stream c (ts_wire h) = (read @ [msg]) @ rest" "set (read @ [msg]) \<subseteq> set (tm_history (in_manager n))"
    "abs_topology (in_manager n) = fold topology_step (read @ [msg]) V"
    using stream hist abs by auto
  moreover have "node_wf n" using d wf keep(2) by (simp add: node_wf_def delivered_ok_def)
  ultimately have "fed_ok h c (?mb n)" using fed unfolding fed_ok_def by auto
  moreover have "table_ok_for paths (left_ids (ts_history h)) (in_manager n)"
    by (rule table_read [OF table paths D(3) [OF msg] D(5) [OF msg] D(7) [OF msg] joined_before [OF around fed down] abs hist])
  moreover have frame: "tm_nodeId (in_manager n) = tm_nodeId ?m" "introduce_node (in_manager n) = introduce_node ?m"
    "tm_address (in_manager n) = tm_address ?m" "tm_client (in_manager n) = tm_client ?m"
    "tm_backlog (in_manager n) = tm_backlog ?m"
    using keep(1) by (simp_all add: same_frame_def introduce_node_def)
  moreover have "mailbox_ok h c (?mb n)" by (rule mailbox_same [OF box]) (use frame hist in auto)
  ultimately have "associate_ok paths h c (?mb n)"
    using ok keep(2) by (simp add: associate_ok_def requests_ok_def asked_ok_def Let_def)
  with run frame hist show ?thesis by (intro exI [of _ n]) simp
qed

section \<open>All steps of a node\<close>

lemma local_ok':
  assumes ok: "associate_ok paths h c mb" and wf: "node_wf n"
    and same: "in_manager n = mb_manager mb" "in_nodes n = in_nodes (mb_node mb)"
      "in_subscriptions n = in_subscriptions (mb_node mb)"
  shows "associate_ok paths h c (mb\<lparr>mb_node := n, mb_up := mb_up mb @ sent_since (mb_node mb) n\<rparr>)"
proof -
  have "nbr_path n = nbr_path (mb_node mb)" using same by (simp add: nbr_path_def)
  with assms show ?thesis by (simp add: associate_defs fed_ok_def sent_since_def)
qed

definition associate_kept :: "(u64 \<rightharpoonup> string) \<Rightarrow> TopologyMessage set \<Rightarrow> TopologyServer \<Rightarrow> fd \<Rightarrow> member \<Rightarrow> bool" where
  "associate_kept paths K h c mb \<longleftrightarrow> associate_ok paths h c mb \<and> surroundings_ok paths K h c \<and>
     set (tm_history (mb_manager mb)) \<subseteq> K"

interpretation associate: member_contract "associate_kept paths K h c" for paths K h c
proof
  fix mb and msg :: TopologyMessage and rest :: "TopologyMessage list" and ret :: int
    and S :: "string \<rightharpoonup> callback" and n
  assume kept: "associate_kept paths K h c mb"
  then have ok: "associate_ok paths h c mb" and around: "surroundings_ok paths K h c"
    and hist: "set (tm_history (mb_manager mb)) \<subseteq> K" and K: "knowledge_ok paths K (ts_history h)"
    by (auto simp: associate_kept_def surroundings_ok_def)
  show "pc_ok (mb_pc mb)" "node_wf (mb_node mb)" using ok by (simp_all add: associate_ok_def requests_ok_def fed_ok_def Let_def)
  show "associate_kept paths K h c (mb\<lparr>mb_pc := Introduce 0\<rparr>)" if "mb_pc mb = At_top"
    using connects_ok' [OF ok that] around hist by (simp add: associate_kept_def)
  show "\<exists>n. on_manager (IntroduceOurselves 0) (mb_node mb) = Inr n \<and> same_identity mb n \<and>
      associate_kept paths K h c (mb\<lparr>mb_pc := Adopt 0, mb_node := n, mb_up := mb_up mb @ introduced_since (mb_node mb) n\<rparr>)"
    if "mb_pc mb = Introduce 0"
    using introduces_ok' [OF ok that K hist] around hist by (auto simp: associate_kept_def same_identity_def)
  show "\<exists>b m. adopt_client 0 (mb_manager mb) = Inr (b, m) \<and> tm_nodeId m = tm_nodeId (mb_manager mb) \<and>
      associate_kept paths K h c (mb\<lparr>mb_pc := Flush 0 b, mb_node := (mb_node mb)\<lparr>in_manager := m\<rparr>\<rparr>)"
    if "mb_pc mb = Adopt 0" using adopts_ok' [OF ok that] around hist by (auto simp: associate_kept_def)
  show "\<exists>n. on_manager (Send ret msg) (mb_node mb) = Inr n \<and> same_identity mb n \<and> associate_kept paths K h c
      (mb\<lparr>mb_pc := Flush 0 rest, mb_node := n, mb_up := mb_up mb @ sent_since (mb_node mb) n\<rparr>)"
    if "mb_pc mb = Flush 0 (msg # rest)" "0 \<le> ret"
    using flushes_ok' [OF ok that] around hist by (auto simp: associate_kept_def same_identity_def)
  show "associate_kept paths K h c (mb\<lparr>mb_pc := Calling_wait 0\<rparr>)" if "mb_pc mb = Flush 0 []"
    using flushed_ok' [OF ok that] around hist by (simp add: associate_kept_def)
  show "wait_on_client (mb_manager mb) = Inr (mb_manager mb) \<and> associate_kept paths K h c (mb\<lparr>mb_pc := Waiting 0\<rparr>)"
    if "mb_pc mb = Calling_wait 0" using waits_ok' [OF ok that] around hist by (simp add: associate_kept_def)
  show "\<exists>n. deliver_update msg (mb_node mb) = Inr n \<and> same_identity mb n \<and>
      associate_kept paths K h c (mb\<lparr>mb_node := n, mb_down := rest\<rparr>)" if down: "mb_down mb = msg # rest"
  proof -
    have "msg \<in> set (stream c (ts_wire h))" using ok down by (auto simp: associate_ok_def fed_ok_def)
    then have "msg \<in> K" using around by (auto simp: surroundings_ok_def)
    with reads_ok' [OF ok down around] around hist show ?thesis by (auto simp: associate_kept_def same_identity_def)
  qed
  show "\<exists>n. on_manager (Send ret msg) (mb_node mb) = Inr n \<and> in_subscriptions n = in_subscriptions (mb_node mb) \<and>
      same_identity mb n \<and> associate_kept paths K h c (mb\<lparr>mb_node := n\<lparr>in_subscriptions := S\<rparr>,
        mb_up := mb_up mb @ sent_since (mb_node mb) (n\<lparr>in_subscriptions := S\<rparr>)\<rparr>)"
    if "own (tm_nodeId (mb_manager mb)) msg" "0 \<le> ret" "dom S = dom (in_subscriptions (mb_node mb)) \<union>
      asks (tm_nodeId (mb_manager mb)) [msg]" "\<forall>t. S t \<noteq> Some None"
    using request_ok' [OF ok that] around hist by (auto simp: associate_kept_def same_identity_def)
  show "associate_kept paths K h c (mb\<lparr>mb_node := n, mb_up := mb_up mb @ sent_since (mb_node mb) n\<rparr>)"
    if "node_wf n" "in_manager n = mb_manager mb" "in_nodes n = in_nodes (mb_node mb)"
      "in_subscriptions n = in_subscriptions (mb_node mb)"
    using local_ok' [OF ok that] around hist that by (simp add: associate_kept_def)
qed

end
