(* ===== verification/RestartHub.thy ===== *)
theory RestartHub
  imports RestartSteps
begin

text \<open>
  The invariant of a group whose hub may die, and the steps of the hub.
\<close>

section \<open>The invariant of the group\<close>

definition associates_ok :: "system \<Rightarrow> bool" where
  "associates_ok s \<longleftrightarrow> finite (dom (sy_members s)) \<and> dom (sy_members s) \<subseteq> sy_used s \<and>
     fst ` set (ts_clients (sy_hub s)) \<subseteq> dom (sy_members s) \<and>
     (\<forall>c mb. sy_members s c = Some mb \<longrightarrow> associate_ok (sy_paths s) (sy_hub s) c mb) \<and>
     (\<forall>c d mb mb'. sy_members s c = Some mb \<longrightarrow> sy_members s d = Some mb' \<longrightarrow>
       tm_nodeId (mb_manager mb) = tm_nodeId (mb_manager mb') \<longrightarrow> c = d)"

definition group_inv :: "nat \<Rightarrow> system \<Rightarrow> bool" where
  "group_inv k s \<longleftrightarrow>
     hub_inv False k (fst ` set (ts_clients (sy_hub s))) (taken s) (sy_hub s) \<and>
     paths_ok (sy_paths s) \<and> knowledge_ok (sy_paths s) (group_log s) (ts_history (sy_hub s)) \<and> associates_ok s"

lemma associates_okD:
  assumes "associates_ok s"
  shows "finite (dom (sy_members s))" "dom (sy_members s) \<subseteq> sy_used s"
    "fst ` set (ts_clients (sy_hub s)) \<subseteq> dom (sy_members s)"
    "sy_members s c = Some mb \<Longrightarrow> associate_ok (sy_paths s) (sy_hub s) c mb"
    "sy_members s c = Some mb \<Longrightarrow> sy_members s d = Some mb' \<Longrightarrow>
      tm_nodeId (mb_manager mb) = tm_nodeId (mb_manager mb') \<Longrightarrow> c = d"
  using assms unfolding associates_ok_def by blast+

lemma group_hub:
  assumes "group_inv k s"
  shows "hub_inv False k (fst ` set (ts_clients (sy_hub s))) (taken s) (sy_hub s)"
    "fst ` set (ts_clients (sy_hub s)) \<subseteq> taken s"
    "settled {} (ts_history (sy_hub s))" "no_zero_topic (ts_history (sy_hub s))"
    "1 \<notin> left_ids (ts_history (sy_hub s))" "ordered False (ts_history (sy_hub s))"
    "knowledge_ok (sy_paths s) (group_log s) (ts_history (sy_hub s))" "associates_ok s" "paths_ok (sy_paths s)"
proof -
  let ?h = "sy_hub s"
  show I: "hub_inv False k (fst ` set (ts_clients ?h)) (taken s) ?h" and mem: "associates_ok s"
    and K: "knowledge_ok (sy_paths s) (group_log s) (ts_history ?h)" and paths: "paths_ok (sy_paths s)"
    using assms by (auto simp: group_inv_def)
  then show "settled {} (ts_history ?h)" "no_zero_topic (ts_history ?h)" "ordered False (ts_history ?h)"
    by (auto simp: hub_inv_def hub_ok_def)
  show "fst ` set (ts_clients ?h) \<subseteq> taken s" using associates_okD(2,3) [OF mem] unfolding taken_def by blast
  show "1 \<notin> left_ids (ts_history ?h)" by (rule knowledge_one [OF K paths])
qed

lemma group_log_mem:
  "x \<in> set (ts_history (sy_hub s)) \<Longrightarrow> x \<in> group_log s"
  "x \<in> snd ` set (ts_wire (sy_hub s)) \<Longrightarrow> x \<in> group_log s"
  "sy_members s c = Some mb \<Longrightarrow> set (tm_history (mb_manager mb)) \<subseteq> group_log s"
  by (auto simp: group_log_def all_messages_def ran_def)

lemma all_messages_log: "all_messages (sy_hub s) \<subseteq> group_log s"
  by (simp add: group_log_def)

lemma associate_keptD:
  assumes inv: "group_inv k s" and mb: "sy_members s c = Some mb"
  shows "associate_kept (sy_paths s) (group_log s) (sy_hub s) c mb"
proof -
  let ?h = "sy_hub s"
  note hub = group_hub [OF inv]
  have none: "stream c (ts_wire ?h) = []" if "c \<notin> fst ` set (ts_clients ?h)"
    using hub(1) mb that by (intro stream_empty) (auto simp: hub_inv_def taken_def)
  moreover have "view_ok False ?h c" if "c \<in> fst ` set (ts_clients ?h)" using hub(1) that unfolding hub_inv_def by blast
  then have "sorted (map seq (stream c (ts_wire ?h)))" if "c \<in> fst ` set (ts_clients ?h)"
    using that by (auto simp: view_ok_def ordered_sorted)
  moreover have "set (stream c (ts_wire ?h)) \<subseteq> group_log s"
    using group_log_mem(2) by (auto simp: stream_def)
  ultimately show ?thesis
    using hub group_log_mem(3) [OF mb] associates_okD(4) [OF hub(8) mb]
    unfolding associate_kept_def surroundings_ok_def by (cases "c \<in> fst ` set (ts_clients ?h)") auto
qed

lemma associateD: "group_inv k s \<Longrightarrow> sy_members s c = Some mb \<Longrightarrow> associate_ok (sy_paths s) (sy_hub s) c mb"
  using associate_keptD by (auto simp: associate_kept_def)

section \<open>Steps of the nodes\<close>

lemma set_associate_inv:
  assumes inv: "group_inv k s" and mb: "sy_members s c = Some mb"
    and ok: "associate_kept (sy_paths s) (group_log s) (sy_hub s) c mb'"
    and id: "tm_nodeId (mb_manager mb') = tm_nodeId (mb_manager mb)"
  shows "group_inv k (set_member c mb' s)"
proof -
  let ?s = "set_member c mb' s"
  note hub = group_hub [OF inv]
  have proj: "sy_hub ?s = sy_hub s" "sy_paths ?s = sy_paths s" "sy_used ?s = sy_used s"
    "sy_members ?s = (sy_members s)(c \<mapsto> mb')" by (simp_all add: set_member_def)
  have "taken ?s = taken s" using mb by (auto simp: taken_def set_member_def)
  moreover have "ran ((sy_members s)(c \<mapsto> mb')) \<subseteq> insert mb' (ran (sy_members s))" by (auto simp: ran_def)
  then have "group_log ?s \<subseteq> group_log s"
    using ok unfolding associate_kept_def by (auto simp: group_log_def proj)
  then have "knowledge_ok (sy_paths s) (group_log ?s) (ts_history (sy_hub s))"
    by (rule knowledge_shrink [OF hub(7)]) (auto simp: group_log_def all_messages_def proj)
  moreover have "associates_ok ?s"
    using hub(8) mb id ok unfolding associates_ok_def proj associate_kept_def
    by (simp add: insert_absorb domI) (metis (no_types, lifting) option.inject)
  ultimately show ?thesis using hub by (simp add: group_inv_def proj)
qed

lemma node_step_group:
  assumes inv: "group_inv k s" and mb: "sy_members s c = Some mb" and step: "node_step dparse dser mb mb'"
  shows "group_inv k (set_member c mb' s)"
  using associate.node_step_ok [OF step associate_keptD [OF inv mb]] by (intro set_associate_inv [OF inv mb]) auto

lemma call_group:
  assumes inv: "group_inv k s" and mb: "sy_members s c = Some mb" and call: "user_call u"
    "run_call dparse dser u (mb_node mb) = Inr n"
  shows "group_inv k (set_member c (mb\<lparr>mb_node := n, mb_up := mb_up mb @ sent_since (mb_node mb) n\<rparr>) s)"
  using associate.calls_ok [OF associate_keptD [OF inv mb] call(1), of dparse dser] call(2)
  by (intro set_associate_inv [OF inv mb]) (auto simp: same_identity_def)

section \<open>What a step of the hub has to keep\<close>

lemma asks_prune:
  assumes "i \<notin> left_ids ms" "1 \<notin> left_ids ms" "i \<noteq> 0"
  shows "asks i (prune ms) = asks i ms"
proof
  show "asks i (prune ms) \<subseteq> asks i ms" using set_prune [of ms] unfolding asks_def by blast
  show "asks i ms \<subseteq> asks i (prune ms)"
  proof
    fix t assume "t \<in> asks i ms"
    then obtain x where x: "t = tc_name (topic_change x)" "x \<in> set ms" "has_topic_change x"
      "tc_node_id (topic_change x) = i" "tc_op (topic_change x) = SUBSCRIBE" unfolding asks_def by blast
    then have "message_node_id x = i" by (cases rule: oneof_exhaust [of x]) (simp_all add: message_node_id_def)
    with x(2) assms have "x \<in> set (prune ms)" by (intro live_kept) auto
    with x show "t \<in> asks i (prune ms)" unfolding asks_def by blast
  qed
qed

text \<open>What is on its way to a member grows by what the hub writes to it.\<close>

lemma fed_moves:
  assumes fed: "fed_ok h d mb" and wire: "ts_wire h' = ts_wire h @ w"
    and complete: "d \<in> fst ` set (ts_clients h') \<Longrightarrow> \<forall>x\<in>set (ts_history h'). message_node_id x \<notin> left_ids (ts_history h') \<longrightarrow>
      x \<in> set (stream d (ts_wire h'))"
    and same: "mb_node mb' = mb_node mb" "mb_down mb' = mb_down mb @ stream d w"
  shows "fed_ok h' d mb'"
proof -
  from fed obtain read V where "stream d (ts_wire h) = read @ mb_down mb" "set read \<subseteq> set (tm_history (mb_manager mb))"
    "abs_topology (mb_manager mb) = fold topology_step read V" unfolding fed_ok_def by blast
  then have "\<exists>read V. stream d (ts_wire h') = read @ mb_down mb' \<and> set read \<subseteq> set (tm_history (mb_manager mb')) \<and>
      abs_topology (mb_manager mb') = fold topology_step read V"
    by (intro exI [of _ read] exI [of _ V]) (simp add: wire same)
  then show ?thesis using fed complete unfolding fed_ok_def same(1) by blast
qed

lemma table_moves: "table_ok_for paths left m \<Longrightarrow> left \<subseteq> left' \<Longrightarrow> table_ok_for paths left' m"
  unfolding table_ok_for_def by blast

lemma associate_moves:
  assumes ok: "associate_ok paths h d mb" and wire: "ts_wire h' = ts_wire h @ w"
    and complete: "d \<in> fst ` set (ts_clients h') \<Longrightarrow> \<forall>x\<in>set (ts_history h'). message_node_id x \<notin> left_ids (ts_history h') \<longrightarrow>
      x \<in> set (stream d (ts_wire h'))"
    and seen: "heard h' d = heard h d" "\<And>i. believed h d = Some i \<Longrightarrow> believed h' d = Some i \<or> still_introducing (mb_manager mb) (mb_up mb)"
    and left: "left_ids (ts_history h) \<subseteq> left_ids (ts_history h')" "tm_nodeId (mb_manager mb) \<notin> left_ids (ts_history h')"
    and live: "\<And>x. x \<in> set (ts_history h) \<Longrightarrow> message_node_id x = tm_nodeId (mb_manager mb) \<Longrightarrow> x \<in> set (ts_history h')"
    and asks: "asks (tm_nodeId (mb_manager mb)) (ts_history h') = asks (tm_nodeId (mb_manager mb)) (ts_history h)"
  shows "associate_ok paths h' d (mb\<lparr>mb_down := mb_down mb @ stream d w\<rparr>)"
proof -
  let ?mb = "mb\<lparr>mb_down := mb_down mb @ stream d w\<rparr>"
  have "fed_ok h' d ?mb"
    by (rule fed_moves [OF _ wire complete, of mb]) (use ok in \<open>simp_all add: associate_ok_def\<close>)
  moreover have "table_ok_for paths (left_ids (ts_history h')) (mb_manager mb)"
    by (rule table_moves [OF _ left(1)]) (use ok in \<open>simp add: associate_ok_def\<close>)
  moreover have "mailbox_ok h' d ?mb"
    using ok seen(2) live by (auto simp: associate_ok_def mailbox_ok_def Let_def split: if_splits)
  moreover have "asked_ok h' ?mb" using ok asks by (simp add: associate_ok_def asked_ok_def)
  ultimately show ?thesis
    using ok left(2) live seen(1) by (auto simp: associate_ok_def requests_ok_def)
qed

lemma hub_moves_group:
  assumes inv: "group_inv k0 s" and wire: "ts_wire h' = ts_wire (sy_hub s) @ w"
    and others: "\<forall>d. d \<noteq> c \<longrightarrow> M d = sy_members s d"
    and same: "\<And>mb. M c = Some mb \<Longrightarrow> \<exists>mb0. sy_members s c = Some mb0 \<and> mb_node mb = mb_node mb0"
    and hub: "hub_inv False k (fst ` set (ts_clients h')) (taken (hub_moves h' (s\<lparr>sy_members := M\<rparr>))) h'"
      "fst ` set (ts_clients h') \<subseteq> dom M"
    and K: "knowledge_ok (sy_paths s) (group_log s \<union> ms) (ts_history h')" "all_messages h' \<subseteq> group_log s \<union> ms"
    and ok: "\<And>d mb. M d = Some mb \<Longrightarrow> associate_ok (sy_paths s) h' d (mb\<lparr>mb_down := mb_down mb @ stream d w\<rparr>)"
  shows "group_inv k (hub_moves h' (s\<lparr>sy_members := M\<rparr>))"
proof -
  let ?s = "hub_moves h' (s\<lparr>sy_members := M\<rparr>)"
  note old = group_hub [OF inv]
  have down: "drop (length (ts_wire (sy_hub s))) (ts_wire h') = w" by (simp add: wire)
  have mem: "sy_members ?s = (\<lambda>d. map_option (\<lambda>mb. mb\<lparr>mb_down := mb_down mb @ stream d w\<rparr>) (M d))"
    by (simp add: hub_moves_def down)
  have ids: "\<exists>mb0. sy_members s d = Some mb0 \<and> mb_node mb = mb_node mb0" if "M d = Some mb" for d mb
    using that others same by (cases "d = c") auto
  have dom: "dom (sy_members ?s) = dom M" "dom M \<subseteq> dom (sy_members s)"
    using ids by (auto simp: mem)
  have proj: "sy_hub ?s = h'" "sy_used ?s = sy_used s" "sy_paths ?s = sy_paths s" by (simp_all add: hub_moves_def)
  have "set (tm_history (mb_manager mb)) \<subseteq> group_log s" if "mb \<in> ran (sy_members ?s)" for mb
  proof -
    from that obtain d x where "M d = Some x" "mb_node mb = mb_node x" by (auto simp: mem ran_def)
    with ids [of d x] group_log_mem(3) show ?thesis by metis
  qed
  then have log: "group_log ?s \<subseteq> group_log s \<union> ms" using K(2) by (auto simp: group_log_def [of ?s] proj)
  then have "knowledge_ok (sy_paths s) (group_log ?s) (ts_history h')"
    by (rule knowledge_shrink [OF K(1)]) (auto simp: group_log_def all_messages_def proj)
  moreover have "c' = d" if "sy_members ?s c' = Some mb" "sy_members ?s d = Some mb'"
    "tm_nodeId (mb_manager mb) = tm_nodeId (mb_manager mb')" for c' d mb mb'
  proof -
    from that obtain x y where "M c' = Some x" "M d = Some y" "tm_nodeId (mb_manager x) = tm_nodeId (mb_manager y)"
      by (auto simp: mem)
    with ids [of c' x] ids [of d y] associates_okD(5) [OF old(8)] show ?thesis by metis
  qed
  moreover have "associate_ok (sy_paths s) h' d mb" if "sy_members ?s d = Some mb" for d mb
    using that ok by (auto simp: mem)
  moreover have "finite (dom (sy_members ?s))" "dom (sy_members ?s) \<subseteq> sy_used s"
    "fst ` set (ts_clients h') \<subseteq> dom (sy_members ?s)"
    using associates_okD(1,2) [OF old(8)] dom hub(2) by (auto intro: finite_subset)
  ultimately have "associates_ok ?s" "knowledge_ok (sy_paths s) (group_log ?s) (ts_history h')"
    unfolding associates_ok_def proj by blast+
  then show ?thesis using hub(1) old(9) by (simp add: group_inv_def proj)
qed

section \<open>The hub accepts a connection\<close>

lemma accept_group:
  assumes inv: "group_inv (Suc k) s" and mb: "sy_members s c = Some mb" and new: "c \<notin> fst ` set (ts_clients (sy_hub s))"
    and run: "OnConnect c (sy_hub s) = Inr h'"
  shows "group_inv k (hub_moves h' s)"
proof -
  let ?h = "sy_hub s"
  let ?w = "map (Pair c) (ts_history ?h)"
  note hub = group_hub [OF inv]
  have c: "map_of (ts_clients ?h) c = None" using new by (simp add: map_of_eq_None_iff)
  have h': "h' = ?h\<lparr>ts_clients := ts_clients ?h @ [(c, default_Client\<lparr>cl_seq := last_seq (ts_history ?h)\<rparr>)],
      ts_wire := ts_wire ?h @ ?w\<rparr>"
    using OnConnect_eq [OF ordered_sorted [OF hub(6)] c] run by simp
  have seen: "heard h' d = heard ?h d" "d \<noteq> c \<Longrightarrow> believed h' d = believed ?h d" "believed ?h c = None" for d
    by (cases "map_of (ts_clients ?h) d"; auto simp: h' heard_def believed_def default_Client_def c map_add_def)+
  have proj: "ts_history h' = ts_history ?h" "ts_wire h' = ts_wire ?h @ ?w" by (simp_all add: h')
  have free: "c \<notin> taken s" using mb new by (auto simp: taken_def)
  from OnConnect_outcome [OF hub(1,2) this] run
  have "hub_inv False k (insert c (fst ` set (ts_clients ?h))) (insert c (taken s)) h'" by simp
  moreover have dom: "fst ` set (ts_clients h') = insert c (fst ` set (ts_clients ?h))" by (simp add: h')
  moreover have "insert c (taken s) \<subseteq> taken (hub_moves h' (s\<lparr>sy_members := sy_members s\<rparr>))"
    using associates_okD(2) [OF hub(8)] mb unfolding taken_hub_moves dom by (auto simp: taken_def)
  ultimately have hub': "hub_inv False k (fst ` set (ts_clients h')) (taken (hub_moves h' (s\<lparr>sy_members := sy_members s\<rparr>))) h'"
    by (auto intro: hub_inv_used)
  have empty: "stream c (ts_wire ?h) = []" using hub(1) free by (intro stream_empty) (auto simp: hub_inv_def)
  have "group_inv k (hub_moves h' (s\<lparr>sy_members := sy_members s\<rparr>))"
  proof (rule hub_moves_group [OF inv _ _ _ hub', where c = c and w = ?w and ms = "{}"])
    show "knowledge_ok (sy_paths s) (group_log s \<union> {}) (ts_history h')" using hub(7) by (simp add: proj)
    show "all_messages h' \<subseteq> group_log s \<union> {}"
      using all_messages_log [of s] by (auto simp: all_messages_def proj)
    show "fst ` set (ts_clients h') \<subseteq> dom (sy_members s)" using dom associates_okD(3) [OF hub(8)] mb by auto
    show "associate_ok (sy_paths s) h' d (mb'\<lparr>mb_down := mb_down mb' @ stream d ?w\<rparr>)" if d: "sy_members s d = Some mb'" for d mb'
    proof (rule associate_moves [OF associateD [OF inv d] proj(2)])
      assume con: "d \<in> fst ` set (ts_clients h')"
      show "\<forall>x\<in>set (ts_history h'). message_node_id x \<notin> left_ids (ts_history h') \<longrightarrow> x \<in> set (stream d (ts_wire h'))"
      proof (cases "d = c")
        case True
        then show ?thesis by (simp add: proj empty)
      next
        case False
        with con have "d \<in> fst ` set (ts_clients ?h)" by (auto simp: dom)
        with associateD [OF inv d] show ?thesis by (auto simp: associate_ok_def fed_ok_def proj)
      qed
    qed (use associateD [OF inv d] seen in \<open>auto simp: proj associate_ok_def\<close>, metis option.distinct(1))
  qed (use proj in auto)
  then show ?thesis by simp
qed

section \<open>The hub changes its history\<close>

text \<open>
  The handlers that prune and broadcast: \<open>ms\<close> is what they add, \<open>c\<close> the member they are about. What
  they do to the others is the same for all of them.
\<close>

lemma commit_group:
  assumes inv: "group_inv k0 s" and add: "addable (sy_paths s) (group_log s) (ts_history (sy_hub s)) ms"
    and h': "h' = synced (ts_history (sy_hub s)) ms h1" and h1: "ts_wire h1 = ts_wire (sy_hub s)"
      "fst ` set (ts_clients h1) \<subseteq> fst ` set (ts_clients (sy_hub s))" "distinct (map fst (ts_clients h1))"
    and others: "\<forall>d. d \<noteq> c \<longrightarrow> M d = sy_members s d"
    and same: "\<And>mb. M c = Some mb \<Longrightarrow> \<exists>mb0. sy_members s c = Some mb0 \<and> mb_node mb = mb_node mb0 \<and> mb_down mb = mb_down mb0"
    and hub: "hub_inv False k (fst ` set (ts_clients h')) (taken (hub_moves h' (s\<lparr>sy_members := M\<rparr>))) h'"
      "fst ` set (ts_clients h1) \<subseteq> dom M"
    and seen: "\<And>d mb. d \<noteq> c \<Longrightarrow> M d = Some mb \<Longrightarrow> heard h1 d = heard (sy_hub s) d \<and> believed h1 d = believed (sy_hub s) d \<and>
      (\<forall>m\<in>set ms. message_node_id m \<noteq> tm_nodeId (mb_manager mb))"
    and self: "\<And>mb w. M c = Some mb \<Longrightarrow> fed_ok h' c (mb\<lparr>mb_down := mb_down mb @ w\<rparr>) \<Longrightarrow>
      (\<And>x. x \<in> set (ts_history (sy_hub s)) \<Longrightarrow> message_node_id x = tm_nodeId (mb_manager mb) \<Longrightarrow> x \<in> set (ts_history h')) \<Longrightarrow>
      asks (tm_nodeId (mb_manager mb)) (ts_history h') =
        asks (tm_nodeId (mb_manager mb)) (ts_history (sy_hub s)) \<union> asks (tm_nodeId (mb_manager mb)) ms \<Longrightarrow>
      associate_ok (sy_paths s) h' c (mb\<lparr>mb_down := mb_down mb @ w\<rparr>)"
    and stays: "\<And>mb. M c = Some mb \<Longrightarrow> tm_nodeId (mb_manager mb) \<notin> left_ids ms"
  shows "group_inv k (hub_moves h' (s\<lparr>sy_members := M\<rparr>))"
proof -
  let ?h = "sy_hub s"
  note old = group_hub [OF inv]
  have kept: "kept (ts_history ?h) ms = ms" by (rule addable_kept [OF add old(7,9)])
  have hist: "ts_history h' = prune (ts_history ?h @ ms)" by (simp add: h')
  have K: "knowledge_ok (sy_paths s) (group_log s \<union> set ms) (ts_history h')"
    unfolding hist by (rule knowledge_add [OF old(7,9,3) add])
  have left: "left_ids (ts_history h') = left_ids (ts_history ?h) \<union> left_ids ms" by (simp add: hist)
  have one: "1 \<notin> left_ids (ts_history ?h @ ms)" using knowledge_one [OF K old(9)] left by simp
  obtain w where wire: "ts_wire h' = ts_wire ?h @ w" using synced_wire [of "ts_history ?h" ms h1] h1(1) by (auto simp: h')
  have clients: "fst ` set (ts_clients h') = fst ` set (ts_clients h1)" by (simp add: h')
  have stream: "stream d (ts_wire h') = stream d (ts_wire ?h) @ (if d \<in> fst ` set (ts_clients h1) then ms else [])" for d
    using stream_synced [OF h1(3), of d "ts_history ?h" ms] by (simp add: h' h1(1) kept)
  have "all_messages h' \<subseteq> all_messages ?h \<union> set ms"
    using synced_messages [of ?h ms h1] unfolding h' h1(1) by (auto simp: all_messages_def)
  then have sub: "all_messages h' \<subseteq> group_log s \<union> set ms" using all_messages_log [of s] by blast
  have live: "x \<in> set (ts_history h')" if "x \<in> set (ts_history ?h @ ms)" "message_node_id x \<notin> left_ids (ts_history h')" for x
  proof -
    have "x \<in> group_log s \<union> set ms" using that(1) group_log_mem(1) by auto
    with entry_node(1) [OF knowledge_okD(3) [OF K] old(9)] that left one show ?thesis unfolding hist by (intro live_kept) auto
  qed
  have member: "\<exists>mb0. sy_members s d = Some mb0 \<and> mb_node mb = mb_node mb0 \<and> mb_down mb = mb_down mb0" if "M d = Some mb" for d mb
    using that others same by (cases "d = c") auto
  have id: "tm_nodeId (mb_manager mb) \<notin> left_ids (ts_history h')" "tm_nodeId (mb_manager mb) \<noteq> 0" if d: "M d = Some mb" for d mb
  proof -
    from member [OF d] obtain mb0 where mb0: "sy_members s d = Some mb0" "mb_node mb = mb_node mb0" by blast
    from associateD [OF inv mb0(1)] mb0(2) old(9) show "tm_nodeId (mb_manager mb) \<noteq> 0"
      by (auto simp: associate_ok_def paths_ok_def)
    have "tm_nodeId (mb_manager mb) \<notin> left_ids ms"
      using stays seen [of d mb] d left_ids_message by (cases "d = c") blast+
    with associateD [OF inv mb0(1)] mb0(2) show "tm_nodeId (mb_manager mb) \<notin> left_ids (ts_history h')"
      by (simp add: associate_ok_def left)
  qed
  have asks: "asks (tm_nodeId (mb_manager mb)) (ts_history h') =
      asks (tm_nodeId (mb_manager mb)) (ts_history ?h) \<union> asks (tm_nodeId (mb_manager mb)) ms" if d: "M d = Some mb" for d mb
    using id [OF d] one unfolding hist left by (subst asks_prune) auto
  have complete: "\<forall>x\<in>set (ts_history h'). message_node_id x \<notin> left_ids (ts_history h') \<longrightarrow> x \<in> set (stream d (ts_wire h'))"
    if d: "M d = Some mb" "d \<in> fst ` set (ts_clients h')" for d mb
  proof -
    from member [OF d(1)] obtain mb0 where mb0: "sy_members s d = Some mb0" by blast
    have "d \<in> fst ` set (ts_clients ?h)" "d \<in> fst ` set (ts_clients h1)" using d(2) h1(2) clients by auto
    with associateD [OF inv mb0] set_prune [of "ts_history ?h @ ms"] show ?thesis
      unfolding stream hist by (auto simp: associate_ok_def fed_ok_def)
  qed
  show ?thesis
  proof (rule hub_moves_group [OF inv wire others _ hub(1) _ K sub])
    show "\<exists>mb0. sy_members s c = Some mb0 \<and> mb_node mb = mb_node mb0" if "M c = Some mb" for mb using same [OF that] by blast
    show "fst ` set (ts_clients h') \<subseteq> dom M" using hub(2) by (simp add: clients)
    show "associate_ok (sy_paths s) h' d (mb\<lparr>mb_down := mb_down mb @ stream d w\<rparr>)" if d: "M d = Some mb" for d mb
    proof (cases "d = c")
      case False
      have mb: "sy_members s d = Some mb" using d others False by simp
      note ok = associateD [OF inv mb]
      show ?thesis
      proof (rule associate_moves [OF ok wire complete [OF d]])
        show "asks (tm_nodeId (mb_manager mb)) (ts_history h') = asks (tm_nodeId (mb_manager mb)) (ts_history ?h)"
          using asks [OF d] seen [OF False d] asks_others [of ms] by auto
      qed (use seen [OF False d] id [OF d] live in \<open>auto simp: h' left\<close>)
    next
      case True
      from member [OF d] obtain mb0 where mb0: "sy_members s d = Some mb0" "mb_node mb = mb_node mb0" "mb_down mb = mb_down mb0" by blast
      have "fed_ok h' d (mb\<lparr>mb_down := mb_down mb @ stream d w\<rparr>)"
        by (rule fed_moves [OF _ wire complete [OF d], of mb0])
          (use associateD [OF inv mb0(1)] mb0 in \<open>simp_all add: associate_ok_def\<close>)
      then show ?thesis unfolding True
        by (rule self [OF d [unfolded True]]) (use live id [OF d] asks [OF d] in auto)
    qed
  qed
qed

section \<open>The hub reads a message\<close>

text \<open>
  The common part of the three cases: \<open>ms\<close> is what the message \<open>parse bs\<close> of the member \<open>c\<close> has added
  to the history, nothing or itself.
\<close>

text \<open>What it says is said of the member itself.\<close>

definition told :: "TopologyServer \<Rightarrow> TopologyServer \<Rightarrow> u64 \<Rightarrow> bool" where
  "told h h' i \<longleftrightarrow> set (ts_history h') \<subseteq> set (ts_history h) \<union> {x. message_node_id x = i} \<and>
     left_ids (ts_history h') = left_ids (ts_history h)"

lemma read_group:
  assumes inv: "group_inv (Suc k) s" and mb: "sy_members s c = Some mb"
    and cl: "map_of (ts_clients (sy_hub s)) c = Some cl"
    and add: "addable (sy_paths s) (group_log s) (ts_history (sy_hub s)) ms"
    and ms: "\<forall>m\<in>set ms. message_node_id m = tm_nodeId (mb_manager mb) \<and> \<not> leaves m"
    and h': "h' = synced (ts_history (sy_hub s)) ms h1" "ts_wire h1 = ts_wire (sy_hub s)"
      "fst ` set (ts_clients h1) = fst ` set (ts_clients (sy_hub s))" "distinct (map fst (ts_clients h1))"
      "map_of (ts_clients h1) = (map_of (ts_clients (sy_hub s)))(c \<mapsto> cl')"
    and hub: "hub_inv False k (fst ` set (ts_clients (sy_hub s))) (taken s) h'"
    and cl': "set (cl_history cl') \<subseteq> set (cl_history cl) \<union> set ms"
    and box: "introduced (mb_pc mb)" "still_introducing (mb_manager mb) rest \<or>
      list_all (own (tm_nodeId (mb_manager mb))) rest \<and> cl_nodeId cl' = tm_nodeId (mb_manager mb) \<and>
      (\<exists>x\<in>set (ts_history (sy_hub s) @ ms). message_node_id x = tm_nodeId (mb_manager mb))"
    and asked: "asks (tm_nodeId (mb_manager mb)) (ts_history (sy_hub s) @ mb_up mb) =
      asks (tm_nodeId (mb_manager mb)) (ts_history (sy_hub s) @ ms @ rest)"
  shows "group_inv k (hub_moves h' (set_member c (mb\<lparr>mb_up := rest\<rparr>) s)) \<and>
    told (sy_hub s) h' (tm_nodeId (mb_manager mb))"
proof -
  let ?h = "sy_hub s" and ?i = "tm_nodeId (mb_manager mb)" and ?mb = "mb\<lparr>mb_up := rest\<rparr>"
  let ?M = "(sy_members s)(c \<mapsto> ?mb)"
  note old = group_hub [OF inv] and ok = associateD [OF inv mb]
  have left: "left_ids ms = {}" using ms by (auto simp: left_ids_mem)
  have hist: "ts_history h' = prune (ts_history ?h @ ms)" by (simp add: h'(1))
  have left': "left_ids (ts_history h') = left_ids (ts_history ?h)" by (simp add: hist left)
  have i: "?i \<noteq> 0" "?i \<notin> left_ids (ts_history ?h)" using ok old(9) by (auto simp: associate_ok_def paths_ok_def)
  have live: "x \<in> set (ts_history h')" if "x \<in> set (ts_history ?h @ ms)" "message_node_id x = ?i" for x
    unfolding hist using that i old(5) left by (intro live_kept) auto
  have seen: "heard h1 d = heard ?h d" "believed h1 d = believed ?h d" if "d \<noteq> c" for d
    using that by (simp_all add: heard_def believed_def h'(5))
  have self: "heard h' c = cl_history cl'" "believed h' c = Some (cl_nodeId cl')"
    by (simp_all add: h'(1)) (simp_all add: heard_def believed_def h'(5))
  have client: "\<forall>x\<in>set (cl_history cl). x \<in> set (ts_history ?h) \<and> message_node_id x = ?i"
    using ok cl by (auto simp: associate_ok_def heard_def)
  have "group_inv k (hub_moves h' (s\<lparr>sy_members := ?M\<rparr>))"
  proof (rule commit_group [OF inv add h'(1,2) _ h'(4), where c = c])
    have "taken s \<subseteq> taken (hub_moves h' (s\<lparr>sy_members := ?M\<rparr>))"
      unfolding taken_hub_moves using mb by (auto simp: taken_def h'(1,3))
    then show "hub_inv False k (fst ` set (ts_clients h')) (taken (hub_moves h' (s\<lparr>sy_members := ?M\<rparr>))) h'"
      using hub by (auto simp: h'(1,3) intro: hub_inv_used)
    show "fst ` set (ts_clients h1) \<subseteq> dom ?M" using associates_okD(3) [OF old(8)] by (auto simp: h'(3))
    show "heard h1 d = heard ?h d \<and> believed h1 d = believed ?h d \<and>
        (\<forall>m\<in>set ms. message_node_id m \<noteq> tm_nodeId (mb_manager mb'))" if "d \<noteq> c" "?M d = Some mb'" for d mb'
      using that seen ms associates_okD(5) [OF old(8) _ mb, of d mb'] by auto
    show "associate_ok (sy_paths s) h' c (mb'\<lparr>mb_down := mb_down mb' @ w\<rparr>)"
      if c: "?M c = Some mb'" and fed: "fed_ok h' c (mb'\<lparr>mb_down := mb_down mb' @ w\<rparr>)"
        and "\<And>x. x \<in> set (ts_history ?h) \<Longrightarrow> message_node_id x = tm_nodeId (mb_manager mb') \<Longrightarrow> x \<in> set (ts_history h')"
        and asks: "asks (tm_nodeId (mb_manager mb')) (ts_history h') =
          asks (tm_nodeId (mb_manager mb')) (ts_history ?h) \<union> asks (tm_nodeId (mb_manager mb')) ms" for mb' w
    proof -
      have mb': "mb' = ?mb" using c by simp
      have "\<forall>x\<in>set (heard h' c). x \<in> set (ts_history h') \<and> message_node_id x = ?i"
        using cl' client ms live by (auto simp: self)
      moreover have "\<exists>x\<in>set (ts_history h'). message_node_id x = ?i"
        if "x \<in> set (ts_history ?h @ ms)" "message_node_id x = ?i" for x using live that by blast
      then have "mailbox_ok h' c (mb'\<lparr>mb_down := mb_down mb' @ w\<rparr>)"
        using box by (auto simp: mailbox_ok_def Let_def mb' self)
      moreover have "asks ?i (ts_history ?h) \<union> asks ?i (mb_up mb) = asks ?i (ts_history ?h) \<union> asks ?i ms \<union> asks ?i rest"
        using asked by (simp add: Un_assoc)
      then have "asked_ok h' (mb'\<lparr>mb_down := mb_down mb' @ w\<rparr>)"
        using ok asks by (simp add: associate_ok_def asked_ok_def mb' Un_assoc [symmetric])
      ultimately show ?thesis using ok fed by (simp add: associate_ok_def requests_ok_def mb' left')
    qed
  qed (use mb left h'(3) in auto)
  moreover have "told ?h h' ?i"
    using set_prune [of "ts_history ?h @ ms"] ms by (auto simp: told_def left') (auto simp: hist)
  ultimately show ?thesis by (simp add: set_member_def)
qed

text \<open>What a member may have sent: a message of its history, its own \<open>JOIN\<close>, or a request.\<close>

lemma mailbox_head:
  assumes "mailbox_ok h c mb" "mb_up mb = msg # rest"
  obtains (old) "introduced (mb_pc mb)" "msg \<in> set (tm_history (mb_manager mb))" "still_introducing (mb_manager mb) rest"
  | (hello) "introduced (mb_pc mb)" "msg = introduce_node (mb_manager mb)"
      "list_all (own (tm_nodeId (mb_manager mb))) rest"
  | (request) "introduced (mb_pc mb)" "own (tm_nodeId (mb_manager mb)) msg"
      "list_all (own (tm_nodeId (mb_manager mb))) rest" "\<exists>x\<in>set (ts_history h). message_node_id x = tm_nodeId (mb_manager mb)"
proof (cases "still_introducing (mb_manager mb) (mb_up mb)")
  case True
  then obtain es us where q: "msg # rest = es @ introduce_node (mb_manager mb) # us"
    "set es \<subseteq> set (tm_history (mb_manager mb))" "list_all (own (tm_nodeId (mb_manager mb))) us"
    by (auto simp: still_introducing_def assms(2))
  have pc: "introduced (mb_pc mb)" using assms by (auto simp: mailbox_ok_def Let_def split: if_splits)
  show thesis
  proof (cases es)
    case Nil
    with q pc show thesis by (intro hello) auto
  next
    case (Cons e es')
    with q have "still_introducing (mb_manager mb) rest"
      unfolding still_introducing_def by (intro exI [of _ es'] exI [of _ us]) auto
    with q Cons pc show thesis by (intro old) auto
  qed
next
  case False
  with assms show thesis by (intro request) (auto simp: mailbox_ok_def Let_def split: if_splits)
qed

lemma addable_Nil: "addable paths K hist []"
  by (simp add: addable_def)

lemma own_node: "own i m \<Longrightarrow> message_node_id m = i"
  by (cases rule: oneof_exhaust [of m]) (auto simp: own_def message_node_id_def)

text \<open>A message that adds nothing: one the hub has numbered, or a repeated request.\<close>

lemma noted_group:
  assumes inv: "group_inv (Suc k) s" and mb: "sy_members s c = Some mb"
    and cl: "map_of (ts_clients (sy_hub s)) c = Some cl" and up: "mb_up mb = msg # rest"
    and h': "h' = synced (ts_history (sy_hub s)) [] ((sy_hub s)\<lparr>ts_clients :=
      AList.update c (cl\<lparr>cl_nodeId := message_node_id msg\<rparr>) (ts_clients (sy_hub s))\<rparr>)"
    and asked: "asks (tm_nodeId (mb_manager mb)) [msg] \<subseteq> asks (tm_nodeId (mb_manager mb)) (ts_history (sy_hub s))"
    and box: "introduced (mb_pc mb)" "still_introducing (mb_manager mb) rest \<or>
      list_all (own (tm_nodeId (mb_manager mb))) rest \<and> message_node_id msg = tm_nodeId (mb_manager mb) \<and>
      (\<exists>x\<in>set (ts_history (sy_hub s)). message_node_id x = tm_nodeId (mb_manager mb))"
  shows "group_inv k (hub_moves h' (set_member c (mb\<lparr>mb_up := rest\<rparr>) s)) \<and>
    told (sy_hub s) h' (tm_nodeId (mb_manager mb))"
proof (rule read_group [OF inv mb cl addable_Nil _ h'])
  let ?h = "sy_hub s" and ?i = "tm_nodeId (mb_manager mb)"
  let ?cl = "cl\<lparr>cl_nodeId := message_node_id msg\<rparr>"
  note hub = group_hub [OF inv]
  have c: "c \<in> fst ` set (ts_clients ?h)" using map_of_SomeD [OF cl] by force
  show "hub_inv False k (fst ` set (ts_clients ?h)) (taken s) h'"
    unfolding h' by (rule quiet_commit [OF hub(1) c hub(2) cl])
  show "fst ` set (ts_clients (?h\<lparr>ts_clients := AList.update c ?cl (ts_clients ?h)\<rparr>)) = fst ` set (ts_clients ?h)"
    using c by (auto simp: dom_update)
  show "distinct (map fst (ts_clients (?h\<lparr>ts_clients := AList.update c ?cl (ts_clients ?h)\<rparr>)))"
    using hub(1) by (simp add: hub_inv_def hub_ok_def distinct_update)
  show "map_of (ts_clients (?h\<lparr>ts_clients := AList.update c ?cl (ts_clients ?h)\<rparr>)) = (map_of (ts_clients ?h))(c \<mapsto> ?cl)"
    by (simp add: update_conv')
  have "asks ?i (mb_up mb) = asks ?i [msg] \<union> asks ?i rest" using asks_simps(3) [of ?i "[msg]" rest] by (simp add: up)
  with asked show "asks ?i (ts_history ?h @ mb_up mb) = asks ?i (ts_history ?h @ [] @ rest)" by auto
qed (use box in auto)

text \<open>A message of the node itself, numbered by the hub.\<close>

lemma fresh_group:
  assumes inv: "group_inv (Suc k) s" and mb: "sy_members s c = Some mb"
    and cl: "map_of (ts_clients (sy_hub s)) c = Some cl" and bs: "bs \<noteq> []" and up: "mb_up mb = parse bs # rest"
    and run: "OnData parse rng c bs (sy_hub s) = Inr h'"
    and fresh: "\<not> IsRedundant (parse bs) cl" "seq (parse bs) = 0" "\<not> leaves (parse bs)" "\<not> unsubscribes (parse bs)"
    and key: "message_node_id (parse bs) = tm_nodeId (mb_manager mb)"
    and address: "joins (parse bs) \<longrightarrow> nc_address (node_change (parse bs)) = tm_address (mb_manager mb)"
      "address_fits (parse bs)"
    and node: "joins (parse bs) \<or> (\<exists>x\<in>set (ts_history (sy_hub s)). message_node_id x = tm_nodeId (mb_manager mb))"
    and rest: "introduced (mb_pc mb)" "list_all (own (tm_nodeId (mb_manager mb))) rest"
  shows "group_inv k (hub_moves h' (set_member c (mb\<lparr>mb_up := rest\<rparr>) s)) \<and>
    told (sy_hub s) h' (tm_nodeId (mb_manager mb))"
proof -
  let ?h = "sy_hub s" and ?i = "tm_nodeId (mb_manager mb)"
  let ?m = "(parse bs)\<lparr>seq := ts_nextSeq ?h, uid := rng (ts_draws ?h)\<rparr>"
  note hub = group_hub [OF inv] and ok = associateD [OF inv mb]
  note K = knowledge_okD [OF hub(7)]
  have i: "?i \<noteq> 0" "?i \<notin> left_ids (ts_history ?h)" "sy_paths s ?i = Some (tm_address (mb_manager mb))"
    using ok hub(9) by (auto simp: associate_ok_def paths_ok_def)
  have c: "c \<in> fst ` set (ts_clients ?h)" using map_of_SomeD [OF cl] by force
  obtain h1 where h': "h' = synced (ts_history ?h) [?m] h1" and h1: "ts_wire h1 = ts_wire ?h"
      "fst ` set (ts_clients h1) = fst ` set (ts_clients ?h)" "distinct (map fst (ts_clients h1))"
      "map_of (ts_clients h1) = (map_of (ts_clients ?h))(c \<mapsto>
        cl\<lparr>cl_nodeId := message_node_id (parse bs), cl_history := cl_history cl @ [?m]\<rparr>)"
    by (rule OnData_fresh [where parse = parse and bs = bs and rng = rng, OF hub(1) cl bs fresh(2) _ fresh(1)])
      (use i key run in auto)
  have less: "last_seq (ts_history ?h) < ts_nextSeq ?h" using hub(1) by (auto simp: hub_inv_def intro: last_seq_less_next)
  have joined: "joins ?m \<or> (\<exists>y\<in>group_log s. joins y \<and> message_node_id y = ?i)"
  proof (cases "joins (parse bs)")
    case False
    with node obtain x where "x \<in> set (ts_history ?h)" "message_node_id x = ?i" by blast
    with K(9) [of x] i(2) K(1) show ?thesis by auto
  qed simp
  have "addable (sy_paths s) (group_log s) (ts_history ?h) [?m]"
    unfolding addable_def
    using less u64_less_pos [OF less] fresh key i address joined
    by (auto simp: newer_single entry_ok_def unsubscribes_def leaves_def address_fits_def)
  then show ?thesis
  proof (rule read_group [OF inv mb cl _ _ h' h1])
    show "hub_inv False k (fst ` set (ts_clients ?h)) (taken s) h'"
      using OnData_novel_outcome [OF hub(1) c hub(2), of parse bs rng] run fresh(2) by (simp add: novel_def)
    show "asks ?i (ts_history ?h @ mb_up mb) = asks ?i (ts_history ?h @ [?m] @ rest)" by (simp add: up)
  qed (use key fresh rest in \<open>auto simp: leaves_def\<close>)
qed

text \<open>The hub takes a message of a member's history for one it has numbered itself.\<close>

lemma old_run:
  assumes inv: "group_inv (Suc k) s" and cl: "map_of (ts_clients (sy_hub s)) c = Some cl" and bs: "bs \<noteq> []"
    and old: "parse bs \<in> group_log s"
  shows "OnData parse rng c bs (sy_hub s) = Inr (synced (ts_history (sy_hub s)) [] ((sy_hub s)\<lparr>ts_clients :=
    AList.update c (cl\<lparr>cl_nodeId := message_node_id (parse bs)\<rparr>) (ts_clients (sy_hub s))\<rparr>))"
proof -
  let ?h = "sy_hub s" and ?m = "parse bs"
  note hub = group_hub [OF inv]
  note K = knowledge_okD [OF hub(7)]
  have "\<forall>x\<in>set (ts_history ?h). seq x = seq ?m \<longrightarrow> uid x = uid ?m \<longrightarrow> x = ?m"
    using K(1,2) old by (auto dest: inj_onD)
  moreover have "message_node_id ?m \<noteq> 0" using entry_node(1) [OF K(3) [OF old] hub(9)] .
  moreover have "seq ?m \<noteq> 0" using K(3) [OF old] by (auto simp: entry_ok_def)
  ultimately show ?thesis
    using OnData_echo [where parse = parse and bs = bs, OF hub(1) cl bs _ _ K(4) [OF old]] by simp
qed

lemma introduce_node_fits:
  assumes "associate_ok paths h c mb" "paths_ok paths"
  shows "address_fits (introduce_node (mb_manager mb))"
  using assms by (auto simp: associate_ok_def paths_ok_def address_fits_def ran_def)

lemma own_request:
  assumes "own i m"
  shows "seq m = 0" "\<not> leaves m" "\<not> joins m" "\<not> unsubscribes m" "address_fits m"
proof -
  have "\<not> has_node_change m" "has_topic_change m" using assms by (cases rule: oneof_exhaust [of m]; simp add: own_def)+
  moreover from this have "node_change m = default_NodeChange" by (auto simp: oneof_defs split: oneof_op.splits)
  ultimately show "seq m = 0" "\<not> leaves m" "\<not> joins m" "\<not> unsubscribes m" "address_fits m"
    using assms by (simp_all add: own_def leaves_def joins_def unsubscribes_def address_fits_def default_NodeChange_def)
qed

lemma introduce_node_kind:
  "\<not> leaves (introduce_node m)" "joins (introduce_node m)" "\<not> unsubscribes (introduce_node m)"
  by (simp_all add: leaves_def joins_def unsubscribes_def)

text \<open>A repeated request is in what the hub has from this connection, so it is in the history.\<close>

lemma redundant_group:
  assumes inv: "group_inv (Suc k) s" and mb: "sy_members s c = Some mb"
    and cl: "map_of (ts_clients (sy_hub s)) c = Some cl" and red: "IsRedundant msg cl"
  shows "\<exists>x\<in>set (ts_history (sy_hub s)). message_node_id x = tm_nodeId (mb_manager mb)"
    "has_topic_change msg \<Longrightarrow> asks i [msg] \<subseteq> asks i (ts_history (sy_hub s))"
proof -
  let ?h = "sy_hub s"
  have heard: "\<forall>x\<in>set (cl_history cl). x \<in> set (ts_history ?h) \<and> message_node_id x = tm_nodeId (mb_manager mb)"
    using associateD [OF inv mb] cl by (auto simp: associate_ok_def heard_def)
  have "cl_history cl \<noteq> []" using red by (auto simp: IsRedundant_def)
  with heard show "\<exists>x\<in>set (ts_history ?h). message_node_id x = tm_nodeId (mb_manager mb)"
    by (cases "cl_history cl") auto
  show "asks i [msg] \<subseteq> asks i (ts_history ?h)" if "has_topic_change msg"
    using redundant_asks [of msg "cl_history cl" i] red that heard unfolding IsRedundant_def asks_def by blast
qed

lemma data_group:
  assumes inv: "group_inv (Suc k) s" and mb: "sy_members s c = Some mb" and c: "c \<in> fst ` set (ts_clients (sy_hub s))"
    and up: "mb_up mb = parse bs # rest" "bs \<noteq> []"
    and run: "OnData parse rng c bs (sy_hub s) = Inr h'"
  shows "group_inv k (hub_moves h' (set_member c (mb\<lparr>mb_up := rest\<rparr>) s))"
    "told (sy_hub s) h' (tm_nodeId (mb_manager mb))"
proof -
  let ?h = "sy_hub s" and ?i = "tm_nodeId (mb_manager mb)" and ?m = "parse bs"
  note hub = group_hub [OF inv] and ok = associateD [OF inv mb]
  obtain cl where cl: "map_of (ts_clients ?h) c = Some cl" using client_of [OF c] by blast
  have i: "?i \<noteq> 0" using ok hub(9) by (auto simp: associate_ok_def paths_ok_def)
  have redundant: "h' = synced (ts_history ?h) [] (?h\<lparr>ts_clients :=
      AList.update c (cl\<lparr>cl_nodeId := message_node_id ?m\<rparr>) (ts_clients ?h)\<rparr>)"
    if "IsRedundant ?m cl" "seq ?m = 0" "message_node_id ?m \<noteq> 0"
    using OnData_redundant [where parse = parse and bs = bs, OF hub(1) cl up(2) that(2,3,1)] run by simp
  have "mailbox_ok ?h c mb" using ok by (simp add: associate_ok_def)
  from this up(1) have "group_inv k (hub_moves h' (set_member c (mb\<lparr>mb_up := rest\<rparr>) s)) \<and> told ?h h' ?i"
  proof (cases rule: mailbox_head)
    case old
    then have log: "?m \<in> group_log s" using group_log_mem(3) [OF mb] by blast
    have "h' = synced (ts_history ?h) [] (?h\<lparr>ts_clients :=
        AList.update c (cl\<lparr>cl_nodeId := message_node_id ?m\<rparr>) (ts_clients ?h)\<rparr>)"
      using old_run [where parse = parse and bs = bs, OF inv cl up(2) log, of rng] run by simp
    moreover have "asks ?i [?m] \<subseteq> asks ?i (ts_history ?h)"
      using log ok by (intro asks_live [OF hub(7)]) (auto simp: associate_ok_def)
    ultimately show ?thesis using old by (intro noted_group [OF inv mb cl up(1)]) auto
  next
    case hello
    show ?thesis
    proof (cases "IsRedundant ?m cl")
      case True
      with hello i show ?thesis
        using redundant redundant_group(1) [OF inv mb cl True]
        by (intro noted_group [OF inv mb cl up(1)]) auto
    next
      case False
      with hello show ?thesis
        using introduce_node_fits [OF ok hub(9)] introduce_node_kind [of "mb_manager mb"]
        by (intro fresh_group [where parse = parse and bs = bs, OF inv mb cl up(2,1) run]) auto
    qed
  next
    case request
    note own = own_request [OF request(2)] own_node [OF request(2)]
    show ?thesis
    proof (cases "IsRedundant ?m cl")
      case True
      then show ?thesis
        using request redundant own i redundant_group(1) [OF inv mb cl True]
          redundant_group(2) [OF inv mb cl True, of ?i]
        by (intro noted_group [OF inv mb cl up(1)]) (simp_all add: own_def del: asks_simps)
    next
      case False
      with request own show ?thesis
        by (intro fresh_group [where parse = parse and bs = bs, OF inv mb cl up(2,1) run]) auto
    qed
  qed
  then show "group_inv k (hub_moves h' (set_member c (mb\<lparr>mb_up := rest\<rparr>) s))" "told ?h h' ?i" by blast+
qed

text \<open>No message a member sends makes the hub fail.\<close>

lemma data_group_total:
  assumes inv: "group_inv (Suc k) s" and mb: "sy_members s c = Some mb" and c: "c \<in> fst ` set (ts_clients (sy_hub s))"
    and up: "mb_up mb = parse bs # rest" "bs \<noteq> []"
  shows "\<exists>h'. OnData parse rng c bs (sy_hub s) = Inr h'"
proof -
  note hub = group_hub [OF inv]
  obtain cl where cl: "map_of (ts_clients (sy_hub s)) c = Some cl" using client_of [OF c] by blast
  have new: "\<exists>h'. OnData parse rng c bs (sy_hub s) = Inr h'" if "seq (parse bs) = 0"
    using OnData_novel_outcome [OF hub(1) c hub(2), of parse bs rng] that by (auto simp: novel_def outcome_total)
  have "mailbox_ok (sy_hub s) c mb" using associateD [OF inv mb] by (simp add: associate_ok_def)
  from this up(1) show ?thesis
  proof (cases rule: mailbox_head)
    case old
    then have "parse bs \<in> group_log s" using group_log_mem(3) [OF mb] by blast
    with old_run [where parse = parse and bs = bs, OF inv cl up(2), of rng] show ?thesis by blast
  qed (use new in \<open>auto simp: own_def\<close>)
qed

section \<open>Departures\<close>

text \<open>In a log in order, a node that has left has no entry.\<close>

lemma topology_gone:
  assumes K: "knowledge_ok paths K hist" "paths_ok paths" and ms: "set ms \<subseteq> K" "sorted (map seq ms)" and n: "n \<in> left_ids ms"
  shows "topology ms n = None"
proof -
  from n obtain x where x: "x \<in> set ms" "leaves x" "message_node_id x = n" by (auto dest: left_ids_message)
  then obtain as bs where split: "ms = as @ x # bs" by (meson split_list)
  have key: "msg_key y = Some (message_node_id y)" if "y \<in> set ms" for y
    using entry_node(3) [OF knowledge_okD(3) [OF K(1)] K(2)] that ms(1) by blast
  have "\<not> joins y" if y: "y \<in> set bs" "msg_key y = Some n" for y
  proof
    assume "joins y"
    then have "\<not> leaves y" by (auto simp: joins_def leaves_def)
    moreover have "y \<in> K" "x \<in> K" using ms(1) x(1) y(1) by (auto simp: split)
    moreover have "message_node_id y = n" using key [of y] y by (simp add: split)
    ultimately have "seq y < seq x" using knowledge_okD(8) [OF K(1), of x y] x by simp
    moreover have "seq x \<le> seq y" using ms(2) y(1) by (auto simp: split sorted_append)
    ultimately show False by simp
  qed
  then show ?thesis unfolding split using x key [of x] by (intro topology_left) auto
qed

lemma leave_message_node [simp]: "message_node_id (leave_message q n) = n"
  by (simp add: message_node_id_def)

text \<open>The departure of a node that is known may be added, once.\<close>

lemma leaves_addable:
  assumes K: "knowledge_ok paths K hist" and new: "newer hist ms" "list_all leaves ms"
    and ms: "\<forall>m\<in>set ms. \<exists>n. m = leave_message (seq m) n"
    and ids: "\<And>i. i \<in> left_ids ms \<Longrightarrow> paths i \<noteq> None \<and> i \<notin> left_ids hist"
  shows "addable paths K hist ms" "\<forall>m\<in>set ms. message_node_id m \<in> left_ids ms"
proof -
  show left: "\<forall>m\<in>set ms. message_node_id m \<in> left_ids ms"
    using new(2) by (auto simp: left_ids_mem leaves_def message_node_id_def list_all_iff)
  have "entry_ok paths m \<and> \<not> unsubscribes m" if m: "m \<in> set ms" for m
  proof -
    obtain q n where n: "m = leave_message q n" using ms m by blast
    have "0 < seq m" using new(1) m by (auto simp: newer_def intro: u64_less_pos)
    moreover obtain p where "paths (message_node_id m) = Some p" using ids left m by blast
    moreover have "address_fits m" "\<not> joins m" "\<not> unsubscribes m"
      by (simp_all add: n address_fits_def joins_def unsubscribes_def)
    ultimately show ?thesis by (simp add: entry_ok_def)
  qed
  with new left ids show "addable paths K hist ms" unfolding addable_def by blast
qed

lemma hang_up_group:
  assumes inv: "group_inv (Suc k) s" and mb: "sy_members s c = Some mb"
    and cl: "map_of (ts_clients (sy_hub s)) c = Some cl" "cl_nodeId cl = tm_nodeId (mb_manager mb)"
    and run: "OnDisconnect c (sy_hub s) = Inr h'"
  shows "group_inv k (hub_moves h' (s\<lparr>sy_members := (sy_members s)(c := None)\<rparr>))"
proof -
  let ?h = "sy_hub s" and ?i = "tm_nodeId (mb_manager mb)" and ?M = "(sy_members s)(c := None)"
  let ?m = "leave_message (ts_nextSeq ?h) ?i"
  let ?h1 = "mint_leave ?i ?h\<lparr>ts_clients := AList.delete c (ts_clients ?h)\<rparr>"
  note hub = group_hub [OF inv] and ok = associateD [OF inv mb]
  have c: "c \<in> fst ` set (ts_clients ?h)" using cl(1) by (metis map_of_eq_None_iff option.distinct(1))
  have h': "h' = synced (ts_history ?h) [?m] ?h1" using OnDisconnect_eq [OF hub(1) cl(1)] run cl(2) by simp
  have h1: "ts_wire ?h1 = ts_wire ?h" "ts_clients ?h1 = AList.delete c (ts_clients ?h)" by (simp_all add: mint_leave_def)
  have seen: "heard ?h1 d = heard ?h d" "believed ?h1 d = believed ?h d" if "d \<noteq> c" for d
    using that by (simp_all add: heard_def believed_def h1 delete_conv)
  have dom: "fst ` set (ts_clients ?h1) = fst ` set (ts_clients ?h) - {c}" by (auto simp: h1(2) AList.delete_eq)
  have less: "last_seq (ts_history ?h) < ts_nextSeq ?h" using hub(1) by (auto simp: hub_inv_def intro: last_seq_less_next)
  show ?thesis
  proof (rule commit_group [OF inv _ h' h1(1), where c = c])
    show "addable (sy_paths s) (group_log s) (ts_history ?h) [?m]"
      by (rule leaves_addable [OF hub(7)]) (use less ok in \<open>auto simp: newer_single associate_ok_def\<close>)
    show "distinct (map fst (ts_clients ?h1))"
      using hub(1) by (simp add: h1(2) distinct_delete hub_inv_def hub_ok_def)
    have "hub_inv False k (fst ` set (ts_clients ?h) - {c}) (taken s) h'"
      using OnDisconnect_outcome [OF hub(1) c hub(2)] run by simp
    moreover have "fst ` set (ts_clients h') = fst ` set (ts_clients ?h) - {c}" by (simp add: h' dom [simplified])
    ultimately show "hub_inv False k (fst ` set (ts_clients h')) (taken (hub_moves h' (s\<lparr>sy_members := ?M\<rparr>))) h'"
      unfolding taken_hub_moves by (auto intro: hub_inv_used simp: taken_def)
    show "fst ` set (ts_clients ?h1) \<subseteq> dom ?M" unfolding dom using associates_okD(3) [OF hub(8)] by auto
    show "heard ?h1 d = heard ?h d \<and> believed ?h1 d = believed ?h d \<and>
        (\<forall>m\<in>set [?m]. message_node_id m \<noteq> tm_nodeId (mb_manager mb'))" if "d \<noteq> c" "?M d = Some mb'" for d mb'
      using that seen associates_okD(5) [OF hub(8) _ mb, of d mb'] by auto
    show "fst ` set (ts_clients ?h1) \<subseteq> fst ` set (ts_clients ?h)" unfolding dom by blast
  qed auto
qed

lemma quit_group:
  assumes inv: "group_inv k s" and c: "map_of (ts_clients (sy_hub s)) c = None"
  shows "group_inv k (s\<lparr>sy_members := (sy_members s)(c := None)\<rparr>)"
proof -
  let ?M = "(sy_members s)(c := None)" and ?h = "sy_hub s"
  let ?s = "s\<lparr>sy_members := ?M\<rparr>"
  note hub = group_hub [OF inv] and mem = associates_okD [OF group_hub(8) [OF inv]]
  have c': "c \<notin> fst ` set (ts_clients ?h)" using c by (simp add: map_of_eq_None_iff)
  have old: "sy_members s d = Some mb" if "?M d = Some mb" for d mb using that by (simp split: if_splits)
  have proj: "sy_members ?s = ?M" "sy_hub ?s = ?h" "sy_used ?s = sy_used s" "sy_paths ?s = sy_paths s" by simp_all
  have "associates_ok ?s"
    unfolding associates_ok_def proj
  proof (intro conjI allI impI)
    show "finite (dom ?M)" "dom ?M \<subseteq> sy_used s" "fst ` set (ts_clients ?h) \<subseteq> dom ?M" using mem(1-3) c' by auto
    show "associate_ok (sy_paths s) ?h d mb" if "?M d = Some mb" for d mb by (rule associateD [OF inv old [OF that]])
    show "d = e" if "?M d = Some x" "?M e = Some y" "tm_nodeId (mb_manager x) = tm_nodeId (mb_manager y)" for d e x y
      by (rule mem(5) [OF old [OF that(1)] old [OF that(2)] that(3)])
  qed
  moreover have "group_log ?s \<subseteq> group_log s" by (auto simp: group_log_def ran_def split: if_splits)
  then have "knowledge_ok (sy_paths s) (group_log ?s) (ts_history ?h)"
    by (rule knowledge_shrink [OF hub(7)]) (auto simp: group_log_def all_messages_def)
  moreover have "taken s \<subseteq> taken ?s" by (auto simp: taken_def)
  with hub(1) have "hub_inv False k (fst ` set (ts_clients ?h)) (taken ?s) ?h" by (rule hub_inv_used)
  ultimately show ?thesis using hub(9) unfolding group_inv_def proj by blast
qed

section \<open>The purge\<close>

text \<open>It ends the nodes that are not connected.\<close>

lemma purge_adds:
  assumes inv: "group_inv (k + Suc (active_count (sy_hub s))) s"
    and order: "mset (order (historicallyActive (ts_history (sy_hub s)) [])) = mset (historicallyActive (ts_history (sy_hub s)) [])"
    and run: "PurgeDisconnected order (sy_hub s) = Inr h'"
  obtains ms h1 where "list_all leaves ms" "left_ids ms = dom (topology (ts_history (sy_hub s))) - connected_ids (sy_hub s)"
    "newer (ts_history (sy_hub s)) ms" "\<forall>m\<in>set ms. \<exists>n. m = leave_message (seq m) n"
    "h' = synced (ts_history (sy_hub s)) ms h1" "ts_clients h1 = ts_clients (sy_hub s)" "ts_wire h1 = ts_wire (sy_hub s)"
    "hub_inv False k (fst ` set (ts_clients (sy_hub s))) (taken s) h'"
proof -
  let ?h = "sy_hub s" and ?ns = "order (historicallyActive (ts_history (sy_hub s)) [])"
  note hub = group_hub [OF inv]
  have len: "length ?ns = active_count ?h" using mset_eq_length [OF order] by (simp add: active_count_def)
  have ns: "set ?ns = dom (topology (ts_history ?h))" using mset_eq_setD [OF order] by (simp add: active_nodes)
  have "hub_inv False k (fst ` set (ts_clients ?h)) (taken s) h'"
    using PurgeDisconnected_outcome [of False k order ?h] hub(1,2) run len by auto
  then show thesis
    by (rule_tac PurgeDisconnected_eq [of False k ?ns "fst ` set (ts_clients ?h)" "taken s" ?h order])
      (use hub(1) run ns that in \<open>auto simp: len\<close>)
qed

text \<open>None of them is a member.\<close>

lemma purge_group:
  assumes inv: "group_inv (k + Suc (active_count (sy_hub s))) s" and all: "all_back s"
    and order: "mset (order (historicallyActive (ts_history (sy_hub s)) [])) = mset (historicallyActive (ts_history (sy_hub s)) [])"
    and run: "PurgeDisconnected order (sy_hub s) = Inr h'"
  shows "group_inv k (hub_moves h' s)"
proof -
  let ?h = "sy_hub s"
  note hub = group_hub [OF inv]
  obtain ms h1 where ms: "list_all leaves ms" "left_ids ms = dom (topology (ts_history ?h)) - connected_ids ?h"
      "newer (ts_history ?h) ms" "\<forall>m\<in>set ms. \<exists>n. m = leave_message (seq m) n"
    and h': "h' = synced (ts_history ?h) ms h1" and h1: "ts_clients h1 = ts_clients ?h" "ts_wire h1 = ts_wire ?h"
    and hub': "hub_inv False k (fst ` set (ts_clients ?h)) (taken s) h'"
    by (rule purge_adds [OF inv order run])
  have ids: "sy_paths s i \<noteq> None \<and> i \<notin> left_ids (ts_history ?h)" if "i \<in> left_ids ms" for i
  proof -
    have "i \<in> dom (topology (ts_history ?h))" using that ms(2) by blast
    then obtain v where v: "topology (ts_history ?h) i = Some v" by blast
    then obtain y where y: "y \<in> set (ts_history ?h)" "message_node_id y = i" using topology_address by blast
    then have "sy_paths s i \<noteq> None"
      using knowledge_okD(1,3) [OF hub(7)] unfolding entry_ok_def by blast
    moreover have "i \<notin> left_ids (ts_history ?h)"
      using topology_gone [OF hub(7,9) knowledge_okD(1) [OF hub(7)] ordered_sorted [OF hub(6)], of i] v by auto
    ultimately show ?thesis by blast
  qed
  have add: "addable (sy_paths s) (group_log s) (ts_history ?h) ms" "\<forall>m\<in>set ms. message_node_id m \<in> left_ids ms"
    by (rule leaves_addable [OF hub(7) ms(3,1,4)]; use ids in blast)+
  have safe: "\<forall>m\<in>set ms. message_node_id m \<noteq> tm_nodeId (mb_manager mb)" if "sy_members s d = Some mb" for d mb
  proof -
    have "mb \<in> ran (sy_members s)" using that by (auto simp: ran_def)
    with all have "tm_nodeId (mb_manager mb) \<notin> left_ids ms" unfolding all_back_def ms(2) by blast
    with add(2) show ?thesis by auto
  qed
  have "infinite (UNIV :: fd set)" by (rule infinite_UNIV_int)
  then obtain c where c: "c \<notin> dom (sy_members s)"
    using associates_okD(1) [OF hub(8)] by (metis ex_new_if_finite)
  have seen: "heard h1 d = heard ?h d" "believed h1 d = believed ?h d" for d
    by (simp_all add: heard_def believed_def h1)
  have "group_inv k (hub_moves h' (s\<lparr>sy_members := sy_members s\<rparr>))"
  proof (rule commit_group [OF inv add(1) h' h1(2), where c = c])
    have clients: "fst ` set (ts_clients h') = fst ` set (ts_clients ?h)" by (simp add: h' h1(1))
    show "hub_inv False k (fst ` set (ts_clients h')) (taken (hub_moves h' (s\<lparr>sy_members := sy_members s\<rparr>))) h'"
      unfolding taken_hub_moves clients using hub' by (simp add: taken_def)
    show "distinct (map fst (ts_clients h1))" using hub(1) by (simp add: h1(1) hub_inv_def hub_ok_def)
    show "fst ` set (ts_clients h1) \<subseteq> dom (sy_members s)" using associates_okD(3) [OF hub(8)] by (simp add: h1(1))
  qed (use c safe seen h1(1) in auto)
  then show ?thesis by simp
qed

end
