(* ===== verification/RestartReach.thy ===== *)
theory RestartReach
  imports RestartHub Failover
begin

text \<open>
  What comes from outside: a node starts, a node hangs up, the hub dies. With it the invariant of
  \<open>RestartHub\<close> holds in every state a group can reach.
\<close>

section \<open>A node starts\<close>

lemma knowledge_mono:
  assumes "knowledge_ok paths K hist" "paths i = None"
  shows "knowledge_ok (paths(i \<mapsto> p)) K hist"
  using assms unfolding knowledge_ok_def by (auto intro: entry_ok_mono)

lemma associate_mono:
  assumes ok: "associate_ok paths h c mb" and K: "\<forall>x\<in>set (tm_history (mb_manager mb)). paths (message_node_id x) \<noteq> None"
    and i: "paths i = None"
  shows "associate_ok (paths(i \<mapsto> p)) h c mb"
proof -
  let ?m = "mb_manager mb"
  have "said (paths(i \<mapsto> p)) (tm_history ?m) j = said paths (tm_history ?m) j" for j
    using K i by (auto simp: said_def)
  then have "table_ok_for (paths(i \<mapsto> p)) (left_ids (ts_history h)) ?m"
    using ok i by (auto simp: associate_ok_def table_ok_for_def)
  with ok i show ?thesis by (auto simp: associate_ok_def)
qed

lemma start_group:
  assumes inv: "group_inv k s" and new: "c \<notin> sy_used s" "sy_paths s i = None" "i \<noteq> 0" "i \<noteq> 1"
  shows "group_inv k (set_member c (new_member g nm i x) s\<lparr>sy_used := insert c (sy_used s),
    sy_paths := (sy_paths s)(i \<mapsto> data_path x)\<rparr>)"
proof -
  let ?mb = "new_member g nm i x" and ?h = "sy_hub s" and ?paths = "(sy_paths s)(i \<mapsto> data_path x)"
  let ?s = "set_member c ?mb s\<lparr>sy_used := insert c (sy_used s), sy_paths := ?paths\<rparr>"
  note hub = group_hub [OF inv]
  have dom: "c \<notin> dom (sy_members s)" using associates_okD(2) [OF hub(8)] new(1) by (rule contra_subsetD)
  have con: "c \<notin> fst ` set (ts_clients ?h)" using associates_okD(3) [OF hub(8)] dom by (rule contra_subsetD)
  have "fst ` set (ts_wire ?h) \<subseteq> taken s" using hub(1) by (simp add: hub_inv_def)
  moreover have "c \<notin> taken s" using new(1) by (simp add: taken_def)
  ultimately have stream: "stream c (ts_wire ?h) = []" by (intro stream_empty) blast
  have known: "sy_paths s (message_node_id m) \<noteq> None" if "m \<in> group_log s" for m
    using knowledge_okD(3) [OF hub(7) that] by (auto simp: entry_ok_def)
  then have none: "\<forall>m\<in>set (ts_history ?h). message_node_id m \<noteq> i"
    using new(2) knowledge_okD(1) [OF hub(7)] by (metis subsetD)
  have "heard ?h c = []" using con by (simp add: heard_def map_of_eq_None_iff [THEN iffD2])
  moreover have "i \<notin> left_ids (ts_history ?h)" using none by (auto dest!: left_ids_message)
  ultimately have self: "associate_ok ?paths ?h c ?mb"
    using none con by (simp add: associate_defs fed_ok_def table_ok_for_def stream pc_ok_def table_view_def said_def
        asks_others IPCNode_init_sys [simplified])
  have old: "associate_ok ?paths ?h d mb" if "sy_members s d = Some mb" for d mb
    using known group_log_mem(3) [OF that] new(2) by (intro associate_mono [OF associateD [OF inv that]]) auto
  have fresh: "tm_nodeId (mb_manager mb) \<noteq> i" if "sy_members s d = Some mb" for d mb
    using associateD [OF inv that] new(2) by (auto simp: associate_ok_def)
  have proj: "sy_members ?s = (sy_members s)(c \<mapsto> ?mb)" "sy_hub ?s = ?h" "sy_used ?s = insert c (sy_used s)"
    "sy_paths ?s = ?paths" by (simp_all add: set_member_def)
  have "associates_ok ?s"
    unfolding associates_ok_def proj
  proof (intro conjI allI impI)
    show "finite (dom ((sy_members s)(c \<mapsto> ?mb)))" "dom ((sy_members s)(c \<mapsto> ?mb)) \<subseteq> insert c (sy_used s)"
      "fst ` set (ts_clients ?h) \<subseteq> dom ((sy_members s)(c \<mapsto> ?mb))"
      using associates_okD(1-3) [OF hub(8)] by auto
    show "associate_ok ?paths ?h d mb" if "((sy_members s)(c \<mapsto> ?mb)) d = Some mb" for d mb
      using that self old by (auto split: if_splits)
    show "c' = d" if "((sy_members s)(c \<mapsto> ?mb)) c' = Some x" "((sy_members s)(c \<mapsto> ?mb)) d = Some y"
      "tm_nodeId (mb_manager x) = tm_nodeId (mb_manager y)" for c' d x y
      using that fresh [of c' x] fresh [of d y] associates_okD(5) [OF hub(8), of c' x d y] by (auto split: if_splits)
  qed
  moreover have "taken ?s = taken s" using con new(1) by (auto simp: taken_def set_member_def)
  moreover have "paths_ok ?paths"
    using hub(9) new(3,4) by (auto simp: paths_ok_def data_path_def sun_path_size_def ran_def)
  moreover have "group_log ?s = group_log s"
    using dom by (simp add: group_log_def proj domIff)
  ultimately show ?thesis
    using hub(1) knowledge_mono [OF hub(7) new(2)] by (simp add: group_inv_def) (simp add: set_member_def)
qed

section \<open>The hub dies\<close>

text \<open>Any part of what the group knows, in order, is a history a hub can work with.\<close>

lemma log_part:
  assumes K: "knowledge_ok paths K hist" "paths_ok paths" and ms: "set ms \<subseteq> K" "sorted (map seq ms)"
  shows "ordered False ms" "no_zero_topic ms" "settled {} ms"
proof -
  note D = knowledge_okD [OF K(1)]
  have entry: "entry_ok paths x" "message_node_id x \<noteq> 0" "message_node_id x \<noteq> 1" if "x \<in> set ms" for x
    using ms(1) that D(3) entry_node [OF D(3) K(2)] by blast+
  show ord: "ordered False ms"
    using D(2) ms entry(1) by (auto simp: ordered_def entry_ok_def intro: inj_on_subset)
  show topic: "no_zero_topic ms"
    using entry(2) message_node_id_topic by (auto simp: no_zero_topic_def)
  show "settled {} ms"
    unfolding settled_by_seq [OF ord]
  proof (intro ballI impI)
    fix x m assume x: "x \<in> set ms" "leaves x" and m: "m \<in> set ms" and less: "seq x < seq m"
    have node: "nc_id (node_change x) = message_node_id x" using x(2) by (simp add: leaves_def message_node_id_def)
    show "\<not> removed {nc_id (node_change x)} m"
    proof
      assume r: "removed {nc_id (node_change x)} m"
      have "has_topic_change m \<longrightarrow> tc_node_id (topic_change m) \<noteq> 0" using topic m by (auto simp: no_zero_topic_def)
      with removed_node [OF r] entry(3) [OF x(1)] have "has_node_change m" "nc_id (node_change m) = message_node_id x"
        by (auto simp: node)
      then have "message_node_id x = message_node_id m" "\<not> leaves m"
        using r by (auto simp: message_node_id_def removed_def leaves_def split: if_splits)
      moreover have "x \<in> K" "m \<in> K" using ms(1) x(1) m by blast+
      ultimately have "seq m < seq x" using D(8) [of x m] x(2) by simp
      with less show False by simp
    qed
  qed
qed

text \<open>What a survivor that has read all it was sent has for the new hub.\<close>

lemma survivor_history:
  assumes inv: "group_inv k s" and mb: "sy_members s c = Some mb" and read: "mb_down mb = []"
    and con: "c \<in> fst ` set (ts_clients (sy_hub s))"
  shows "ordered False (tm_history (mb_manager mb))" "settled {} (tm_history (mb_manager mb))"
    "no_zero_topic (tm_history (mb_manager mb))"
    "left_ids (tm_history (mb_manager mb)) = left_ids (ts_history (sy_hub s))"
    "last_seq (tm_history (mb_manager mb)) = last_seq (ts_history (sy_hub s))"
    "x \<in> set (ts_history (sy_hub s)) \<Longrightarrow> message_node_id x \<notin> left_ids (ts_history (sy_hub s)) \<Longrightarrow>
      x \<in> set (tm_history (mb_manager mb))"
proof -
  let ?h = "sy_hub s" and ?ms = "tm_history (mb_manager mb)"
  note hub = group_hub [OF inv] and ok = associateD [OF inv mb]
  note K = knowledge_okD [OF hub(7)] and log = group_log_mem(3) [OF mb]
  have sorted: "sorted (map seq ?ms)" and stream: "set (stream c (ts_wire ?h)) \<subseteq> set ?ms"
    and live: "\<And>x. x \<in> set (ts_history ?h) \<Longrightarrow> message_node_id x \<notin> left_ids (ts_history ?h) \<Longrightarrow> x \<in> set (stream c (ts_wire ?h))"
    using ok read con by (auto simp: associate_ok_def fed_ok_def node_wf_def node_sys_def mgr_ok_def)
  show ord: "ordered False ?ms" and "no_zero_topic ?ms" "settled {} ?ms"
    by (rule log_part [OF hub(7,9) log sorted])+
  have view: "view_ok False ?h c" using hub(1) con unfolding hub_inv_def by blast
  show "x \<in> set ?ms" if "x \<in> set (ts_history ?h)" "message_node_id x \<notin> left_ids (ts_history ?h)"
    using live that stream by blast
  show "left_ids ?ms = left_ids (ts_history ?h)"
  proof
    show "left_ids ?ms \<subseteq> left_ids (ts_history ?h)" using K(7) log by (auto dest!: left_ids_message)
    have "left_ids (stream c (ts_wire ?h)) \<subseteq> left_ids ?ms" using stream by (simp add: subset_iff left_ids_mem) blast
    then show "left_ids (ts_history ?h) \<subseteq> left_ids ?ms" using view by (simp add: view_ok_def)
  qed
  show "last_seq ?ms = last_seq (ts_history ?h)"
  proof (cases "stream c (ts_wire ?h) = []")
    case True
    then have "last_seq (ts_history ?h) = 0" using view by (simp add: view_ok_def last_seq_def)
    with K(3,4) log show ?thesis by (cases ?ms) (auto simp: last_seq_def entry_ok_def)
  next
    case False
    then have "last (stream c (ts_wire ?h)) \<in> set ?ms" using stream last_in_set by blast
    moreover have "seq (last (stream c (ts_wire ?h))) = last_seq (ts_history ?h)"
      using view False by (simp add: view_ok_def last_seq_def)
    ultimately have "last_seq (ts_history ?h) \<le> last_seq ?ms" "?ms \<noteq> []"
      using ordered_le_last [OF ord] by fastforce+
    moreover have "last_seq ?ms \<le> last_seq (ts_history ?h)"
      using K(4) log last_in_set [OF \<open>?ms \<noteq> []\<close>] by (auto simp: last_seq_def [of ?ms] \<open>?ms \<noteq> []\<close> simp del: last_in_set)
    ultimately show ?thesis by simp
  qed
qed

text \<open>What becomes of a survivor.\<close>

lemma rejoining_simps [simp]:
  "mb_pc (rejoining mb) = At_top" "mb_up (rejoining mb) = []" "mb_down (rejoining mb) = []"
  "mb_manager (rejoining mb) = (mb_manager mb)\<lparr>tm_client := None\<rparr>"
  "mb_node (rejoining mb) = (mb_node mb)\<lparr>in_manager := (mb_manager mb)\<lparr>tm_client := None\<rparr>\<rparr>"
  by (simp_all add: rejoining_def)

lemma rejoining_ok:
  assumes ok: "associate_ok paths h c mb" and idle: "mb_pc mb \<in> {At_top, Waiting 0}" "mb_up mb = []"
    and left: "left_ids hist = left_ids (ts_history h)"
    and asks: "asks (tm_nodeId (mb_manager mb)) hist = asks (tm_nodeId (mb_manager mb)) (ts_history h)"
  shows "associate_ok paths (TopologyServer_init hist) c (rejoining mb)"
proof -
  let ?m = "(mb_manager mb)\<lparr>tm_client := None\<rparr>" and ?h = "TopologyServer_init hist"
  have init: "ts_history ?h = hist" "ts_clients ?h = []" "ts_wire ?h = []" by (simp_all add: TopologyServer_init_def)
  have fed: "fed_ok h c mb" using ok by (simp add: associate_ok_def)
  have sys: "node_sys (mb_node mb)" using fed by (simp add: fed_ok_def node_wf_def)
  have unlocked: "\<not> tm_locked ?m" using associate_unlocked [OF ok] by simp
  from node_sys_tables [OF sys _ _ unlocked] fed
  have "node_wf ((mb_node mb)\<lparr>in_manager := ?m\<rparr>)" "nbr_path ((mb_node mb)\<lparr>in_manager := ?m\<rparr>) = mgr_path ?m"
    by (auto simp: fed_ok_def node_wf_def mgr_path_def abs_topology_def)
  then have "fed_ok ?h c (rejoining mb)"
    unfolding fed_ok_def by (auto simp: init intro: exI [of _ "[]"])
  moreover have "table_ok_for paths (left_ids hist) ?m"
    by (rule table_same [of _ _ "mb_manager mb"]) (use ok left in \<open>simp_all add: associate_ok_def\<close>)
  moreover have "heard ?h c = []" by (simp add: heard_def init)
  ultimately show ?thesis
    using ok idle asks by (auto simp: associate_defs init left pc_ok_def)
qed

lemma topic_node: "has_topic_change x \<Longrightarrow> message_node_id x = tc_node_id (topic_change x)"
  by (cases rule: oneof_exhaust [of x]) (simp_all add: message_node_id_def)

lemma asks_same:
  assumes "\<And>x. message_node_id x = i \<Longrightarrow> x \<in> set ms \<longleftrightarrow> x \<in> set ns"
  shows "asks i ms = asks i ns"
  using assms topic_node unfolding asks_def by (auto cong: conj_cong)

text \<open>The new hub knows no less about the nodes that have not left.\<close>

lemma fail_group:
  assumes inv: "group_inv k s" and fail: "orderly_failure s s'" and room: "k < 2 ^ 63"
  shows "group_inv k s'"
  using fail
proof cases
  case (fails c mb D)
  let ?h = "sy_hub s" and ?ms = "tm_history (mb_manager mb)"
  let ?new = "TopologyServer_init ?ms"
  note hub = group_hub [OF inv] and K = knowledge_okD [OF group_hub(7) [OF inv]]
  note s' = \<open>s' = hub_lost D (mb_manager mb) s\<close> and mb = \<open>sy_members s c = Some mb\<close>
  have idle: "mb_pc x \<in> {At_top, Waiting 0}" "mb_up x = []" if "d \<notin> D" "sy_members s d = Some x" for d x
    using fails that by blast+
  have "mailbox_ok ?h c mb" using associateD [OF inv mb] by (simp add: associate_ok_def)
  then have "believed ?h c \<noteq> None"
    using idle(2) [OF \<open>c \<notin> D\<close> mb] \<open>mb_pc mb = Waiting 0\<close> by (auto simp: mailbox_ok_def still_introducing_def Let_def)
  then have con: "c \<in> fst ` set (ts_clients ?h)" by (auto simp: believed_def map_of_eq_None_iff)
  note survivor = survivor_history [OF inv mb \<open>mb_down mb = []\<close> con]
  have init: "ts_history ?new = ?ms" "ts_clients ?new = []" "ts_wire ?new = []" by (simp_all add: TopologyServer_init_def)
  have proj: "sy_hub s' = ?new" "sy_used s' = sy_used s" "sy_paths s' = sy_paths s"
    "sy_members s' = (\<lambda>d. if d \<in> D then None else map_option rejoining (sy_members s d))"
    by (simp_all add: s' hub_lost_def)
  have mem: "\<exists>x. sy_members s d = Some x \<and> d \<notin> D \<and> y = rejoining x" if "sy_members s' d = Some y" for d y
    using that by (auto simp: proj split: if_splits)
  have log: "group_log s' \<subseteq> group_log s"
  proof -
    have "set (tm_history (mb_manager y)) \<subseteq> group_log s" if "y \<in> ran (sy_members s')" for y
      using that mem group_log_mem(3) by (force simp: ran_def)
    then show ?thesis using group_log_mem(3) [OF mb] by (auto simp: group_log_def [of s'] all_messages_def proj init)
  qed
  have know: "knowledge_ok (sy_paths s) (group_log s') ?ms"
    by (rule knowledge_shrink [OF hub(7) log _ survivor(4,5,6)])
      (simp_all add: group_log_def all_messages_def proj init)
  have "last_seq (ts_history ?h) < ts_nextSeq ?h" "unat (ts_nextSeq ?h) + k < 2 ^ 64"
    using hub(1) by (auto simp: hub_inv_def intro: last_seq_less_next)
  then have "unat (last_seq ?ms) + 1 + k < 2 ^ 64" by (simp add: survivor(5) word_less_nat_alt)
  then have "hub_inv False k {} {} ?new" by (rule TopologyServer_init_inv [OF survivor(1-3) _ room])
  then have hub': "hub_inv False k (fst ` set (ts_clients ?new)) (taken s') ?new"
    by (auto simp: init intro: hub_inv_used)
  have asks: "asks i ?ms = asks i (ts_history ?h)" if "i \<notin> left_ids (ts_history ?h)" for i
    using survivor(6) K(6) group_log_mem(3) [OF mb] that by (intro asks_same) auto
  have "associate_ok (sy_paths s) ?new d y" if y: "sy_members s' d = Some y" for d y
  proof -
    from mem [OF y] obtain x where x: "sy_members s d = Some x" "d \<notin> D" "y = rejoining x" by blast
    have "tm_nodeId (mb_manager x) \<notin> left_ids (ts_history ?h)" using associateD [OF inv x(1)] by (simp add: associate_ok_def)
    then show ?thesis
      unfolding x(3) by (intro rejoining_ok [OF associateD [OF inv x(1)] idle [OF x(2,1)] survivor(4) asks])
  qed
  moreover have dom: "dom (sy_members s') \<subseteq> dom (sy_members s)" using mem by auto
  moreover have "finite (dom (sy_members s'))" "dom (sy_members s') \<subseteq> sy_used s'"
    using dom associates_okD(1,2) [OF hub(8)] by (auto simp: proj(2) intro: finite_subset)
  moreover have "c' = d" if "sy_members s' c' = Some x" "sy_members s' d = Some y"
    "tm_nodeId (mb_manager x) = tm_nodeId (mb_manager y)" for c' d x y
    using mem [OF that(1)] mem [OF that(2)] that(3) associates_okD(5) [OF hub(8)] by auto
  ultimately have "associates_ok s'"
    unfolding associates_ok_def by (simp add: proj(1-3) init)
  with hub' know hub(9) show ?thesis by (simp add: group_inv_def proj(1-3) init(1))
qed

section \<open>Every reachable state\<close>

lemma system_init_group: "k < 2 ^ 63 \<Longrightarrow> group_inv k system_init"
  using TopologyServer_init_inv [of False "[]" k]
  by (simp add: group_inv_def system_init_def associates_ok_def knowledge_ok_def group_log_def all_messages_def
      paths_ok_def taken_def TopologyServer_init_def ordered_def no_zero_topic_def last_seq_def)

lemma internal_group:
  assumes "internal parse rng dparse dser j s s'" "group_inv (k + j) s"
  shows "group_inv k s'"
  using assms(1)
proof cases
  case (node c mb mb')
  with assms(2) show ?thesis by (auto intro: node_step_group)
next
  case (accepts c mb h)
  with assms(2) show ?thesis by (auto intro: accept_group)
next
  case (hub_reads c mb msg rest bs h)
  with assms(2) show ?thesis by (auto intro: data_group(1))
qed

lemma external_group:
  assumes "external dparse dser j s s'" "group_inv (k + j) s"
  shows "group_inv k s'"
  using assms(1)
proof cases
  case (starts c i g nm x)
  with assms(2) show ?thesis by (auto intro: start_group)
next
  case (calls c mb u n)
  with assms(2) show ?thesis by (auto intro: call_group)
next
  case (hangs_up c mb cl h)
  with assms(2) show ?thesis by (auto intro: hang_up_group)
next
  case (quits c mb)
  with assms(2) show ?thesis by (auto intro: quit_group)
qed

lemma purging_group: "purging j s s' \<Longrightarrow> all_back s \<Longrightarrow> group_inv (k + j) s \<Longrightarrow> group_inv k s'"
  by (erule purging.cases) (auto intro: purge_group)

lemma restart_reach_inv:
  "restart_reach parse dparse dser n s \<Longrightarrow> n + k < 2 ^ 63 \<Longrightarrow> group_inv k s"
proof (induction arbitrary: k rule: restart_reach.induct)
  case init
  then show ?case by (simp add: system_init_group)
next
  case (inside n s rng j s')
  then show ?case by (intro internal_group [OF inside.hyps(2)] inside.IH) simp
next
  case (outside n s j s')
  then show ?case by (intro external_group [OF outside.hyps(2)] outside.IH) simp
next
  case (purged n s j s')
  then show ?case by (intro purging_group [OF purged.hyps(3,2)] purged.IH) simp
next
  case (failed n s s')
  then show ?case by (intro fail_group [OF _ failed.hyps(2)] failed.IH) simp_all
qed

end
