(* ===== verification/SystemRecovery.thy ===== *)
theory SystemRecovery
  imports RestartReach
begin

text \<open>
  What a group achieves whose hub may die: after a restart, once the purge has taken away the nodes
  that died, the group delivers as it did before, however often that has happened.
\<close>

section \<open>The dead are noticed\<close>

text \<open>Steps during which the hub stays alive.\<close>

inductive running ::
  "(bytes \<Rightarrow> TopologyMessage) \<Rightarrow> (bytes \<Rightarrow> bool \<times> MetadataMessage) \<Rightarrow> (MetadataMessage \<Rightarrow> bytes) \<Rightarrow>
   nat \<Rightarrow> system \<Rightarrow> system \<Rightarrow> bool"
  for parse dparse dser where
  stay: "running parse dparse dser 0 s s"
| inside: "running parse dparse dser n s s' \<Longrightarrow> internal parse rng dparse dser j s' s'' \<Longrightarrow>
    running parse dparse dser (n + j) s s''"
| outside: "running parse dparse dser n s s' \<Longrightarrow> external dparse dser j s' s'' \<Longrightarrow>
    running parse dparse dser (n + j) s s''"
| purged: "running parse dparse dser n s s' \<Longrightarrow> all_back s' \<Longrightarrow> purging j s' s'' \<Longrightarrow>
    running parse dparse dser (n + j) s s''"

lemma running_reach:
  "running parse dparse dser j s s' \<Longrightarrow> restart_reach parse dparse dser n s \<Longrightarrow> restart_reach parse dparse dser (n + j) s'"
  by (induction rule: running.induct) (auto simp: add.assoc [symmetric] intro: restart_reach.intros(2-4))

text \<open>The hub knows no node that is not a member, and takes no member for another.\<close>

definition noticed :: "system \<Rightarrow> bool" where
  "noticed s \<longleftrightarrow> dom (topology (ts_history (sy_hub s))) \<subseteq> node_id ` ran (sy_members s)"

definition all_known :: "system \<Rightarrow> bool" where
  "all_known s \<longleftrightarrow> all_back s \<and> (\<forall>c mb. sy_members s c = Some mb \<longrightarrow> c \<in> fst ` set (ts_clients (sy_hub s)) \<longrightarrow>
     believed (sy_hub s) c = Some (node_id mb))"

lemma open_cell:
  assumes "joins m \<or> v \<noteq> None" "\<not> leaves m"
  shows "topology_cell m v \<noteq> None"
proof (cases "msg_op m")
  case (Node_change c)
  with assms show ?thesis
    by (cases "nc_op c") (auto simp: topology_cell_def joins_def leaves_def oneof_defs split: option.split)
qed (use assms in \<open>auto simp: topology_cell_def joins_def oneof_defs\<close>)

lemma topology_joined:
  assumes "m \<in> set ms" "joins m" "msg_key m = Some j" "\<forall>x\<in>set ms. leaves x \<longrightarrow> msg_key x \<noteq> Some j"
  shows "topology ms j \<noteq> None"
  using assms
proof (induction ms rule: rev_induct)
  case (snoc x ms)
  show ?case
  proof (cases "msg_key x = Some j")
    case False
    with snoc show ?thesis by (auto simp: topology_other_key)
  next
    case True
    with snoc.prems have "\<not> leaves x" by auto
    moreover have "joins x \<or> topology ms j \<noteq> None" using snoc by auto
    ultimately show ?thesis using open_cell [of x "topology ms j"] by (simp add: topology_step_at True)
  qed
qed simp

text \<open>Who is in the topology of a part of the log that has all about the nodes that have not left.\<close>

lemma topology_members:
  assumes K: "knowledge_ok paths K hist" "paths_ok paths" and j: "topology hist j \<noteq> None" and sorted: "sorted (map seq hist)"
  shows "j \<notin> left_ids hist" "\<exists>y\<in>set hist. joins y \<and> message_node_id y = j"
  using topology_gone [OF K knowledge_okD(1) [OF K(1)] sorted, of j] topology_address [of hist j] j by auto

lemma member_topology:
  assumes K: "knowledge_ok paths K hist" "paths_ok paths" and y: "y \<in> K" "joins y" "message_node_id y \<notin> left_ids hist"
  shows "topology hist (message_node_id y) \<noteq> None"
proof (rule topology_joined)
  show "y \<in> set hist" by (rule knowledge_okD(6) [OF K(1) y(1,3)])
  show "msg_key y = Some (message_node_id y)" using entry_node(3) [OF knowledge_okD(3) [OF K(1) y(1)] K(2)] .
  show "\<forall>x\<in>set hist. leaves x \<longrightarrow> msg_key x \<noteq> Some (message_node_id y)"
  proof (intro ballI impI)
    fix x assume x: "x \<in> set hist" "leaves x"
    then have "x \<in> K" using knowledge_okD(1) [OF K(1)] by blast
    with knowledge_okD(7) [OF K(1) this x(2)] entry_node(3) [OF knowledge_okD(3) [OF K(1)] K(2), of x] y(3)
    show "msg_key x \<noteq> Some (message_node_id y)" by auto
  qed
qed (rule y(2))

lemma topology_grows:
  assumes inv: "group_inv k s" and inv': "group_inv k' s'" and j: "topology (ts_history (sy_hub s')) j \<noteq> None"
    and sub: "set (ts_history (sy_hub s')) \<subseteq> set (ts_history (sy_hub s)) \<union> {x. \<not> joins x \<or> message_node_id x \<in> I}"
    and left: "left_ids (ts_history (sy_hub s)) \<subseteq> left_ids (ts_history (sy_hub s'))"
  shows "topology (ts_history (sy_hub s)) j \<noteq> None \<or> j \<in> I"
proof -
  note hub = group_hub [OF inv] and hub' = group_hub [OF inv']
  from topology_members [OF hub'(7,9) j ordered_sorted [OF hub'(6)]]
  obtain y where y: "y \<in> set (ts_history (sy_hub s'))" "joins y" "message_node_id y = j" "j \<notin> left_ids (ts_history (sy_hub s'))"
    by blast
  then have "y \<in> set (ts_history (sy_hub s)) \<or> j \<in> I" using sub by auto
  moreover have "topology (ts_history (sy_hub s)) j \<noteq> None" if "y \<in> set (ts_history (sy_hub s))"
    using member_topology [OF hub(7,9), of y] that knowledge_okD(1) [OF hub(7)] y left by blast
  ultimately show ?thesis by blast
qed

text \<open>Who the members are changes only when one comes or goes.\<close>

lemma node_ids_cong:
  assumes "\<And>d. map_option node_id (M' d) = map_option node_id (M d)"
  shows "node_id ` ran M' = node_id ` ran M"
  unfolding ran_map_option [symmetric] assms ..

lemma node_ids_set_member:
  assumes "sy_members s c = Some mb" "node_id mb' = node_id mb"
  shows "node_id ` ran (sy_members (set_member c mb' s)) = node_id ` ran (sy_members s)"
  by (rule node_ids_cong) (use assms in \<open>simp add: set_member_def\<close>)

lemma node_ids_hub_moves:
  "node_id ` ran (sy_members (hub_moves h s)) = node_id ` ran (sy_members s)"
  by (rule node_ids_cong) (simp add: hub_moves_def node_id_def [abs_def] option.map_comp comp_def)

lemma noticed_internal:
  assumes step: "internal parse rng dparse dser j s s'" and inv: "group_inv (k + j) s" and old: "noticed s"
  shows "noticed s'"
  using step
proof cases
  case (node c mb mb')
  have "node_id mb' = node_id mb"
    using associate.node_step_ok [OF node(4) associate_keptD [OF inv node(3)]] by (simp add: node_id_def)
  then show ?thesis
    using old node_ids_set_member [OF node(3)] by (simp add: noticed_def node(2)) (simp add: set_member_def)
next
  case (accepts c mb h)
  note hub = group_hub [OF inv]
  have "map_of (ts_clients (sy_hub s)) c = None" using accepts(5) by (simp add: map_of_eq_None_iff)
  then have "ts_history h = ts_history (sy_hub s)"
    using OnConnect_eq [OF ordered_sorted [OF hub(6)]] accepts(6) by auto
  then show ?thesis using old by (simp add: noticed_def accepts(2) node_ids_hub_moves)
next
  case (hub_reads c mb msg rest bs h)
  let ?mb = "mb\<lparr>mb_up := rest\<rparr>" and ?i = "tm_nodeId (mb_manager mb)"
  have inv': "group_inv k s'" by (rule internal_group [OF step inv])
  have "mb_up mb = parse bs # rest" using hub_reads by simp
  then have "told (sy_hub s) h ?i"
    using data_group(2) [where parse = parse and bs = bs, OF _ hub_reads(3,4) _ hub_reads(6,8)] inv hub_reads(1) by simp
  then have "topology (ts_history (sy_hub s)) i \<noteq> None \<or> i \<in> {?i}" if "topology (ts_history h) i \<noteq> None" for i
    using that by (intro topology_grows [OF inv inv']) (auto simp: told_def hub_reads(2))
  then have "dom (topology (ts_history h)) \<subseteq> insert ?i (dom (topology (ts_history (sy_hub s))))" by blast
  moreover have "?i \<in> node_id ` ran (sy_members s)" using hub_reads(3) by (auto simp: node_id_def ran_def)
  ultimately have "dom (topology (ts_history h)) \<subseteq> node_id ` ran (sy_members s)" using old unfolding noticed_def by blast
  moreover have "node_id ` ran (sy_members (hub_moves h (set_member c ?mb s))) = node_id ` ran (sy_members s)"
    using node_ids_hub_moves node_ids_set_member [OF hub_reads(3), of ?mb] by (simp add: node_id_def)
  ultimately show ?thesis by (simp add: noticed_def hub_reads(2))
qed

lemma noticed_external:
  assumes step: "external dparse dser j s s'" and inv: "group_inv (k + j) s" and old: "noticed s"
  shows "noticed s'"
  using step
proof cases
  case (starts c i g nm x)
  note mem = group_hub(8) [OF inv]
  have "sy_members s c = None" using associates_okD(2) [OF mem] starts(3) by auto
  then show ?thesis using old by (auto simp: noticed_def starts(2) set_member_def)
next
  case (calls c mb u n)
  let ?mb = "mb\<lparr>mb_node := n, mb_up := mb_up mb @ sent_since (mb_node mb) n\<rparr>"
  have "node_id ?mb = node_id mb"
    using associate.calls_ok [OF associate_keptD [OF inv calls(3)] calls(4), of dparse dser] calls(5)
    by (auto simp: same_identity_def node_id_def)
  then show ?thesis
    using old node_ids_set_member [OF calls(3)] by (simp add: noticed_def calls(2)) (simp add: set_member_def)
next
  case (quits c mb)
  have "i \<in> node_id ` ran ((sy_members s)(c := None))" if "topology (ts_history (sy_hub s)) i \<noteq> None" for i
  proof -
    from old that have "i \<in> node_id ` ran (sy_members s)" unfolding noticed_def by blast
    then obtain d mb' where "sy_members s d = Some mb'" "node_id mb' = i" by (auto simp: ran_def)
    moreover from this quits that have "d \<noteq> c" by (auto simp: node_id_def)
    ultimately show ?thesis by (auto simp: ran_def)
  qed
  then show ?thesis by (auto simp: noticed_def quits(2))
next
  case (hangs_up c mb cl h)
  let ?i = "tm_nodeId (mb_manager mb)" and ?M = "(sy_members s)(c := None)"
  note hub = group_hub [OF inv]
  have inv': "group_inv k s'" by (rule external_group [OF step inv])
  note cl = hangs_up(4,5)
  have "h = synced (ts_history (sy_hub s)) [leave_message (ts_nextSeq (sy_hub s)) ?i]
      (mint_leave ?i (sy_hub s)\<lparr>ts_clients := AList.delete c (ts_clients (sy_hub s))\<rparr>)"
    using OnDisconnect_eq [where k = k, OF _ cl(1)] hub(1) hangs_up cl(2) by simp
  then have hist: "ts_history (sy_hub s') = prune (ts_history (sy_hub s) @ [leave_message (ts_nextSeq (sy_hub s)) ?i])"
    by (simp add: hangs_up(2))
  have "i \<in> node_id ` ran ?M" if i: "topology (ts_history (sy_hub s')) i \<noteq> None" for i
  proof -
    note hub' = group_hub [OF inv']
    have "i \<noteq> ?i" using topology_members(1) [OF hub'(7,9) i ordered_sorted [OF hub'(6)]] by (auto simp: hist)
    have "\<not> joins (leave_message q n)" for q n by (simp add: joins_def)
    then have "set (ts_history (sy_hub s')) \<subseteq> set (ts_history (sy_hub s)) \<union> {x. \<not> joins x \<or> message_node_id x \<in> {}}"
      unfolding hist using set_prune by fastforce
    moreover have "left_ids (ts_history (sy_hub s)) \<subseteq> left_ids (ts_history (sy_hub s'))" by (auto simp: hist)
    ultimately have "topology (ts_history (sy_hub s)) i \<noteq> None" using topology_grows [OF inv inv' i] by blast
    with old have "i \<in> node_id ` ran (sy_members s)" unfolding noticed_def by blast
    then obtain d mb' where "sy_members s d = Some mb'" "node_id mb' = i" by (auto simp: ran_def)
    moreover from this \<open>i \<noteq> ?i\<close> hangs_up(3) have "d \<noteq> c" by (auto simp: node_id_def)
    ultimately show ?thesis by (auto simp: ran_def)
  qed
  moreover have "node_id ` ran (sy_members s') = node_id ` ran ?M" by (simp add: hangs_up(2) node_ids_hub_moves)
  ultimately show ?thesis by (auto simp: noticed_def)
qed

text \<open>After the purge nobody is left in the topology that the hub has not heard of.\<close>

lemma noticed_purging:
  assumes step: "purging j s s'" and inv: "group_inv (k + j) s" and all: "all_back s"
  shows "noticed s \<or> all_known s \<Longrightarrow> noticed s'"
  using step
proof cases
  case (purges order h)
  let ?h = "sy_hub s"
  note hub = group_hub [OF inv]
  have inv': "group_inv k s'" by (rule purging_group [OF step all inv])
  obtain ms h1 where ms: "list_all leaves ms" "left_ids ms = dom (topology (ts_history ?h)) - connected_ids ?h"
    and h: "h = synced (ts_history ?h) ms h1"
    by (rule purge_adds [OF inv [unfolded purges(1)] purges(3,4)])
  have hist: "ts_history (sy_hub s') = prune (ts_history ?h @ ms)" by (simp add: purges(2) h)
  assume known: "noticed s \<or> all_known s"
  have "i \<in> node_id ` ran (sy_members s)" if i: "topology (ts_history (sy_hub s')) i \<noteq> None" for i
  proof -
    note hub' = group_hub [OF inv']
    have left: "i \<notin> left_ids ms" using topology_members(1) [OF hub'(7,9) i ordered_sorted [OF hub'(6)]] by (simp add: hist)
    have "\<not> joins m" if "m \<in> set ms" for m using ms(1) that by (auto simp: list_all_iff leaves_def joins_def)
    then have "set (ts_history (sy_hub s')) \<subseteq> set (ts_history ?h) \<union> {x. \<not> joins x \<or> message_node_id x \<in> {}}"
      unfolding hist using set_prune [of "ts_history ?h @ ms"] by auto
    moreover have "left_ids (ts_history ?h) \<subseteq> left_ids (ts_history (sy_hub s'))" by (auto simp: hist)
    ultimately have dom: "i \<in> dom (topology (ts_history ?h))" using topology_grows [OF inv inv' i] by blast
    show ?thesis
    proof (cases "noticed s")
      case True
      with dom show ?thesis unfolding noticed_def by blast
    next
      case False
      have "distinct (map fst (ts_clients ?h))" using hub(1) by (simp add: hub_inv_def hub_ok_def)
      moreover from dom left ms(2) have "i \<in> connected_ids ?h" by blast
      ultimately obtain c cl where cl: "map_of (ts_clients ?h) c = Some cl" "cl_nodeId cl = i"
        by (auto simp: connected_ids_def)
      then have c: "c \<in> fst ` set (ts_clients ?h)" by (force dest: map_of_SomeD)
      with associates_okD(3) [OF hub(8)] obtain mb where "sy_members s c = Some mb" by blast
      with known False c cl show ?thesis unfolding all_known_def believed_def by (force simp: ran_def)
    qed
  qed
  moreover have "node_id ` ran (sy_members s') = node_id ` ran (sy_members s)" by (simp add: purges(2) node_ids_hub_moves)
  ultimately show ?thesis by (auto simp: noticed_def)
qed

lemma noticed_running:
  "running parse dparse dser n s s' \<Longrightarrow> group_inv (k + n) s \<Longrightarrow> noticed s \<Longrightarrow> group_inv k s' \<and> noticed s'"
proof (induction arbitrary: k rule: running.induct)
  case (inside n s s' rng j s'')
  have "group_inv (k + j) s' \<and> noticed s'" using inside.prems by (intro inside.IH) (simp_all add: ac_simps)
  then show ?case using internal_group [OF inside.hyps(2)] noticed_internal [OF inside.hyps(2)] by blast
next
  case (outside n s s' j s'')
  have "group_inv (k + j) s' \<and> noticed s'" using outside.prems by (intro outside.IH) (simp_all add: ac_simps)
  then show ?case using external_group [OF outside.hyps(2)] noticed_external [OF outside.hyps(2)] by blast
next
  case (purged n s s' j s'')
  have "group_inv (k + j) s' \<and> noticed s'" using purged.prems by (intro purged.IH) (simp_all add: ac_simps)
  then show ?case using purging_group [OF purged.hyps(3,2)] noticed_purging [OF purged.hyps(3) _ purged.hyps(2)] by blast
qed simp

section \<open>The group at rest\<close>

text \<open>A member that waits, with nothing under way, is known to the hub, and its table is right.\<close>

lemma resting_member:
  assumes inv: "group_inv k s" and rest: "quiescent s" and mb: "sy_members s c = Some mb"
  shows "c \<in> fst ` set (ts_clients (sy_hub s))" "topology (ts_history (sy_hub s)) (node_id mb) \<noteq> None"
    "dom (in_subscriptions (mb_node mb)) = asks (node_id mb) (ts_history (sy_hub s))"
    "sy_paths s (node_id mb) = Some (tm_address (mb_manager mb))" "node_id mb \<notin> left_ids (ts_history (sy_hub s))"
proof -
  let ?h = "sy_hub s"
  note hub = group_hub [OF inv] and ok = associateD [OF inv mb]
  have idle: "mb_pc mb = Waiting 0" "mb_up mb = []" using rest mb by (auto simp: quiescent_def)
  show "sy_paths s (node_id mb) = Some (tm_address (mb_manager mb))" and left: "node_id mb \<notin> left_ids (ts_history ?h)"
    using ok by (auto simp: associate_ok_def node_id_def)
  have box: "believed ?h c = Some (node_id mb)" "\<exists>x\<in>set (ts_history ?h). message_node_id x = node_id mb"
    using ok idle by (auto simp: associate_ok_def mailbox_ok_def still_introducing_def node_id_def Let_def)
  show "c \<in> fst ` set (ts_clients ?h)" unfolding registered_iff using box(1) by (auto simp: believed_def)
  from box(2) left knowledge_okD(9) [OF hub(7)] knowledge_okD(1) [OF hub(7)]
  obtain y where "y \<in> group_log s" "joins y" "message_node_id y = node_id mb" by (metis subsetD)
  with member_topology [OF hub(7,9)] left show "topology (ts_history ?h) (node_id mb) \<noteq> None" by metis
  show "dom (in_subscriptions (mb_node mb)) = asks (node_id mb) (ts_history ?h)"
    using ok idle by (simp add: associate_ok_def asked_ok_def requests_ok_def node_id_def Let_def)
qed

text \<open>Nodes that have left are in no table of the group at rest.\<close>

lemma resting_table:
  assumes inv: "group_inv k s" and rest: "quiescent s" and mb: "sy_members s c = Some mb"
  shows "j \<in> left_ids (ts_history (sy_hub s)) \<Longrightarrow> abs_topology (mb_manager mb) j = None"
    "j \<notin> left_ids (ts_history (sy_hub s)) \<Longrightarrow>
      table_view (abs_topology (mb_manager mb)) j = said (sy_paths s) (ts_history (sy_hub s)) j"
    "abs_topology (mb_manager mb) j = Some v \<Longrightarrow> sy_paths s j = Some (nv_address v)"
proof -
  let ?h = "sy_hub s" and ?m = "mb_manager mb"
  note hub = group_hub [OF inv] and ok = associateD [OF inv mb] and con = resting_member(1) [OF assms]
  have down: "mb_down mb = []" using rest mb by (auto simp: quiescent_def)
  have view: "view_ok False ?h c" using hub(1) con unfolding hub_inv_def by blast
  show "abs_topology ?m j = None" if "j \<in> left_ids (ts_history ?h)"
  proof -
    obtain V where "abs_topology ?m = fold topology_step (stream c (ts_wire ?h)) V"
      using ok down by (auto simp: associate_ok_def fed_ok_def)
    with replay_left [of "stream c (ts_wire ?h)" j V] view that show ?thesis by (simp add: view_ok_def)
  qed
  have table: "table_ok_for (sy_paths s) (left_ids (ts_history ?h)) ?m" using ok by (simp add: associate_ok_def)
  then show "abs_topology ?m j = Some v \<Longrightarrow> sy_paths s j = Some (nv_address v)" by (auto simp: table_ok_for_def)
  have "said (sy_paths s) (tm_history ?m) j = said (sy_paths s) (ts_history ?h) j" if j: "j \<notin> left_ids (ts_history ?h)"
  proof -
    have same: "x \<in> set (tm_history ?m) \<longleftrightarrow> x \<in> set (ts_history ?h)" if "message_node_id x = j" for x
      using survivor_history(6) [OF inv mb down con] knowledge_okD(6) [OF hub(7)] group_log_mem(3) [OF mb] j that by auto
    then have "asks j (tm_history ?m) = asks j (ts_history ?h)" by (rule asks_same)
    with same show ?thesis by (auto simp: said_def)
  qed
  with table show "j \<notin> left_ids (ts_history ?h) \<Longrightarrow> table_view (abs_topology ?m) j = said (sy_paths s) (ts_history ?h) j"
    by (simp add: table_ok_for_def)
qed

lemma resting_delivers:
  assumes inv: "group_inv k s" and rest: "quiescent s" and known: "noticed s" and mb: "sy_members s c = Some mb"
  shows "delivers dser topic data mb s"
proof -
  let ?h = "sy_hub s" and ?m = "mb_manager mb" and ?hist = "ts_history (sy_hub s)"
  note hub = group_hub [OF inv] and ok = associateD [OF inv mb]
  have joined: "(\<exists>y\<in>set ?hist. joins y \<and> message_node_id y = j) \<longleftrightarrow> topology ?hist j \<noteq> None" if "j \<notin> left_ids ?hist" for j
    using topology_members(2) [OF hub(7,9) _ ordered_sorted [OF hub(6)], of j] member_topology [OF hub(7,9)]
      knowledge_okD(1) [OF hub(7)] that by blast
  show ?thesis
  proof (rule table_delivers)
    show "node_wf (mb_node mb)" "nbr_path (mb_node mb) = mgr_path ?m" using ok by (auto simp: associate_ok_def fed_ok_def)
    show "inj_on node_id (ran (sy_members s))"
      using associates_okD(5) [OF hub(8)] by (auto simp: inj_on_def ran_def node_id_def) (metis option.inject)
    show "\<exists>v. abs_topology ?m (node_id mb') = Some v \<and> nv_address v = tm_address (mb_manager mb') \<and> nv_address v \<noteq> [] \<and>
        nv_subs v = dom (in_subscriptions (mb_node mb'))" if mem: "mb' \<in> ran (sy_members s)" for mb'
    proof -
      obtain d where d: "sy_members s d = Some mb'" using mem by (auto simp: ran_def)
      note r = resting_member [OF inv rest d]
      from resting_table(2) [OF inv rest mb r(5)] joined [OF r(5)] r(2,3,4)
      have "table_view (abs_topology ?m) (node_id mb') =
          Some (tm_address (mb_manager mb'), dom (in_subscriptions (mb_node mb')))" by (simp add: said_def)
      moreover have "tm_address (mb_manager mb') \<noteq> []" using r(4) hub(9) by (auto simp: paths_ok_def ran_def)
      ultimately show ?thesis by (auto simp: table_view_def)
    qed
    show "dom (abs_topology ?m) \<subseteq> node_id ` ran (sy_members s)"
    proof
      fix j assume j: "j \<in> dom (abs_topology ?m)"
      then have left: "j \<notin> left_ids ?hist" using resting_table(1) [OF inv rest mb, of j] by auto
      have "said (sy_paths s) ?hist j \<noteq> None"
        using j unfolding resting_table(2) [OF inv rest mb left, symmetric] by (auto simp: table_view_def)
      then have "topology ?hist j \<noteq> None" using joined [OF left] by (auto simp: said_def split: if_splits)
      then show "j \<in> node_id ` ran (sy_members s)" using known unfolding noticed_def by blast
    qed
  qed
qed

text \<open>
  C2: A group survives orderly failures of its hub. The hub may die repeatedly, together with any
  nodes, at moments that are orderly (\<open>orderly_failure\<close>): every survivor waits on its connection or
  is not connected yet, no survivor has a message on its way to the hub, and the new hub is
  started by a connected survivor that has read all it was sent. The others may have any part of it
  still to read, which they lose. They connect to the new hub, send it everything they have, and are
  sent everything it has, while users go on calling and nodes come and go (as in \<open>system_delivers\<close>).
  Let the purge of the latest hub come when every survivor that the hub's history knows is back and the hub has
  read, on each of its connections, a message about the node there (\<open>all_known\<close>; nodes may have died
  that nobody has said anything about). From then on for as long as that hub lives: when the group is
  at rest, what any node publishes goes, as one datagram each, to exactly the nodes whose users have
  called \<open>Subscribe\<close> for the topic, at the addresses they were created with. Messages a survivor got
  from hubs before, twice, or only in part, and what is left in its table of nodes that died, make no
  difference. Nothing is claimed of failures at other moments, after which requests that were on their
  way are lost and ghosts may stay (\<open>split_history_leaves_ghosts\<close>), nor of a purge that comes earlier
  (\<open>early_purge_exiles\<close>).
\<close>

theorem group_recovers:
  assumes reach: "restart_reach parse dparse dser n s0" and all: "all_known s0" and purge: "purging j s0 s1"
    and run: "running parse dparse dser i s1 s" and room: "n + j + i < 2 ^ 63" and rest: "quiescent s"
    and mb: "sy_members s c = Some mb"
  shows "delivers dser topic data mb s"
proof -
  have inv: "group_inv (i + j) s0" using restart_reach_inv [OF reach, of "i + j"] room by simp
  have ready: "all_back s0" using all by (simp add: all_known_def)
  have "group_inv i s1" by (rule purging_group [OF purge ready inv])
  moreover have "noticed s1" using noticed_purging [OF purge inv ready] all by blast
  ultimately have "group_inv 0 s \<and> noticed s" using noticed_running [OF run, of 0] by simp
  then show ?thesis using resting_delivers [OF _ rest _ mb] by blast
qed

text \<open>
  C4: A group whose hub has died in an orderly way comes to rest again. From every state that such a group
  can reach through orderly failures only (\<open>orderly_failure\<close>: no survivor in the middle of its
  introduction or with a message on its way to the hub, the new hub seeded by a survivor that is up to
  date) and purges that find every survivor the hub knows back (\<open>all_back\<close>), users making no more
  calls and nobody coming or going, the processes cannot go on for ever; and where none can move
  everybody is connected, every message has been read and every main thread waits. The histories the
  survivors send, with all the copies in them, make no handler of the new hub fail. After other failures a
  handler can fail: a hub that is behind a survivor stops at an assertion when it is sent a message
  without a uid, such as a \<open>LEAVE\<close> it has not got itself.
\<close>

theorem group_settles:
  assumes reach: "restart_reach parse dparse dser n s" and room: "n + 1 < 2 ^ 63"
    and codec: "\<forall>c mb m. sy_members s c = Some mb \<longrightarrow> m \<in> set (mb_up mb) \<longrightarrow> (\<exists>bs. bs \<noteq> [] \<and> parse bs = m)"
  shows "\<not> (\<exists>f. f 0 = s \<and> (\<forall>i. \<exists>j. internal parse rng dparse dser j (f i) (f (Suc i)))) \<and>
    ((\<forall>j s'. \<not> internal parse rng dparse dser j s s') \<longrightarrow> quiescent s)"
proof -
  have inv: "group_inv (Suc 0) s" using restart_reach_inv [OF reach, of "Suc 0"] room by simp
  note hub = group_hub [OF inv]
  have "quiescent s" if stuck: "\<forall>j s'. \<not> internal parse rng dparse dser j s s'"
  proof (rule stuck_quiescent [OF _ ordered_sorted [OF hub(6)] data_group_total [OF inv] codec stuck [rule_format]])
    fix c mb assume mb: "sy_members s c = Some mb" and still: "\<And>mb'. \<not> node_step dparse dser mb mb'"
    show "mb_pc mb = Waiting 0 \<and> mb_down mb = []" using associate.stuck_waits [OF associate_keptD [OF inv mb] still] by auto
  qed
  with internal_terminates [OF associates_okD(1) [OF hub(8)]] show ?thesis by blast
qed

section \<open>A restart\<close>

text \<open>
  The group of \<open>SystemProperties\<close>: the hub dies with node 8. Node 7 starts a new one from its
  history, connects, and sends it that history and itself; the purge ends node 8, and node 9 joins.
\<close>

definition recovery_parse :: "bytes \<Rightarrow> TopologyMessage" where
  "recovery_parse bs =
     (if bs = [5] then topic_msg 2 9 SUBSCRIBE 7 ''t'' []
      else if bs = [6] then node_msg 3 9 JOIN 8 ''n'' (data_path 8)
      else if bs = [7] then node_msg 0 0 JOIN 9 ''n'' (data_path 9)
      else group_parse bs)"

definition rejoin_actions :: "action list" where
  "rejoin_actions = [Main 5, Accept 5, Main 5, Main 5, Hub_reads 5 [4], Read 5, Hub_reads 5 [5], Hub_reads 5 [6],
     Hub_reads 5 [1], Main 5, Main 5, Hub_reads 5 [2]]"

definition newcomer_actions :: "action list" where
  "newcomer_actions = [Start 4 9, Main 4, Accept 4, Main 4, Main 4, Main 4, Main 4, Hub_reads 4 [7],
     Read 5, Read 5, Read 5, Read 5, Read 5, Read 5, Read 4, Read 4, Read 4, Read 4, Read 4, Read 4]"

abbreviation "recovery_steps \<equiv> take_steps recovery_parse (\<lambda>_. 9) group_decode mm_inlined"

text \<open>The first two states, after some steps of the rest of the group with its new hub, and the purge.\<close>

definition restarted_run :: "action list \<Rightarrow> (nat \<times> system \<times> nat \<times> system) option" where
  "restarted_run as = (case recovery_steps group_actions (0, system_init) of
      None \<Rightarrow> None
    | Some (n, s) \<Rightarrow> (case sy_members s 5 of None \<Rightarrow> None | Some mb \<Rightarrow>
        map_option (\<lambda>(n', s'). (n, s, n', s')) (recovery_steps as (n, hub_lost {6} (mb_manager mb) s))))"

definition recovery_run :: "(nat \<times> system \<times> nat \<times> system \<times> TopologyServer \<times> nat \<times> system) option" where
  "recovery_run = (case restarted_run rejoin_actions of
      None \<Rightarrow> None
    | Some (n, s, n', s') \<Rightarrow> (case PurgeDisconnected (\<lambda>ns. ns) (sy_hub s') of
        Inl e \<Rightarrow> None
      | Inr h \<Rightarrow> map_option (\<lambda>(i, s''). (n, s, n', s', h, i, s''))
          (recovery_steps newcomer_actions (0, hub_moves h s'))))"

definition first_facts :: "nat \<Rightarrow> system \<Rightarrow> bool" where
  "first_facts n s \<longleftrightarrow> n = 6 \<and> sy_used s = {5, 6} \<and> idle_member 5 s"

definition run_facts :: "nat \<Rightarrow> system \<Rightarrow> nat \<Rightarrow> system \<Rightarrow> bool" where
  "run_facts n' s' i s'' \<longleftrightarrow>
     n' = 12 \<and> sy_used s' = {5, 6} \<and> sy_members s' 6 = None \<and> active_count (sy_hub s') = 2 \<and>
     believed (sy_hub s') 5 = Some 7 \<and> connected_ids (sy_hub s') = {7} \<and>
     (case sy_members s' 5 of None \<Rightarrow> False | Some mb \<Rightarrow> node_id mb = 7) \<and>
     i = 2 \<and> sy_used s'' = {4, 5, 6} \<and> sy_members s'' 6 = None \<and> idle_member 4 s'' \<and> idle_member 5 s'' \<and>
     has_callback ''t'' 5 s'' \<and> \<not> has_callback ''t'' 4 s''"

lemma recovery_run_facts:
  "case recovery_run of None \<Rightarrow> False | Some (n, s, n', s', h, i, s'') \<Rightarrow> first_facts n s \<and> run_facts n' s' i s''"
  by code_simp

definition rejoining_outbox :: "system \<Rightarrow> bool" where
  "rejoining_outbox s = (case sy_members s 5 of None \<Rightarrow> False | Some mb \<Rightarrow> mb_up mb \<noteq> [] \<and>
     list_all (\<lambda>m. list_ex (\<lambda>b. recovery_parse [b] = m) [1, 2, 4, 5, 6]) (mb_up mb))"

lemma restarted_run_facts:
  "case restarted_run (take 3 rejoin_actions) of None \<Rightarrow> False
   | Some (n, s, n', s') \<Rightarrow> first_facts n s \<and> n' = 7 \<and> sy_used s' = {5, 6} \<and> sy_members s' 6 = None \<and> rejoining_outbox s'"
  by code_simp

lemma take_steps_running:
  "take_steps parse rng dparse dser as (n, s) = Some (n', s') \<Longrightarrow> running parse dparse dser n s0 s \<Longrightarrow>
   running parse dparse dser n' s0 s'"
proof (induction as arbitrary: n s)
  case (Cons a as)
  then obtain j s1 where "take_step parse rng dparse dser a s = Some (j, s1)"
    "take_steps parse rng dparse dser as (n + j, s1) = Some (n', s')" by (auto split: option.splits)
  with Cons.IH Cons.prems(2) take_step_sound [of parse rng dparse dser a s j s1] show ?case
    by (blast intro: running.inside running.outside)
qed simp

lemma take_steps_restart:
  "take_steps parse rng dparse dser as (n, s) = Some (n', s') \<Longrightarrow> restart_reach parse dparse dser n s \<Longrightarrow>
   restart_reach parse dparse dser n' s'"
proof (induction as arbitrary: n s)
  case (Cons a as)
  then obtain j s1 where "take_step parse rng dparse dser a s = Some (j, s1)"
    "take_steps parse rng dparse dser as (n + j, s1) = Some (n', s')" by (auto split: option.splits)
  with Cons.IH Cons.prems(2) take_step_sound [of parse rng dparse dser a s j s1] show ?case
    by (blast intro: restart_reach.inside restart_reach.outside)
qed simp

lemma restarted_reach:
  assumes run: "restarted_run as = Some (n, s, n', s')" and f: "first_facts n s"
  shows "restart_reach recovery_parse group_decode mm_inlined n' s'"
proof -
  from run obtain mb where first: "recovery_steps group_actions (0, system_init) = Some (n, s)" "sy_members s 5 = Some mb"
    and second: "recovery_steps as (n, hub_lost {6} (mb_manager mb) s) = Some (n', s')"
    unfolding restarted_run_def by (auto split: option.splits)
  have reach: "restart_reach recovery_parse group_decode mm_inlined n s"
    by (rule take_steps_restart [OF first(1) restart_reach.init])
  then have inv: "group_inv 0 s"
    using restart_reach_inv [of recovery_parse group_decode mm_inlined n s 0] f by (simp add: first_facts_def)
  have idle: "mb_pc mb = Waiting 0 \<and> mb_up mb = [] \<and> mb_down mb = []"
    using f first(2) by (simp add: first_facts_def idle_member_def)
  have five: "d = 5" if "d \<notin> {6}" "sy_members s d = Some x" for d x
    using associates_okD(2) [OF group_hub(8) [OF inv]] that f by (auto simp: first_facts_def)
  have "orderly_failure s (hub_lost {6} (mb_manager mb) s)"
  proof (rule orderly_failure.fails [OF first(2)], simp, simp add: idle, simp add: idle, intro allI impI)
    fix d x assume "d \<notin> {6}" "sy_members s d = Some x"
    with five first(2) have "x = mb" by (metis option.inject)
    with idle show "mb_pc x \<in> {At_top, Waiting 0} \<and> mb_up x = []" by simp
  qed
  then have "restart_reach recovery_parse group_decode mm_inlined n (hub_lost {6} (mb_manager mb) s)"
    by (rule restart_reach.failed [OF reach])
  then show ?thesis by (rule take_steps_restart [OF second])
qed

text \<open>The states of the run, and what is known of them.\<close>

lemma recovery_states:
  obtains s0 s1 s where "restart_reach recovery_parse group_decode mm_inlined 12 s0" "all_known s0"
    "purging 3 s0 s1" "running recovery_parse group_decode mm_inlined 2 s1 s"
    "sy_used s = {4, 5, 6}" "sy_members s 6 = None" "idle_member 4 s" "idle_member 5 s"
    "has_callback ''t'' 5 s" "\<not> has_callback ''t'' 4 s"
proof -
  obtain x where "recovery_run = Some x" using recovery_run_facts by (cases recovery_run) simp_all
  then obtain n s n' s0 h i s' where run: "recovery_run = Some (n, s, n', s0, h, i, s')" by (metis surj_pair)
  have facts: "first_facts n s" "run_facts n' s0 i s'"
    using recovery_run_facts unfolding run by (simp_all only: option.case prod.case)
  note f = facts(2) [unfolded run_facts_def]
  from run have start: "restarted_run rejoin_actions = Some (n, s, n', s0)"
    and purge: "PurgeDisconnected (\<lambda>ns. ns) (sy_hub s0) = Inr h"
    and last: "recovery_steps newcomer_actions (0, hub_moves h s0) = Some (i, s')"
    unfolding recovery_run_def by (auto split: option.splits sum.splits)
  note reach = restarted_reach [OF start facts(1)]
  have inv: "group_inv 0 s0" using restart_reach_inv [OF reach, of 0] f by simp
  have "d = 5 \<and> node_id x = 7" if "sy_members s0 d = Some x" for d x
    using associates_okD(2) [OF group_hub(8) [OF inv]] that f by (auto split: option.splits)
  then have "all_known s0" using f unfolding all_known_def all_back_def by (auto simp: ran_def node_id_def)
  moreover have "purging 3 s0 (hub_moves h s0)"
    using purging.purges [OF refl purge] f by (simp add: numeral_3_eq_3 numeral_2_eq_2)
  moreover have "running recovery_parse group_decode mm_inlined i (hub_moves h s0) s'"
    by (rule take_steps_running [OF last running.stay])
  ultimately show thesis using that [of s0 "hub_moves h s0" s'] reach f by simp
qed

lemma group_recovers_witness:
  "\<exists>s0 s1 s mb. restart_reach recovery_parse group_decode mm_inlined 12 s0 \<and> all_known s0 \<and> purging 3 s0 s1 \<and>
    running recovery_parse group_decode mm_inlined 2 s1 s \<and> quiescent s \<and> sy_members s 4 = Some mb \<and>
    delivers mm_inlined ''t'' [1, 2] mb s \<and> card (subscribed ''t'' s) = 1"
proof -
  obtain s0 s1 s where r: "restart_reach recovery_parse group_decode mm_inlined 12 s0" "all_known s0"
    "purging 3 s0 s1" "running recovery_parse group_decode mm_inlined 2 s1 s"
    and s: "sy_used s = {4, 5, 6}" "sy_members s 6 = None" "idle_member 4 s" "idle_member 5 s"
    "has_callback ''t'' 5 s" "\<not> has_callback ''t'' 4 s" by (rule recovery_states)
  have "restart_reach recovery_parse group_decode mm_inlined (12 + 3) s1"
    using r(1,2,3) by (intro restart_reach.purged) (simp_all add: all_known_def)
  from restart_reach_inv [OF running_reach [OF r(4) this], of 0] have "group_inv 0 s" by simp
  then have mem: "d = 4 \<or> d = 5" if "sy_members s d = Some x" for d x
    using associates_okD(2) [OF group_hub(8)] that s(1,2) by fastforce
  obtain m4 m5 where m: "sy_members s 4 = Some m4" "sy_members s 5 = Some m5"
    using s(3,4) by (auto simp: idle_member_def split: option.splits)
  have rest: "quiescent s"
    unfolding quiescent_def
  proof (intro allI impI)
    fix c mb assume mb: "sy_members s c = Some mb"
    from mem [OF mb] show "mb_pc mb = Waiting 0 \<and> mb_up mb = [] \<and> mb_down mb = []"
      using s(3,4) mb by (auto simp: idle_member_def)
  qed
  have "subscribed ''t'' s = {m5}"
  proof (intro set_eqI iffI)
    fix mb assume "mb \<in> subscribed ''t'' s"
    then obtain c where c: "sy_members s c = Some mb" "''t'' \<in> dom (in_subscriptions (mb_node mb))"
      by (auto simp: subscribed_def ran_def)
    with has_callback_iff s(6) mem [OF c(1)] have "c = 5" by blast
    with c m(2) show "mb \<in> {m5}" by simp
  next
    fix mb assume "mb \<in> {m5}"
    then show "mb \<in> subscribed ''t'' s"
      using has_callback_iff [OF m(2), of "''t''"] s(5) ranI [of "sy_members s", OF m(2)] by (simp add: subscribed_def)
  qed
  then have "card (subscribed ''t'' s) = 1" by simp
  moreover have "delivers mm_inlined ''t'' [1, 2] m4 s" by (rule group_recovers [OF r _ rest m(1)]) simp
  ultimately show ?thesis using r rest m(1) by blast
qed

lemma group_settles_witness:
  "\<exists>s. restart_reach recovery_parse group_decode mm_inlined 7 s \<and>
    (\<exists>c mb. sy_members s c = Some mb \<and> mb_up mb \<noteq> []) \<and>
    \<not> (\<exists>f. f 0 = s \<and> (\<forall>i. \<exists>j. internal recovery_parse (\<lambda>_. 9) group_decode mm_inlined j (f i) (f (Suc i)))) \<and>
    ((\<forall>j s'. \<not> internal recovery_parse (\<lambda>_. 9) group_decode mm_inlined j s s') \<longrightarrow> quiescent s)"
proof -
  obtain x where "restarted_run (take 3 rejoin_actions) = Some x"
    using restarted_run_facts by (cases "restarted_run (take 3 rejoin_actions)") simp_all
  then obtain n0 s0 n s where run: "restarted_run (take 3 rejoin_actions) = Some (n0, s0, n, s)" by (metis surj_pair)
  have first: "first_facts n0 s0"
    and f: "n = 7 \<and> sy_used s = {5, 6} \<and> sy_members s 6 = None \<and> rejoining_outbox s"
    using restarted_run_facts unfolding run by (simp_all only: option.case prod.case)
  have reach: "restart_reach recovery_parse group_decode mm_inlined n s" by (rule restarted_reach [OF run first])
  then have inv: "group_inv 0 s" using restart_reach_inv [OF reach, of 0] f by simp
  have mem: "c = 5" if "sy_members s c = Some mb" for c mb
    using associates_okD(2) [OF group_hub(8) [OF inv]] that f by auto
  have codec: "\<forall>c mb m. sy_members s c = Some mb \<longrightarrow> m \<in> set (mb_up mb) \<longrightarrow> (\<exists>bs. bs \<noteq> [] \<and> recovery_parse bs = m)"
  proof (intro allI impI)
    fix c mb m assume mb: "sy_members s c = Some mb" and m: "m \<in> set (mb_up mb)"
    then have "list_ex (\<lambda>b. recovery_parse [b] = m) [1, 2, 4, 5, 6]"
      using f mem [OF mb] by (auto simp: rejoining_outbox_def list_all_iff simp del: list_ex_Cons_iff)
    then show "\<exists>bs. bs \<noteq> [] \<and> recovery_parse bs = m" unfolding list_ex_iff by blast
  qed
  have "\<exists>c mb. sy_members s c = Some mb \<and> mb_up mb \<noteq> []"
    using f by (auto simp: rejoining_outbox_def split: option.splits)
  moreover have n: "n = 7" using f by simp
  moreover have "(7::nat) + 1 < 2 ^ 63" by simp
  from group_settles [OF reach [unfolded n] this codec, of "\<lambda>_. 9"]
  have "\<not> (\<exists>f. f 0 = s \<and> (\<forall>i. \<exists>j. internal recovery_parse (\<lambda>_. 9) group_decode mm_inlined j (f i) (f (Suc i)))) \<and>
    ((\<forall>j s'. \<not> internal recovery_parse (\<lambda>_. 9) group_decode mm_inlined j s s') \<longrightarrow> quiescent s)" .
  ultimately show ?thesis using reach [unfolded n] by blast
qed

end
