(* ===== verification/SharedMemory.thy ===== *)
theory SharedMemory
  imports Utils
begin

text \<open>
  \<open>lib/Publisher.cc\<close>, \<open>lib/Subscriber.cc\<close> and \<open>lib/IPCMessage.cc\<close>: the older pair of classes
  that passes large messages as descriptors of shared memory objects. The publisher's state
  includes what the kernel holds for it: the named objects, their contents and its open
  descriptors. The results of the system calls are arguments.
\<close>

section \<open>The address\<close>

text \<open>A \<open>std::string\<close> made from a literal ends at the first zero byte of the literal.\<close>

definition c_string :: "string \<Rightarrow> string" where
  "c_string literal = takeWhile (\<lambda>ch. ch \<noteq> NUL) literal"

definition socket_path :: string where
  "socket_path = c_string (NUL # ''socket'')"

definition socket_address :: "string res" where
  "socket_address =
     bind_res (assert_that Path_fits (length socket_path + 1 < sun_path_size) ()) (\<lambda>_.
     copy_path socket_path zero_path)"

section \<open>The publisher\<close>

record Publisher =
  pb_clients :: "fd list"
  pb_names :: "string \<rightharpoonup> nat"        \<comment> \<open>linked shared memory objects\<close>
  pb_objects :: "nat \<rightharpoonup> bytes"       \<comment> \<open>their contents\<close>
  pb_fds :: "fd \<rightharpoonup> nat"              \<comment> \<open>open descriptors of objects\<close>
  pb_wire :: "(fd \<times> bytes \<times> nat) list" \<comment> \<open>messages accepted by the sockets: metadata, object\<close>

definition on_accept :: "int \<Rightarrow> Publisher \<Rightarrow> Publisher" where
  "on_accept cl s = (if cl = -1 then s else s\<lparr>pb_clients := pb_clients s @ [cl]\<rparr>)"

text \<open>
  The constructor up to the start of its accept thread. \<open>None\<close>: the process has called \<open>exit\<close>.
  \<open>bind\<close> is the system call as a function of the address.
\<close>

definition Publisher_start :: "int \<Rightarrow> (string \<Rightarrow> int) \<Rightarrow> int \<Rightarrow> fd option res" where
  "Publisher_start sock bind listen =
     bind_res socket_address (\<lambda>addr.
     Inr (if sock = -1 then None
          else if bind addr = -1 then None
          else if listen = -1 then None
          else Some sock))"

subsection \<open>System calls\<close>

text \<open>
  \<open>shm_open\<close> with \<open>O_CREAT\<close> (and neither \<open>O_EXCL\<close> nor \<open>O_TRUNC\<close>) opens an existing object
  as it is; \<open>obj\<close> is the object the kernel makes otherwise.
\<close>

definition shm_open_create :: "string \<Rightarrow> fd \<Rightarrow> nat \<Rightarrow> Publisher \<Rightarrow> Publisher" where
  "shm_open_create name f obj s =
     (case pb_names s name of
        Some old \<Rightarrow> s\<lparr>pb_fds := (pb_fds s)(f \<mapsto> old)\<rparr>
      | None \<Rightarrow> s\<lparr>pb_names := (pb_names s)(name \<mapsto> obj), pb_objects := (pb_objects s)(obj \<mapsto> []),
                 pb_fds := (pb_fds s)(f \<mapsto> obj)\<rparr>)"

definition shm_open_existing :: "string \<Rightarrow> fd \<Rightarrow> Publisher \<Rightarrow> Publisher" where
  "shm_open_existing name f s =
     (case pb_names s name of Some obj \<Rightarrow> s\<lparr>pb_fds := (pb_fds s)(f \<mapsto> obj)\<rparr> | None \<Rightarrow> s)"

definition shm_write :: "fd \<Rightarrow> bytes \<Rightarrow> Publisher \<Rightarrow> Publisher" where
  "shm_write f written s =
     (case pb_fds s f of None \<Rightarrow> s
      | Some obj \<Rightarrow> s\<lparr>pb_objects := (pb_objects s)(obj \<mapsto>
          written @ drop (length written) (the (pb_objects s obj)))\<rparr>)"

definition shm_unlink :: "string \<Rightarrow> Publisher \<Rightarrow> Publisher" where
  "shm_unlink name s = s\<lparr>pb_names := (pb_names s)(name := None)\<rparr>"

definition close_fd :: "fd \<Rightarrow> Publisher \<Rightarrow> Publisher" where
  "close_fd f s = s\<lparr>pb_fds := (pb_fds s)(f := None)\<rparr>"

text \<open>\<open>sendmsg\<close> with a descriptor that is not open fails.\<close>

definition sendmsg :: "(fd \<Rightarrow> bool) \<Rightarrow> bytes \<Rightarrow> fd \<Rightarrow> fd \<Rightarrow> Publisher \<Rightarrow> Publisher" where
  "sendmsg accepts metadata f client s =
     (case pb_fds s f of None \<Rightarrow> s
      | Some obj \<Rightarrow>
          if accepts client then s\<lparr>pb_wire := pb_wire s @ [(client, metadata, obj)]\<rparr> else s)"

subsection \<open>\<open>Send\<close>\<close>

text \<open>The results of the system calls of one \<open>Send\<close>; \<open>-1\<close> is failure.\<close>

record send_env =
  se_rng :: "nat \<Rightarrow> u64"       \<comment> \<open>what \<open>GenRandom\<close> draws\<close>
  se_object :: nat             \<comment> \<open>the object made if the name is new\<close>
  se_write_fd :: int           \<comment> \<open>first \<open>shm_open\<close>\<close>
  se_written :: int            \<comment> \<open>\<open>write\<close>\<close>
  se_send_fd :: int            \<comment> \<open>second \<open>shm_open\<close>\<close>
  se_accepts :: "fd \<Rightarrow> bool"   \<comment> \<open>\<open>sendmsg\<close> per client\<close>

definition metadata_of :: "bytes \<Rightarrow> bytes" where
  "metadata_of meta = meta @ [0]"

fun send_to_clients :: "(fd \<Rightarrow> bool) \<Rightarrow> bytes \<Rightarrow> fd \<Rightarrow> fd list \<Rightarrow> Publisher \<Rightarrow> Publisher" where
  "send_to_clients accepts metadata f [] s = s"
| "send_to_clients accepts metadata f (c # cs) s =
     send_to_clients accepts metadata f cs (sendmsg accepts metadata f c s)"

definition Publisher_Send :: "send_env \<Rightarrow> bytes \<Rightarrow> bytes \<Rightarrow> Publisher \<Rightarrow> bool \<times> Publisher" where
  "Publisher_Send env meta data s =
     (let name = GenRandom (se_rng env) 8; shmFdWrite = se_write_fd env in
      if shmFdWrite = -1 then (False, s)
      else
        OnRet (\<lambda>s. close_fd shmFdWrite (shm_unlink name s)) (\<lambda>s.
          let s = shm_write shmFdWrite (take (nat (se_written env)) data) s in
          if se_written env \<noteq> int (length data) then (False, s)
          else
            let shmFdSend = se_send_fd env;
                s = (if shmFdSend = -1 then s else shm_open_existing name shmFdSend s)
            in OnRet (close_fd shmFdSend) (\<lambda>s.
                 (True, send_to_clients (se_accepts env) (metadata_of meta) shmFdSend (pb_clients s) s)) s)
          (shm_open_create name shmFdWrite (se_object env) s))"

section \<open>\<open>IPCMessage\<close>\<close>

datatype mapping_result = Null_pointer | Map_failed | Mapped bytes

record IPCMessage =
  im_metaData :: bytes
  im_blobPtr :: mapping_result
  im_blobSize :: nat
  im_fd :: int

text \<open>The control message header, as far as \<open>Create\<close> reads it.\<close>

record cmsghdr =
  cm_len :: nat
  cm_level :: int
  cm_type :: int
  cm_fd :: int

record msghdr =
  mh_iov :: "bytes list"
  mh_control :: "cmsghdr option"   \<comment> \<open>\<open>CMSG_FIRSTHDR\<close>\<close>

definition CMSG_LEN_int :: nat where "CMSG_LEN_int = 20"
definition CMSG_SPACE_int :: nat where "CMSG_SPACE_int = 24"
definition SOL_SOCKET :: int where "SOL_SOCKET = 1"
definition SCM_RIGHTS :: int where "SCM_RIGHTS = 1"

text \<open>\<open>blobLen\<close> is the result of \<open>lseek\<close> to the end, \<open>mapped\<close> that of \<open>mmap\<close>.\<close>

definition IPCMessage_Create ::
  "nat \<Rightarrow> msghdr \<Rightarrow> int \<Rightarrow> mapping_result \<Rightarrow> IPCMessage option" where
  "IPCMessage_Create vecLen msgh blobLen mapped =
     (case mh_control msgh of
        None \<Rightarrow> None
      | Some cmsg \<Rightarrow>
          if cm_len cmsg \<noteq> CMSG_LEN_int then None
          else if cm_level cmsg \<noteq> SOL_SOCKET then None
          else if cm_type cmsg \<noteq> SCM_RIGHTS then None
          else if length (mh_iov msgh) = 0 then None
          else if length (mh_iov msgh) \<noteq> 1 then None
          else
            let meta = take vecLen (mh_iov msgh ! 0); recvFd = cm_fd cmsg in
            if blobLen < 0 then None
            else if mapped = Null_pointer then None
            else Some \<lparr>im_metaData = meta, im_blobPtr = mapped, im_blobSize = nat blobLen, im_fd = recvFd\<rparr>)"

definition MetaData :: "IPCMessage \<Rightarrow> bytes" where
  "MetaData m = im_metaData m"

text \<open>Reading through the \<open>string_view\<close> that \<open>Contents\<close> returns.\<close>

definition Contents :: "IPCMessage \<Rightarrow> bytes res" where
  "Contents m =
     (if im_blobSize m = 0 then Inr []
      else case im_blobPtr m of
        Mapped b \<Rightarrow> Inr (take (im_blobSize m) b)
      | Map_failed \<Rightarrow> Inl Invalid_pointer
      | Null_pointer \<Rightarrow> Inl Null_dereference)"

section \<open>The subscriber\<close>

definition BUFFLEN :: nat where "BUFFLEN = 2 ^ 12"

text \<open>
  One \<open>recvmsg\<close>: an error, the end of the stream, or a record with the control message its
  sender attached and the results of the calls \<open>Create\<close> makes on the descriptor. The kernel
  stores the control message if \<open>msg_controllen\<close> leaves room for it, and sets \<open>msg_controllen\<close>
  to the length stored. The loop does not set \<open>msg_controllen\<close> again.
\<close>

datatype received_record =
    Recv_error
  | Recv_end
  | Recv bytes "cmsghdr option" int mapping_result

record Subscriber =
  sb_event :: nat                  \<comment> \<open>counter of the \<open>eventfd\<close> behind \<open>mShutdownFd\<close>\<close>
  sb_controllen :: nat             \<comment> \<open>\<open>msgh.msg_controllen\<close>\<close>
  sb_calls :: "IPCMessage list"    \<comment> \<open>calls of \<open>mCallback\<close>\<close>

definition Subscriber_init :: Subscriber where
  "Subscriber_init = \<lparr>sb_event = 0, sb_controllen = CMSG_SPACE_int, sb_calls = []\<rparr>"

definition Subscriber_start :: "int \<Rightarrow> (string \<Rightarrow> int) \<Rightarrow> (fd \<times> Subscriber) option res" where
  "Subscriber_start sock connect =
     bind_res socket_address (\<lambda>addr.
     Inr (if sock = -1 then None
          else if connect addr = -1 then None
          else Some (sock, Subscriber_init)))"

definition stored_control :: "nat \<Rightarrow> cmsghdr option \<Rightarrow> cmsghdr option" where
  "stored_control controllen cmsg = (if CMSG_SPACE_int \<le> controllen then cmsg else None)"

definition receive :: "bytes \<Rightarrow> cmsghdr option \<Rightarrow> int \<Rightarrow> mapping_result \<Rightarrow> Subscriber \<Rightarrow> Subscriber" where
  "receive payload cmsg blobLen mapped s =
     (let buffer = read_into BUFFLEN payload;
          control = stored_control (sb_controllen s) cmsg;
          s = s\<lparr>sb_controllen := (if control = None then 0 else CMSG_SPACE_int)\<rparr>;
          msg = IPCMessage_Create (length buffer) \<lparr>mh_iov = [buffer], mh_control = control\<rparr> blobLen mapped
      in s\<lparr>sb_calls := sb_calls s @ opt_list msg\<rparr>)"

text \<open>
  The read thread. It returns whether it has ended; on the end of the stream it signals the
  event, on an error it returns from inside the loop. A record of length zero reads as the end
  of the stream.
\<close>

fun read_thread :: "received_record list \<Rightarrow> Subscriber \<Rightarrow> bool \<times> Subscriber" where
  "read_thread [] s = (False, s)"
| "read_thread (Recv_error # rs) s = (True, s)"
| "read_thread (Recv_end # rs) s =
     (True, s\<lparr>sb_event := (case eventfd_write UINT32_MAX (sb_event s) of
        Some n \<Rightarrow> n | None \<Rightarrow> sb_event s)\<rparr>)"
| "read_thread (Recv payload cmsg blobLen mapped # rs) s =
     (if payload = [] then
        (True, s\<lparr>sb_event := (case eventfd_write UINT32_MAX (sb_event s) of
           Some n \<Rightarrow> n | None \<Rightarrow> sb_event s)\<rparr>)
      else read_thread rs (receive payload cmsg blobLen mapped s))"

text \<open>\<open>WaitForShutdown\<close> reads the event: it blocks while the counter is zero.\<close>

definition WaitForShutdown :: "Subscriber \<Rightarrow> Subscriber option" where
  "WaitForShutdown s = map_option (\<lambda>n. s\<lparr>sb_event := n\<rparr>) (eventfd_read (sb_event s))"

text \<open>The destructor signals the event and joins the thread: it returns if the thread ends.\<close>

definition Subscriber_destroy :: "received_record list \<Rightarrow> Subscriber \<Rightarrow> Subscriber option" where
  "Subscriber_destroy rs s =
     (case eventfd_write UINT32_MAX (sb_event s) of
        None \<Rightarrow> None
      | Some n \<Rightarrow> (case read_thread rs (s\<lparr>sb_event := n\<rparr>) of (ended, s) \<Rightarrow> if ended then Some s else None))"

end
