(* ===== verification/SharedMemoryProperties.thy ===== *)
theory SharedMemoryProperties
  imports SharedMemory
begin

text \<open>
  The properties of the shared-memory pair: what one \<open>Publisher::Send\<close> leaves behind, what a
  subscriber gets of it, and how the subscriber's thread ends.
\<close>

section \<open>\<open>Publisher::Send\<close>\<close>

lemma send_to_clients_None: "pb_fds s f = None \<Longrightarrow> send_to_clients a md f cs s = s"
  by (induction cs) (simp_all add: sendmsg_def)

lemma send_to_clients_Some:
  "pb_fds s f = Some obj \<Longrightarrow> send_to_clients a md f cs s =
     s\<lparr>pb_wire := pb_wire s @ map (\<lambda>c. (c, md, obj)) (filter a cs)\<rparr>"
  by (induction cs arbitrary: s) (simp_all add: sendmsg_def)

text \<open>The object a name stands for, and what it holds before the message is written.\<close>

definition target :: "send_env \<Rightarrow> Publisher \<Rightarrow> nat" where
  "target env s = (case pb_names s (GenRandom (se_rng env) 8) of Some old \<Rightarrow> old | None \<Rightarrow> se_object env)"

definition leftover :: "send_env \<Rightarrow> Publisher \<Rightarrow> bytes" where
  "leftover env s = (case pb_names s (GenRandom (se_rng env) 8) of
     Some old \<Rightarrow> the (pb_objects s old) | None \<Rightarrow> [])"

lemma Publisher_Send_sent:
  assumes "se_write_fd env \<noteq> -1" "se_written env = int (length data)"
    and "pb_fds s (se_write_fd env) = None" "pb_fds s (se_send_fd env) = None"
    and "se_send_fd env \<noteq> se_write_fd env"
  shows "Publisher_Send env meta data s =
    (True, s\<lparr>pb_names := (pb_names s)(GenRandom (se_rng env) 8 := None),
       pb_objects := (pb_objects s)(target env s \<mapsto> data @ drop (length data) (leftover env s)),
       pb_wire := pb_wire s @ (if se_send_fd env = -1 then []
         else map (\<lambda>c. (c, meta @ [0], target env s)) (filter (se_accepts env) (pb_clients s)))\<rparr>)"
proof -
  have fds: "(pb_fds s)(se_write_fd env := None) = pb_fds s"
      "(pb_fds s)(se_send_fd env := None, se_write_fd env := None) = pb_fds s"
    using assms(3,4) by (simp_all add: fun_upd_idem)
  show ?thesis
    using assms
    by (cases "pb_names s (GenRandom (se_rng env) 8)"; cases "se_send_fd env = -1"; cases s)
      (simp_all add: Publisher_Send_def OnRet_def Let_def shm_open_create_def shm_write_def
        shm_open_existing_def close_fd_def shm_unlink_def send_to_clients_None send_to_clients_Some
        metadata_of_def target_def leftover_def fun_upd_idem fun_upd_twist)
qed

text \<open>
  Whatever the system calls return, \<open>Send\<close> leaves no name linked and no descriptor open.
  It reports success exactly when the whole message was written, whether or not a descriptor
  to send could be opened and any client was sent it.
\<close>

lemma Publisher_Send_cleans_up:
  assumes "pb_fds s (se_write_fd env) = None" "pb_fds s (se_send_fd env) = None"
    and "se_send_fd env \<noteq> se_write_fd env"
    and "Publisher_Send env meta data s = (ok, s')"
  shows "pb_fds s' = pb_fds s \<and>
    (se_write_fd env \<noteq> -1 \<longrightarrow> pb_names s' (GenRandom (se_rng env) 8) = None) \<and>
    (ok \<longleftrightarrow> se_write_fd env \<noteq> -1 \<and> se_written env = int (length data)) \<and>
    (se_send_fd env = -1 \<longrightarrow> pb_wire s' = pb_wire s)"
proof (cases "se_write_fd env \<noteq> -1 \<and> se_written env = int (length data)")
  case True
  with Publisher_Send_sent [of env data s meta] assms show ?thesis by auto
next
  case False
  with assms show ?thesis
    by (auto simp: Publisher_Send_def OnRet_def Let_def shm_open_create_def shm_write_def close_fd_def
        shm_unlink_def fun_upd_idem split: option.splits if_splits)
qed

definition sample_send :: send_env where
  "sample_send = \<lparr>se_rng = (\<lambda>n. 10), se_object = 1, se_write_fd = 8, se_written = 2, se_send_fd = 9,
     se_accepts = (\<lambda>c. True)\<rparr>"

definition sample_publisher :: Publisher where
  "sample_publisher = \<lparr>pb_clients = [5, 6], pb_names = Map.empty, pb_objects = Map.empty,
     pb_fds = Map.empty, pb_wire = []\<rparr>"

lemma Publisher_Send_cleans_up_witness:
  "pb_fds (snd (Publisher_Send sample_send [7] [1, 2] sample_publisher)) = Map.empty \<and>
   fst (Publisher_Send sample_send [7] [1, 2] sample_publisher)"
  using Publisher_Send_cleans_up [of sample_publisher sample_send "[7]" "[1, 2]"
      "fst (Publisher_Send sample_send [7] [1, 2] sample_publisher)"
      "snd (Publisher_Send sample_send [7] [1, 2] sample_publisher)"]
  by (simp add: sample_publisher_def sample_send_def)

section \<open>From publisher to subscriber\<close>

definition rights :: "int \<Rightarrow> cmsghdr" where
  "rights f = \<lparr>cm_len = CMSG_LEN_int, cm_level = SOL_SOCKET, cm_type = SCM_RIGHTS, cm_fd = f\<rparr>"

text \<open>
  C26: A sent message reaches every client that accepts it: the subscriber's callback is given
  the metadata with one zero byte more than was sent, and as \<open>Contents\<close> the data followed by
  whatever the shared memory object held beyond its length, which is nothing when the random
  name was not in use.
\<close>

theorem shared_memory_roundtrip:
  assumes "se_write_fd env \<noteq> -1" "se_written env = int (length data)" "se_send_fd env \<noteq> -1"
    and "pb_fds s (se_write_fd env) = None" "pb_fds s (se_send_fd env) = None"
    and "se_send_fd env \<noteq> se_write_fd env"
    and "c \<in> set (pb_clients s)" "se_accepts env c"
    and "length meta < BUFFLEN" "sb_controllen sub = CMSG_SPACE_int"
  shows "\<exists>s' obj blob msg. Publisher_Send env meta data s = (True, s') \<and>
    (c, meta @ [0], obj) \<in> set (pb_wire s') \<and> pb_objects s' obj = Some blob \<and>
    sb_calls (receive (meta @ [0]) (Some (rights f)) (int (length blob)) (Mapped blob) sub) =
      sb_calls sub @ [msg] \<and>
    MetaData msg = meta @ [0] \<and>
    Contents msg = Inr (data @ drop (length data) (leftover env s))"
proof -
  let ?blob = "data @ drop (length data) (leftover env s)"
  let ?msg = "\<lparr>im_metaData = meta @ [0], im_blobPtr = Mapped ?blob, im_blobSize = length ?blob, im_fd = f\<rparr>"
  have "read_into BUFFLEN (meta @ [0]) = meta @ [0]" using assms(9) by simp
  then have "sb_calls (receive (meta @ [0]) (Some (rights f)) (int (length ?blob)) (Mapped ?blob) sub) =
      sb_calls sub @ [?msg]"
    using assms(10) by (simp add: receive_def Let_def stored_control_def IPCMessage_Create_def rights_def)
  moreover have "MetaData ?msg = meta @ [0]" "Contents ?msg = Inr ?blob"
    by (auto simp: MetaData_def Contents_def)
  ultimately show ?thesis
    using Publisher_Send_sent [OF assms(1,2,4,5,6), of meta] assms(3,7,8)
    by (intro exI [of _ "snd (Publisher_Send env meta data s)"] exI [of _ "target env s"]
        exI [of _ ?blob] exI [of _ ?msg]) simp
qed

lemma shared_memory_roundtrip_witness:
  "\<exists>s' obj blob msg. Publisher_Send sample_send [7] [1, 2] sample_publisher = (True, s') \<and>
    (5, [7] @ [0], obj) \<in> set (pb_wire s') \<and> pb_objects s' obj = Some blob \<and>
    sb_calls (receive ([7] @ [0]) (Some (rights 3)) (int (length blob)) (Mapped blob) Subscriber_init) =
      sb_calls Subscriber_init @ [msg] \<and>
    MetaData msg = [7] @ [0] \<and>
    Contents msg = Inr ([1, 2] @ drop (length ([1, 2] :: bytes)) (leftover sample_send sample_publisher))"
  by (rule shared_memory_roundtrip)
    (simp_all add: sample_send_def sample_publisher_def BUFFLEN_def Subscriber_init_def)

text \<open>
  A failed \<open>mmap\<close> is not noticed, because its result is compared with null and not with
  \<open>MAP_FAILED\<close>: the message is passed on, and reading its contents uses the invalid pointer.
\<close>

lemma mmap_failure_unnoticed:
  assumes "0 < blobLen"
  shows "\<exists>msg. IPCMessage_Create vecLen \<lparr>mh_iov = [buffer], mh_control = Some (rights f)\<rparr> blobLen Map_failed =
      Some msg \<and> MetaData msg = take vecLen buffer \<and> Contents msg = Inl Invalid_pointer"
  using assms by (simp add: IPCMessage_Create_def rights_def MetaData_def Contents_def)

section \<open>The subscriber's thread\<close>

text \<open>
  \<open>msg_controllen\<close>, which \<open>recvmsg\<close> overwrites, is set once before the loop: after a single
  record without a descriptor no later message is ever passed to the callback.
\<close>

lemma subscriber_deaf_after_plain_record:
  assumes "payload \<noteq> []"
  shows "sb_calls (snd (read_thread (Recv payload None blobLen mapped # rs) s)) = sb_calls s"
proof -
  have deaf: "sb_controllen s = 0 \<Longrightarrow> sb_calls (snd (read_thread rs s)) = sb_calls s" for s
  proof (induction rs s rule: read_thread.induct)
    case (4 p cmsg l m rs s)
    then show ?case
      by (simp add: receive_def Let_def stored_control_def CMSG_SPACE_int_def IPCMessage_Create_def)
  qed simp_all
  have "sb_controllen (receive payload None blobLen mapped s) = 0"
      "sb_calls (receive payload None blobLen mapped s) = sb_calls s"
    by (simp_all add: receive_def Let_def stored_control_def IPCMessage_Create_def)
  with deaf assms show ?thesis by simp
qed

lemma subscriber_deaf_after_plain_record_witness:
  "sb_calls (snd (read_thread [Recv [1] None 0 (Mapped []), Recv [2] (Some (rights 3)) 1 (Mapped [9])]
     Subscriber_init)) = sb_calls Subscriber_init"
  by (rule subscriber_deaf_after_plain_record) simp

text \<open>
  Only the end of the stream wakes a thread in \<open>WaitForShutdown\<close>: after a receive error,
  for which the comment promises it too, the waiter stays blocked, and the destructor does not
  return while the read thread waits for a record.
\<close>

lemma only_end_of_stream_wakes:
  assumes "list_all (\<lambda>r. \<exists>p c l m. r = Recv p c l m \<and> p \<noteq> []) rs" "sb_event s = 0"
  shows "fst (read_thread (rs @ [Recv_error]) s) \<and>
    WaitForShutdown (snd (read_thread (rs @ [Recv_error]) s)) = None \<and>
    fst (read_thread (rs @ [Recv_end]) s) \<and>
    WaitForShutdown (snd (read_thread (rs @ [Recv_end]) s)) \<noteq> None \<and>
    Subscriber_destroy rs s = None"
proof -
  have run: "\<exists>s'. sb_event s' = sb_event s \<and> read_thread (rs @ qs) s = read_thread qs s'" for qs s
    using assms(1)
  proof (induction rs arbitrary: s)
    case Nil
    then show ?case by auto
  next
    case (Cons r rs)
    then obtain p c l m where r: "r = Recv p c l m" "p \<noteq> []" by auto
    have "sb_event (receive p c l m s) = sb_event s" by (simp add: receive_def Let_def)
    with Cons.IH [of "receive p c l m s"] Cons.prems r show ?case by auto
  qed
  have "fst (read_thread rs s0) = False" for s0
    using run [of s0 "[]"] by auto
  then have "Subscriber_destroy rs s = None"
    by (simp add: Subscriber_destroy_def split_beta split: option.split)
  moreover have "eventfd_write UINT32_MAX 0 = Some UINT32_MAX" "eventfd_read UINT32_MAX \<noteq> None"
    by (simp add: eventfd_write_def eventfd_max_def UINT32_MAX_def)
      (rule eventfd_read_positive, simp add: UINT32_MAX_def)
  ultimately show ?thesis
    using run [of s "[Recv_error]"] run [of s "[Recv_end]"] assms(2)
    by (auto simp: WaitForShutdown_def)
qed

lemma only_end_of_stream_wakes_witness:
  "WaitForShutdown (snd (read_thread [Recv [1] (Some (rights 3)) 1 (Mapped [9]), Recv_error]
     Subscriber_init)) = None"
  using only_end_of_stream_wakes [of "[Recv [1] (Some (rights 3)) 1 (Mapped [9])]" Subscriber_init]
  by (simp add: Subscriber_init_def)

section \<open>The constructors\<close>

lemma socket_address_zero: "socket_address = Inr zero_path"
  by (simp add: socket_address_def socket_path_def c_string_def assert_that_def copy_path_def
      sun_path_size_def zero_path_def)

text \<open>
  Every publisher binds the same address, so while one runs the next one exits, whatever the two
  were meant to publish; and every subscriber connects to that address.
\<close>

lemma one_publisher_per_machine:
  assumes "Publisher_start s1 b1 l1 = Inr (Some p)" "\<And>addr. b1 addr \<noteq> -1 \<Longrightarrow> b2 addr = -1"
  shows "Publisher_start s2 b2 l2 = Inr None \<and>
    (Subscriber_start s c = Inr None \<longleftrightarrow> s = -1 \<or> c zero_path = -1)"
  using assms by (auto simp: Publisher_start_def Subscriber_start_def socket_address_zero split: if_splits)

end
