(* ===== verification/PingPong.thy ===== *)
theory PingPong
  imports NodeCalls
begin

text \<open>
  \<open>cmd/pinger.cc\<close> and \<open>cmd/ponger.cc\<close>: two processes, each with an \<open>IPCNode\<close>. The pinger publishes
  on one topic, the ponger answers each message from its callback on another. Their nodes, what the
  hub has still to tell each of them, the datagrams under way and the rounds played form a step
  relation: the pinger publishes, an update of the topology is read, or a datagram arrives, in any
  order. So the pinger may play any number of its rounds before it has heard of the ponger.
\<close>

section \<open>The two programs\<close>

definition ping_topic :: string where "ping_topic = ''/ping''"
definition pong_topic :: string where "pong_topic = ''/pong''"

text \<open>\<open>msg.c_str()\<close> with \<open>msg.size() + 1\<close> bytes.\<close>

definition ping_bytes :: bytes where "ping_bytes = map of_char ''ping'' @ [0]"

text \<open>The callbacks are numbered in the order they are given; \<open>r\<close> is what the sends return.\<close>

definition pinger_setup :: "(nat \<Rightarrow> int) \<Rightarrow> IPCNode \<Rightarrow> IPCNode res" where
  "pinger_setup r n =
     bind_res (node_Announce (r 0) ping_topic ''text/plain'' n) (\<lambda>n.
     bind_res (node_Subscribe (r 1) ping_topic (Some 0) n) (\<lambda>n.
     node_Subscribe (r 2) pong_topic (Some 1) n))"

definition ponger_setup :: "(nat \<Rightarrow> int) \<Rightarrow> IPCNode \<Rightarrow> IPCNode res" where
  "ponger_setup r n =
     bind_res (node_Announce (r 0) pong_topic ''text/plain'' n) (\<lambda>n.
     bind_res (node_Subscribe (r 1) pong_topic (Some 0) n) (\<lambda>n.
     node_Subscribe (r 2) ping_topic (Some 1) n))"

definition pinger_round :: "(MetadataMessage \<Rightarrow> bytes) \<Rightarrow> IPCNode \<Rightarrow> IPCNode" where
  "pinger_round ser n = Publish ser ping_topic ping_bytes n"

definition pinger_rounds :: nat where "pinger_rounds = 100"

definition pinger_callback :: "nat \<Rightarrow> bytes \<Rightarrow> IPCNode \<Rightarrow> IPCNode" where
  "pinger_callback k data n = n"

definition ponger_callback :: "(MetadataMessage \<Rightarrow> bytes) \<Rightarrow> nat \<Rightarrow> bytes \<Rightarrow> IPCNode \<Rightarrow> IPCNode" where
  "ponger_callback ser k data n = (if k = 1 then Publish ser pong_topic data n else n)"

text \<open>A datagram is read by the node's thread, which then runs the callback it found, if any.\<close>

definition receive_datagram ::
  "(nat \<Rightarrow> bytes \<Rightarrow> IPCNode \<Rightarrow> IPCNode) \<Rightarrow> (bytes \<Rightarrow> bool \<times> MetadataMessage) \<Rightarrow> bytes \<Rightarrow> IPCNode \<Rightarrow> IPCNode res"
  where
  "receive_datagram cb parse blob n =
     bind_res (node_OnData parse (read_into UINT16_MAX blob) n) (\<lambda>n'.
     Inr (fold (\<lambda>(k, data). cb k data) (drop (length (in_delivered n)) (in_delivered n')) n'))"

definition sent_by :: "IPCNode \<Rightarrow> IPCNode \<Rightarrow> (string \<times> bytes) multiset" where
  "sent_by n n' = mset (drop (length (in_out n)) (in_out n'))"

text \<open>\<open>pp_plog\<close> and \<open>pp_qlog\<close> are the updates the hub has for the pinger and for the ponger.\<close>

record pingpong =
  pp_pinger :: IPCNode
  pp_ponger :: IPCNode
  pp_plog :: "TopologyMessage list"
  pp_qlog :: "TopologyMessage list"
  pp_flight :: "(string \<times> bytes) multiset"
  pp_rounds :: nat

inductive pp_step ::
  "(bytes \<Rightarrow> bool \<times> MetadataMessage) \<Rightarrow> (MetadataMessage \<Rightarrow> bytes) \<Rightarrow> string \<Rightarrow> string \<Rightarrow> pingpong \<Rightarrow> pingpong \<Rightarrow> bool"
  for parse ser a b where
  ping: "pp_rounds s < pinger_rounds \<Longrightarrow> n = pinger_round ser (pp_pinger s) \<Longrightarrow>
    pp_step parse ser a b s (s\<lparr>pp_pinger := n, pp_rounds := Suc (pp_rounds s),
      pp_flight := pp_flight s + sent_by (pp_pinger s) n\<rparr>)"
| tell_pinger: "pp_plog s = m # ms \<Longrightarrow> deliver_update m (pp_pinger s) = Inr n \<Longrightarrow>
    pp_step parse ser a b s (s\<lparr>pp_pinger := n, pp_plog := ms\<rparr>)"
| tell_ponger: "pp_qlog s = m # ms \<Longrightarrow> deliver_update m (pp_ponger s) = Inr n \<Longrightarrow>
    pp_step parse ser a b s (s\<lparr>pp_ponger := n, pp_qlog := ms\<rparr>)"
| to_pinger: "(a, blob) \<in># pp_flight s \<Longrightarrow> receive_datagram pinger_callback parse blob (pp_pinger s) = Inr n \<Longrightarrow>
    pp_step parse ser a b s (s\<lparr>pp_pinger := n,
      pp_flight := pp_flight s - {#(a, blob)#} + sent_by (pp_pinger s) n\<rparr>)"
| to_ponger: "(b, blob) \<in># pp_flight s \<Longrightarrow> receive_datagram (ponger_callback ser) parse blob (pp_ponger s) = Inr n \<Longrightarrow>
    pp_step parse ser a b s (s\<lparr>pp_ponger := n,
      pp_flight := pp_flight s - {#(b, blob)#} + sent_by (pp_ponger s) n\<rparr>)"

definition pp_start :: "IPCNode \<Rightarrow> IPCNode \<Rightarrow> TopologyMessage list \<Rightarrow> TopologyMessage list \<Rightarrow> pingpong" where
  "pp_start p q ms ns = \<lparr>pp_pinger = p, pp_ponger = q, pp_plog = ms, pp_qlog = ns, pp_flight = {#}, pp_rounds = 0\<rparr>"

section \<open>Nodes that come to know each other\<close>

text \<open>
  What the hub tells of the two nodes \<open>i\<close> and \<open>j\<close>: at every moment no more than that they are there, at
  their addresses, and in the end that both have both topics.
\<close>

definition pair_log :: "u64 \<Rightarrow> string \<Rightarrow> u64 \<Rightarrow> string \<Rightarrow> TopologyMessage list \<Rightarrow> bool" where
  "pair_log i a j b ms \<longleftrightarrow> (\<forall>m\<in>set ms. address_fits m) \<and> stable_addresses ms Map.empty \<and>
     (\<forall>pre rest x v. ms = pre @ rest \<longrightarrow> topology pre x = Some v \<longrightarrow> (x, nv_address v) \<in> {(i, a), (j, b)}) \<and>
     (\<forall>x\<in>{i, j}. \<exists>v. topology ms x = Some v \<and> {ping_topic, pong_topic} \<subseteq> nv_subs v)"

definition knows :: "TopologyMessage list \<Rightarrow> TopologyMessage list \<Rightarrow> IPCNode \<Rightarrow> bool" where
  "knows ms rest n \<longleftrightarrow> node_wf n \<and> nbr_path n = mgr_path (in_manager n) \<and>
     (\<exists>pre. ms = pre @ rest \<and> abs_topology (in_manager n) = topology pre)"

lemma knows_frame:
  "knows ms rest n \<Longrightarrow> knows ms rest (n\<lparr>in_delivered := ds\<rparr>)"
  "knows ms rest n \<Longrightarrow> knows ms rest (Publish ser t d n)"
  by (simp_all add: knows_def node_wf_def node_sys_def neighbours.mirrors_def node_inv_def nbr_subs_def
      nbr_path_def Publish_def Let_def)

lemma knows_update:
  assumes "knows ms (m # rest) n" "pair_log i a j b ms"
  shows "\<exists>n'. deliver_update m n = Inr n' \<and> knows ms rest n' \<and> in_subscriptions n' = in_subscriptions n \<and>
    in_out n' = in_out n \<and> in_delivered n' = in_delivered n"
proof -
  obtain pre where pre: "ms = pre @ m # rest" "abs_topology (in_manager n) = topology pre"
    using assms(1) by (auto simp: knows_def)
  have abs: "topology pre = fold topology_step pre Map.empty" using topology_append [of "[]" pre] by simp
  have "stable_addresses (pre @ m # rest) Map.empty" "address_fits m"
    using assms(2) unfolding pair_log_def pre(1) by simp_all
  then have "stable_addresses [m] (topology pre)" "address_fits m"
    unfolding stable_append abs by simp_all
  with run_call_spec [of n "Update m" undefined undefined] assms(1) pre(2)
  obtain n' where n': "deliver_update m n = Inr n'" "call_state (Update m) n n'"
    "call_spec undefined undefined (Update m) (topology pre) (in_subscriptions n) n n'"
    by (auto simp: knows_def)
  moreover have "topology (pre @ [m]) = topology_step m (topology pre)" by (simp add: topology_append)
  ultimately have "knows ms rest n'"
    using pre unfolding knows_def call_state_def by (auto intro!: exI [of _ "pre @ [m]"])
  with n' show ?thesis by (simp add: call_state_def call_spec_def call_sends_def)
qed

lemma one_element: "length xs = 1 \<Longrightarrow> set xs = {x} \<Longrightarrow> xs = [x]"
  by (cases xs) auto

lemma two_elements: "length xs = 2 \<Longrightarrow> set xs = {x, y} \<Longrightarrow> mset xs = {#x, y#}"
  by (cases xs; cases "tl xs") (auto simp: doubleton_eq_iff)

text \<open>A publication goes to each of the two that the publisher knows as a subscriber, once.\<close>

lemma pair_publish:
  assumes n: "knows ms rest n" and log: "pair_log i a j b ms" and ij: "i \<noteq> j" and ne: "a \<noteq> []" "b \<noteq> []"
  shows "\<exists>u v. u \<le> 1 \<and> v \<le> 1 \<and> sent_by n (Publish ser t d n) =
      replicate_mset u (path_address a, ser \<lparr>mm_topic = t, mm_inlined = d\<rparr>) +
      replicate_mset v (path_address b, ser \<lparr>mm_topic = t, mm_inlined = d\<rparr>) \<and>
    (rest = [] \<longrightarrow> t \<in> {ping_topic, pong_topic} \<longrightarrow> u = 1 \<and> v = 1)"
proof -
  let ?blob = "ser \<lparr>mm_topic = t, mm_inlined = d\<rparr>" and ?V = "abs_topology (in_manager n)"
  let ?out = "publish_to t ?blob (in_nodes n)" and ?A = "audience t (abs_topology (in_manager n))"
  obtain pre where pre: "ms = pre @ rest" "?V = topology pre" using n by (auto simp: knows_def)
  have sub: "?A \<subseteq> {(i, a), (j, b)}"
    using log pre unfolding pair_log_def audience_def by (auto simp: pre)
  have "call_sends ser (Publish_call t d) ?V ?out"
    by (rule recipients_audience) (use n in \<open>simp_all add: knows_def node_wf_def\<close>)
  then have out: "length ?out = card ?A" "set ?out = (\<lambda>(x, p). (path_address p, ?blob)) ` ?A"
    by (simp_all add: call_sends_def)
  have sent: "sent_by n (Publish ser t d n) = mset ?out" by (simp add: sent_by_def Publish_def Let_def)
  have full: "?A = {(i, a), (j, b)}" if told: "rest = []" "t \<in> {ping_topic, pong_topic}"
  proof -
    have "(x, p) \<in> ?A" if "(x, p) \<in> {(i, a), (j, b)}" for x p
    proof -
      have "x \<in> {i, j}" using that by auto
      with log obtain v where v: "topology ms x = Some v" "{ping_topic, pong_topic} \<subseteq> nv_subs v"
        unfolding pair_log_def by blast
      then have "(x, nv_address v) \<in> {(i, a), (j, b)}"
        using log unfolding pair_log_def by (metis append_Nil2)
      with that ij have "nv_address v = p" by auto
      moreover have "?V = topology ms" using pre told(1) by simp
      moreover have "p \<noteq> []" using that ne by auto
      ultimately show ?thesis using v told(2) by (auto simp: audience_def)
    qed
    with sub show ?thesis by auto
  qed
  from sub consider "?A = {}" | "?A = {(i, a)}" | "?A = {(j, b)}" | "?A = {(i, a), (j, b)}" by blast
  then have "\<exists>u v. u \<le> 1 \<and> v \<le> 1 \<and> mset ?out = replicate_mset u (path_address a, ?blob) + replicate_mset v (path_address b, ?blob) \<and>
      (?A = {(i, a), (j, b)} \<longrightarrow> u = 1 \<and> v = 1)"
  proof cases
    case 1
    then show ?thesis using out ij by (intro exI [of _ 0]) auto
  next
    case 2
    then have "?out = [(path_address a, ?blob)]" using out by (intro one_element) auto
    then show ?thesis using 2 ij by (intro exI [of _ 1] exI [of _ 0]) auto
  next
    case 3
    then have "?out = [(path_address b, ?blob)]" using out by (intro one_element) auto
    then show ?thesis using 3 ij by (intro exI [of _ 0] exI [of _ 1]) auto
  next
    case 4
    then have "mset ?out = {#(path_address a, ?blob), (path_address b, ?blob)#}"
      using out ij by (intro two_elements) auto
    then show ?thesis by (intro exI [of _ 1]) simp
  qed
  then show ?thesis using full unfolding sent by metis
qed

definition codec_ok :: "(bytes \<Rightarrow> bool \<times> MetadataMessage) \<Rightarrow> (MetadataMessage \<Rightarrow> bytes) \<Rightarrow> bool" where
  "codec_ok parse ser \<longleftrightarrow> list_all (\<lambda>t. parse (ser \<lparr>mm_topic = t, mm_inlined = ping_bytes\<rparr>) =
      (True, \<lparr>mm_topic = t, mm_inlined = ping_bytes\<rparr>) \<and>
      length (ser \<lparr>mm_topic = t, mm_inlined = ping_bytes\<rparr>) \<le> UINT16_MAX) [ping_topic, pong_topic]"

lemma topics_differ [simp]: "ping_topic \<noteq> pong_topic" "pong_topic \<noteq> ping_topic"
  by (simp_all add: ping_topic_def pong_topic_def)

lemma ping_bytes_nonempty [simp]: "ping_bytes \<noteq> []"
  by (simp add: ping_bytes_def)

lemma receive_known:
  assumes "in_subscriptions n = [ping_topic \<mapsto> Some k1, pong_topic \<mapsto> Some k2]" "codec_ok parse ser"
    and "t \<in> {ping_topic, pong_topic}" "k = (if t = ping_topic then k1 else k2)"
  shows "receive_datagram cb parse (ser \<lparr>mm_topic = t, mm_inlined = ping_bytes\<rparr>) n =
    Inr (cb k ping_bytes (n\<lparr>in_delivered := in_delivered n @ [(k, ping_bytes)]\<rparr>))"
proof -
  have "parse (ser \<lparr>mm_topic = t, mm_inlined = ping_bytes\<rparr>) = (True, \<lparr>mm_topic = t, mm_inlined = ping_bytes\<rparr>)"
    "length (ser \<lparr>mm_topic = t, mm_inlined = ping_bytes\<rparr>) \<le> UINT16_MAX"
    using assms(2,3) by (auto simp: codec_ok_def)
  then show ?thesis
    using assms(1,3,4) node_OnData_eq [of n parse]
    by (auto simp: receive_datagram_def deliveries_def)
qed

section \<open>The invariant\<close>

text \<open>
  \<open>x\<close>, \<open>y\<close> count the pings and pongs the pinger's callbacks got, \<open>k\<close>, \<open>z\<close> the pings and pongs of the
  ponger; the other four numbers count the datagrams under way. Nothing that was sent is lost.
\<close>

definition pp_counts ::
  "(MetadataMessage \<Rightarrow> bytes) \<Rightarrow> string \<Rightarrow> string \<Rightarrow> TopologyMessage list \<Rightarrow> TopologyMessage list \<Rightarrow>
   nat \<Rightarrow> nat \<Rightarrow> nat \<Rightarrow> nat \<Rightarrow> nat \<Rightarrow> nat \<Rightarrow> nat \<Rightarrow> nat \<Rightarrow> pingpong \<Rightarrow> bool" where
  "pp_counts ser a b ms ns x y k z fx fy fk fz s \<longleftrightarrow>
     knows ms (pp_plog s) (pp_pinger s) \<and> knows ns (pp_qlog s) (pp_ponger s) \<and>
     in_subscriptions (pp_pinger s) = [ping_topic \<mapsto> Some 0, pong_topic \<mapsto> Some 1] \<and>
     in_subscriptions (pp_ponger s) = [ping_topic \<mapsto> Some 1, pong_topic \<mapsto> Some 0] \<and>
     pp_rounds s \<le> pinger_rounds \<and>
     x + fx \<le> pp_rounds s \<and> k + fk \<le> pp_rounds s \<and> y + fy \<le> k \<and> z + fz \<le> k \<and>
     mset (in_delivered (pp_pinger s)) = replicate_mset x (0, ping_bytes) + replicate_mset y (1, ping_bytes) \<and>
     mset (in_delivered (pp_ponger s)) = replicate_mset k (1, ping_bytes) + replicate_mset z (0, ping_bytes) \<and>
     mset (in_out (pp_pinger s)) =
       replicate_mset (x + fx) (path_address a, ser \<lparr>mm_topic = ping_topic, mm_inlined = ping_bytes\<rparr>) +
       replicate_mset (k + fk) (path_address b, ser \<lparr>mm_topic = ping_topic, mm_inlined = ping_bytes\<rparr>) \<and>
     mset (in_out (pp_ponger s)) =
       replicate_mset (y + fy) (path_address a, ser \<lparr>mm_topic = pong_topic, mm_inlined = ping_bytes\<rparr>) +
       replicate_mset (z + fz) (path_address b, ser \<lparr>mm_topic = pong_topic, mm_inlined = ping_bytes\<rparr>) \<and>
     pp_flight s =
       replicate_mset fx (path_address a, ser \<lparr>mm_topic = ping_topic, mm_inlined = ping_bytes\<rparr>) +
       replicate_mset fk (path_address b, ser \<lparr>mm_topic = ping_topic, mm_inlined = ping_bytes\<rparr>) +
       replicate_mset fy (path_address a, ser \<lparr>mm_topic = pong_topic, mm_inlined = ping_bytes\<rparr>) +
       replicate_mset fz (path_address b, ser \<lparr>mm_topic = pong_topic, mm_inlined = ping_bytes\<rparr>)"

text \<open>
  Where the nodes know each other: each round sends two pings, each ping the ponger gets two pongs.
\<close>

definition pp_gains :: "pingpong \<Rightarrow> nat \<Rightarrow> nat \<Rightarrow> nat \<Rightarrow> nat \<Rightarrow> nat \<Rightarrow> pingpong \<Rightarrow> nat \<Rightarrow> nat \<Rightarrow> nat \<Rightarrow> nat \<Rightarrow> nat \<Rightarrow> bool" where
  "pp_gains s p1 p2 k q1 q2 s' p1' p2' k' q1' q2' \<longleftrightarrow>
     (pp_plog s = [] \<longrightarrow> pp_plog s' = [] \<and> p1' + pp_rounds s = p1 + pp_rounds s' \<and> p2' + pp_rounds s = p2 + pp_rounds s') \<and>
     (pp_qlog s = [] \<longrightarrow> pp_qlog s' = [] \<and> q1' + k = q1 + k' \<and> q2' + k = q2 + k')"

lemma codec_distinct:
  assumes "codec_ok parse ser"
  shows "ser \<lparr>mm_topic = ping_topic, mm_inlined = ping_bytes\<rparr> \<noteq> ser \<lparr>mm_topic = pong_topic, mm_inlined = ping_bytes\<rparr>"
proof
  assume "ser \<lparr>mm_topic = ping_topic, mm_inlined = ping_bytes\<rparr> = ser \<lparr>mm_topic = pong_topic, mm_inlined = ping_bytes\<rparr>"
  with assms have "(True, \<lparr>mm_topic = ping_topic, mm_inlined = ping_bytes\<rparr>) =
      (True, \<lparr>mm_topic = pong_topic, mm_inlined = ping_bytes\<rparr>)" by (auto simp: codec_ok_def)
  then show False by simp
qed

lemma sent_by_delivered [simp]: "sent_by n (n\<lparr>in_delivered := ds\<rparr>) = {#}"
  by (simp add: sent_by_def)

lemma sent_by_publish_delivered [simp]:
  "sent_by n (Publish ser t d (n\<lparr>in_delivered := ds\<rparr>)) = sent_by n (Publish ser t d n)"
  by (simp add: sent_by_def Publish_def Let_def)

lemma Publish_fields [simp]:
  "in_subscriptions (Publish ser t d n) = in_subscriptions n"
  "in_delivered (Publish ser t d n) = in_delivered n"
  by (simp_all add: Publish_def Let_def)

lemma replicate_sum: "replicate_mset (m + n) x = replicate_mset m x + replicate_mset n x"
  by (induction m) auto

lemma out_Publish: "mset (in_out (Publish ser t d n)) = mset (in_out n) + sent_by n (Publish ser t d n)"
  by (simp add: Publish_def Let_def sent_by_def)

lemma out_Publish_delivered:
  "mset (in_out (Publish ser t d (n\<lparr>in_delivered := ds\<rparr>))) = mset (in_out n) + sent_by n (Publish ser t d n)"
  by (simp add: Publish_def Let_def sent_by_def)

text \<open>One step, with the results of sending, receiving and reading updates filled in.\<close>

lemma pp_counts_step:
  assumes c: "pp_counts ser a b ms ns x y k z fx fy fk fz s" and step: "pp_step parse ser (path_address a) (path_address b) s s'"
    and codec: "codec_ok parse ser" and ij: "i \<noteq> j" and ab: "path_address a \<noteq> path_address b" and ne: "a \<noteq> []" "b \<noteq> []"
    and log: "pair_log i a j b ms" "pair_log i a j b ns"
  shows "\<exists>x' y' k' z' fx' fy' fk' fz'. pp_counts ser a b ms ns x' y' k' z' fx' fy' fk' fz' s' \<and>
    pp_gains s (x + fx) (k + fk) k (y + fy) (z + fz) s' (x' + fx') (k' + fk') k' (y' + fy') (z' + fz') \<and>
    8 * (pinger_rounds - pp_rounds s') + fx' + 3 * fk' + fy' + fz' + length (pp_plog s') + length (pp_qlog s') <
    8 * (pinger_rounds - pp_rounds s) + fx + 3 * fk + fy + fz + length (pp_plog s) + length (pp_qlog s)"
proof -
  let ?P = "ser \<lparr>mm_topic = ping_topic, mm_inlined = ping_bytes\<rparr>"
  let ?Q = "ser \<lparr>mm_topic = pong_topic, mm_inlined = ping_bytes\<rparr>"
  note blobs = codec_distinct [OF codec] codec_distinct [OF codec, symmetric] ab ab [symmetric]
  note inv = c [unfolded pp_counts_def]
  have p: "knows ms (pp_plog s) (pp_pinger s)" "in_subscriptions (pp_pinger s) = [ping_topic \<mapsto> Some 0, pong_topic \<mapsto> Some 1]"
    and q: "knows ns (pp_qlog s) (pp_ponger s)" "in_subscriptions (pp_ponger s) = [ping_topic \<mapsto> Some 1, pong_topic \<mapsto> Some 0]"
    using inv by simp_all
  note recv_p = receive_known [OF p(2) codec, of _ _ pinger_callback]
  note recv_q = receive_known [OF q(2) codec, of _ _ "ponger_callback ser"]
  from step show ?thesis
  proof (cases rule: pp_step.cases)
    case (ping n)
    obtain u v where uv: "u \<le> 1" "v \<le> 1" "pp_plog s = [] \<longrightarrow> u = 1 \<and> v = 1"
      "sent_by (pp_pinger s) n = replicate_mset u (path_address a, ?P) + replicate_mset v (path_address b, ?P)"
      using pair_publish [OF p(1) log(1) ij ne, of ser ping_topic ping_bytes] ping(3) by (auto simp: pinger_round_def)
    have out: "mset (in_out n) = mset (in_out (pp_pinger s)) + sent_by (pp_pinger s) n"
      unfolding ping(3) pinger_round_def by (rule out_Publish)
    have "pp_counts ser a b ms ns x y k z (fx + u) fy (fk + v) fz s'"
      using inv uv(1,2) ping(2) knows_frame(2) [OF p(1)] unfolding pp_counts_def ping(1)
      by (simp add: out uv(4) replicate_sum ac_simps) (simp add: ping(3) pinger_round_def)
    then show ?thesis
      using uv ping(1,2) by (intro exI conjI) (assumption, simp_all add: pp_gains_def)
  next
    case (tell_pinger m rest n)
    obtain n' where n': "deliver_update m (pp_pinger s) = Inr n'" "knows ms rest n'"
      "in_subscriptions n' = in_subscriptions (pp_pinger s)" "in_out n' = in_out (pp_pinger s)"
      "in_delivered n' = in_delivered (pp_pinger s)"
      using knows_update [OF p(1) [unfolded tell_pinger(2)] log(1)] by blast
    then have "pp_counts ser a b ms ns x y k z fx fy fk fz s'"
      using inv tell_pinger by (simp add: pp_counts_def)
    then show ?thesis
      using tell_pinger by (intro exI conjI) (assumption, simp_all add: pp_gains_def)
  next
    case (tell_ponger m rest n)
    obtain n' where n': "deliver_update m (pp_ponger s) = Inr n'" "knows ns rest n'"
      "in_subscriptions n' = in_subscriptions (pp_ponger s)" "in_out n' = in_out (pp_ponger s)"
      "in_delivered n' = in_delivered (pp_ponger s)"
      using knows_update [OF q(1) [unfolded tell_ponger(2)] log(2)] by blast
    then have "pp_counts ser a b ms ns x y k z fx fy fk fz s'"
      using inv tell_ponger by (simp add: pp_counts_def)
    then show ?thesis
      using tell_ponger by (intro exI conjI) (assumption, simp_all add: pp_gains_def)
  next
    case (to_pinger blob n)
    then have "blob = ?P \<and> 0 < fx \<or> blob = ?Q \<and> 0 < fy"
      using inv ab by (auto simp: in_replicate_mset simp del: set_mset_replicate_mset_subset)
    then consider (ping) f where "blob = ?P" "fx = Suc f" | (pong) f where "blob = ?Q" "fy = Suc f"
      by (auto simp: gr0_conv_Suc)
    then show ?thesis
    proof cases
      case ping
      then have n: "n = (pp_pinger s)\<lparr>in_delivered := in_delivered (pp_pinger s) @ [(0, ping_bytes)]\<rparr>"
        using to_pinger(3) recv_p [of ping_topic 0] by (simp add: pinger_callback_def)
      have "pp_counts ser a b ms ns (Suc x) y k z f fy fk fz s'"
        using inv ping knows_frame(1) [OF p(1)] unfolding to_pinger(1) n by (simp add: pp_counts_def)
      then show ?thesis using ping to_pinger(1) by (intro exI conjI) (assumption, simp_all add: pp_gains_def)
    next
      case pong
      then have n: "n = (pp_pinger s)\<lparr>in_delivered := in_delivered (pp_pinger s) @ [(1, ping_bytes)]\<rparr>"
        using to_pinger(3) recv_p [of pong_topic 1] by (simp add: pinger_callback_def)
      have "pp_counts ser a b ms ns x (Suc y) k z fx f fk fz s'"
        using inv pong knows_frame(1) [OF p(1)] unfolding to_pinger(1) n by (simp add: pp_counts_def)
      then show ?thesis using pong to_pinger(1) by (intro exI conjI) (assumption, simp_all add: pp_gains_def)
    qed
  next
    case (to_ponger blob n)
    then have "blob = ?P \<and> 0 < fk \<or> blob = ?Q \<and> 0 < fz"
      using inv ab by (auto simp: in_replicate_mset simp del: set_mset_replicate_mset_subset)
    then consider (ping) f where "blob = ?P" "fk = Suc f" | (pong) f where "blob = ?Q" "fz = Suc f"
      by (auto simp: gr0_conv_Suc)
    then show ?thesis
    proof cases
      case ping
      let ?n = "(pp_ponger s)\<lparr>in_delivered := in_delivered (pp_ponger s) @ [(1, ping_bytes)]\<rparr>"
      have n: "n = Publish ser pong_topic ping_bytes ?n"
        using ping to_ponger(3) recv_q [of ping_topic 1] by (simp add: ponger_callback_def)
      obtain u v where uv: "u \<le> 1" "v \<le> 1" "pp_qlog s = [] \<longrightarrow> u = 1 \<and> v = 1"
        "sent_by (pp_ponger s) n = replicate_mset u (path_address a, ?Q) + replicate_mset v (path_address b, ?Q)"
        using pair_publish [OF q(1) log(2) ij ne, of ser pong_topic ping_bytes] unfolding n by auto
      have out: "mset (in_out n) = mset (in_out (pp_ponger s)) + sent_by (pp_ponger s) n"
        unfolding n by (simp add: out_Publish_delivered)
      have know: "knows ns (pp_qlog s) n" unfolding n by (intro knows_frame q(1))
      have "in_delivered n = in_delivered (pp_ponger s) @ [(1, ping_bytes)]" "in_subscriptions n = in_subscriptions (pp_ponger s)"
        unfolding n by simp_all
      then have "pp_counts ser a b ms ns x y (Suc k) z fx (fy + u) f (fz + v) s'"
        using inv ping uv(1,2) know unfolding to_ponger(1) pp_counts_def
        by (simp add: out uv(4) replicate_sum ac_simps)
      then show ?thesis
        using ping uv to_ponger(1) by (intro exI conjI) (assumption, simp_all add: pp_gains_def)
    next
      case pong
      then have n: "n = (pp_ponger s)\<lparr>in_delivered := in_delivered (pp_ponger s) @ [(0, ping_bytes)]\<rparr>"
        using to_ponger(3) recv_q [of pong_topic 0] by (simp add: ponger_callback_def)
      have "pp_counts ser a b ms ns x y k (Suc z) fx fy fk f s'"
        using inv pong knows_frame(1) [OF q(1)] unfolding to_ponger(1) n by (simp add: pp_counts_def)
      then show ?thesis using pong to_ponger(1) by (intro exI conjI) (assumption, simp_all add: pp_gains_def)
    qed
  qed
qed

definition pp_work :: "(MetadataMessage \<Rightarrow> bytes) \<Rightarrow> string \<Rightarrow> pingpong \<Rightarrow> nat" where
  "pp_work ser b s = 8 * (pinger_rounds - pp_rounds s) + size (pp_flight s) +
     2 * count (pp_flight s) (path_address b, ser \<lparr>mm_topic = ping_topic, mm_inlined = ping_bytes\<rparr>) +
     length (pp_plog s) + length (pp_qlog s)"

lemma pp_work_counts:
  assumes "pp_counts ser a b ms ns x y k z fx fy fk fz s" "codec_ok parse ser" "path_address a \<noteq> path_address b"
  shows "pp_work ser b s = 8 * (pinger_rounds - pp_rounds s) + fx + 3 * fk + fy + fz + length (pp_plog s) + length (pp_qlog s)"
  using assms(1,3) codec_distinct [OF assms(2)] by (simp add: pp_counts_def pp_work_def)

lemma pp_gains_refl: "pp_gains s p1 p2 k q1 q2 s p1 p2 k q1 q2"
  by (simp add: pp_gains_def)

lemma pp_gains_trans:
  "pp_gains s p1 p2 k q1 q2 s1 p1' p2' k' q1' q2' \<Longrightarrow> pp_gains s1 p1' p2' k' q1' q2' s2 p1'' p2'' k'' q1'' q2'' \<Longrightarrow>
   pp_gains s p1 p2 k q1 q2 s2 p1'' p2'' k'' q1'' q2''"
  by (auto simp: pp_gains_def)

lemma pp_counts_steps:
  assumes "(pp_step parse ser (path_address a) (path_address b))\<^sup>*\<^sup>* s s'" "pp_counts ser a b ms ns x y k z fx fy fk fz s"
    "codec_ok parse ser" "i \<noteq> j" "path_address a \<noteq> path_address b" "a \<noteq> []" "b \<noteq> []"
    "pair_log i a j b ms" "pair_log i a j b ns"
  shows "\<exists>x' y' k' z' fx' fy' fk' fz'. pp_counts ser a b ms ns x' y' k' z' fx' fy' fk' fz' s' \<and>
    pp_gains s (x + fx) (k + fk) k (y + fy) (z + fz) s' (x' + fx') (k' + fk') k' (y' + fy') (z' + fz')"
  using assms
proof (induction rule: rtranclp_induct)
  case base
  then show ?case using pp_gains_refl by blast
next
  case (step s' s'')
  then obtain x' y' k' z' fx' fy' fk' fz' where "pp_counts ser a b ms ns x' y' k' z' fx' fy' fk' fz' s'"
    "pp_gains s (x + fx) (k + fk) k (y + fy) (z + fz) s' (x' + fx') (k' + fk') k' (y' + fy') (z' + fz')" by blast
  with pp_counts_step [OF this(1) step.hyps(2) step.prems(2-8)] show ?case by (blast intro: pp_gains_trans)
qed

lemma pp_progress:
  assumes c: "pp_counts ser a b ms ns x y k z fx fy fk fz s" and codec: "codec_ok parse ser"
    and log: "pair_log i a j b ms" "pair_log i a j b ns"
    and "pp_rounds s < pinger_rounds \<or> pp_plog s \<noteq> [] \<or> pp_qlog s \<noteq> [] \<or> pp_flight s \<noteq> {#}"
  shows "\<exists>s'. pp_step parse ser (path_address a) (path_address b) s s'"
proof -
  let ?P = "ser \<lparr>mm_topic = ping_topic, mm_inlined = ping_bytes\<rparr>"
  let ?Q = "ser \<lparr>mm_topic = pong_topic, mm_inlined = ping_bytes\<rparr>"
  note inv = c [unfolded pp_counts_def]
  consider (round) "pp_rounds s < pinger_rounds" | (plog) m rest where "pp_plog s = m # rest"
    | (qlog) m rest where "pp_qlog s = m # rest" | (flight) "pp_flight s \<noteq> {#}"
    using assms(5) by (cases "pp_plog s"; cases "pp_qlog s") auto
  then show ?thesis
  proof cases
    case round
    then show ?thesis using pp_step.ping by blast
  next
    case plog
    with inv knows_update [OF _ log(1)] pp_step.tell_pinger show ?thesis by metis
  next
    case qlog
    with inv knows_update [OF _ log(2)] pp_step.tell_ponger show ?thesis by metis
  next
    case flight
    with inv consider "0 < fx" | "0 < fk" | "0 < fy" | "0 < fz" by auto
    then consider (p) blob t where "(path_address a, blob) \<in># pp_flight s" "blob = ser \<lparr>mm_topic = t, mm_inlined = ping_bytes\<rparr>"
        "t \<in> {ping_topic, pong_topic}"
      | (q) blob t where "(path_address b, blob) \<in># pp_flight s" "blob = ser \<lparr>mm_topic = t, mm_inlined = ping_bytes\<rparr>"
        "t \<in> {ping_topic, pong_topic}"
      using inv by cases (auto simp: in_replicate_mset simp del: set_mset_replicate_mset_subset)
    then show ?thesis
    proof cases
      case p
      have "\<exists>n. receive_datagram pinger_callback parse blob (pp_pinger s) = Inr n"
        using receive_known [of "pp_pinger s" 0 1 parse ser t _ pinger_callback] inv codec p by auto
      with p show ?thesis using pp_step.to_pinger by blast
    next
      case q
      have "\<exists>n. receive_datagram (ponger_callback ser) parse blob (pp_ponger s) = Inr n"
        using receive_known [of "pp_ponger s" 1 0 parse ser t _ "ponger_callback ser"] inv codec q by auto
      with q show ?thesis using pp_step.to_ponger by blast
    qed
  qed
qed

section \<open>From the setup to the exchange\<close>

text \<open>Requests send and deliver nothing.\<close>

lemma request_calls:
  assumes "list_all (\<lambda>c. lawful_call c \<and> call_request 0 c \<noteq> None) cs" "node_wf n" "nbr_path n = mgr_path (in_manager n)"
  shows "\<exists>n'. feed (run_call parse ser) cs n = Inr n' \<and> node_wf n' \<and> nbr_path n' = mgr_path (in_manager n') \<and>
    abs_topology (in_manager n') = abs_topology (in_manager n) \<and> in_subscriptions n' = fold call_callbacks cs (in_subscriptions n) \<and>
    in_out n' = in_out n \<and> in_delivered n' = in_delivered n"
  using assms
proof (induction cs arbitrary: n)
  case (Cons c cs)
  then have c: "lawful_call c" "call_updates c = []" "call_request 0 c \<noteq> None" by (cases c; simp)+
  then obtain n1 where n1: "run_call parse ser c n = Inr n1" "call_state c n n1"
    "call_spec parse ser c (abs_topology (in_manager n)) (in_subscriptions n) n n1"
    using run_call_spec [of n c parse ser] Cons.prems by auto
  have "in_out n1 = in_out n \<and> in_delivered n1 = in_delivered n"
    using n1(3) c(3) by (cases c) (auto simp: call_spec_def call_sends_def)
  with n1 c(2) Cons.IH [of n1] Cons.prems show ?case by (auto simp: call_state_def)
qed simp

lemma setup_node:
  "\<exists>n'. bind_res (node_Announce r0 t0 mime (IPCNode_init g nm l d))
      (\<lambda>n. bind_res (node_Subscribe r1 t1 (Some c1) n) (node_Subscribe r2 t2 (Some c2))) = Inr n' \<and>
    knows ms ms n' \<and> in_subscriptions n' = [t1 \<mapsto> Some c1, t2 \<mapsto> Some c2] \<and> in_out n' = [] \<and> in_delivered n' = []"
proof -
  let ?cs = "[Announce_call r0 t0 mime, Subscribe_call r1 t1 (Some c1), Subscribe_call r2 t2 (Some c2)]"
  let ?n = "IPCNode_init g nm l d"
  have "list_all (\<lambda>c. lawful_call c \<and> call_request 0 c \<noteq> None) ?cs" by simp
  from request_calls [OF this IPCNode_init_wf IPCNode_init_sys(3), of undefined undefined]
  obtain n' where n': "feed (run_call undefined undefined) ?cs ?n = Inr n'" "node_wf n'"
    "nbr_path n' = mgr_path (in_manager n')" "abs_topology (in_manager n') = abs_topology (in_manager ?n)"
    "in_subscriptions n' = fold call_callbacks ?cs (in_subscriptions ?n)" "in_out n' = in_out ?n" "in_delivered n' = in_delivered ?n"
    by blast
  have "topology [] = Map.empty" by (simp add: topology_def)
  then have "knows ms ms n'" using n'(2-4) by (simp add: knows_def)
  moreover have "bind_res (node_Announce r0 t0 mime ?n)
      (\<lambda>n. bind_res (node_Subscribe r1 t1 (Some c1) n) (node_Subscribe r2 t2 (Some c2))) = Inr n'"
  proof -
    have one: "feed f [c] = f c" for f :: "node_call \<Rightarrow> IPCNode \<Rightarrow> IPCNode res" and c
      by (rule ext) (simp add: bind_res_def split: sum.split)
    have "feed f [c, c'] = (\<lambda>n. bind_res (f c n) (f c'))" for f :: "node_call \<Rightarrow> IPCNode \<Rightarrow> IPCNode res" and c c'
      by (rule ext) (simp add: one)
    moreover have "run_call undefined undefined (Subscribe_call r2 t2 (Some c2)) = node_Subscribe r2 t2 (Some c2)"
      by (rule ext) simp
    ultimately show ?thesis using n'(1) by simp
  qed
  ultimately show ?thesis using n'(5-7) by (simp add: IPCNode_init_def)
qed

text \<open>
  The exchange is over: everything played, read and delivered. The ponger got \<open>k\<close> pings; \<open>x\<close>, \<open>y\<close> and \<open>z\<close>
  count the pinger's own pings, the pongs it got, and the ponger's own pongs.
\<close>

definition pp_over :: "(MetadataMessage \<Rightarrow> bytes) \<Rightarrow> string \<Rightarrow> string \<Rightarrow> nat \<Rightarrow> pingpong \<Rightarrow> bool" where
  "pp_over ser a b least s \<longleftrightarrow>
     pp_rounds s = 100 \<and> pp_plog s = [] \<and> pp_qlog s = [] \<and> pp_flight s = {#} \<and>
     (\<exists>x y k z. mset (in_delivered (pp_pinger s)) = replicate_mset x (0, ping_bytes) + replicate_mset y (1, ping_bytes) \<and>
       mset (in_delivered (pp_ponger s)) = replicate_mset k (1, ping_bytes) + replicate_mset z (0, ping_bytes) \<and>
       mset (in_out (pp_pinger s)) =
         replicate_mset x (path_address a, ser \<lparr>mm_topic = ping_topic, mm_inlined = ping_bytes\<rparr>) +
         replicate_mset k (path_address b, ser \<lparr>mm_topic = ping_topic, mm_inlined = ping_bytes\<rparr>) \<and>
       mset (in_out (pp_ponger s)) =
         replicate_mset y (path_address a, ser \<lparr>mm_topic = pong_topic, mm_inlined = ping_bytes\<rparr>) +
         replicate_mset z (path_address b, ser \<lparr>mm_topic = pong_topic, mm_inlined = ping_bytes\<rparr>) \<and>
       x \<le> 100 \<and> k \<le> 100 \<and> y \<le> k \<and> z \<le> k \<and> least \<le> x \<and> least \<le> k \<and> least \<le> y \<and> least \<le> z)"

definition both_told :: "pingpong \<Rightarrow> bool" where
  "both_told s \<longleftrightarrow> pp_plog s = [] \<and> pp_qlog s = []"

lemma pp_counts_over:
  assumes s: "pp_counts ser a b ms ns x y k z fx fy fk fz s" and run: "(pp_step parse ser (path_address a) (path_address b))\<^sup>*\<^sup>* s t"
    and stuck: "\<nexists>t'. pp_step parse ser (path_address a) (path_address b) t t'"
    and codec: "codec_ok parse ser" and two: "i \<noteq> j" "path_address a \<noteq> path_address b" "a \<noteq> []" "b \<noteq> []"
    and log: "pair_log i a j b ms" "pair_log i a j b ns"
  shows "pp_over ser a b (if both_told s then 100 - pp_rounds s else 0) t"
proof -
  from pp_counts_steps [OF run s codec two log] obtain x' y' k' z' fx' fy' fk' fz' where
    t: "pp_counts ser a b ms ns x' y' k' z' fx' fy' fk' fz' t"
    and gains: "pp_gains s (x + fx) (k + fk) k (y + fy) (z + fz) t (x' + fx') (k' + fk') k' (y' + fy') (z' + fz')" by blast
  have rest: "\<not> pp_rounds t < 100" "pp_plog t = []" "pp_qlog t = []" "pp_flight t = {#}"
    using pp_progress [OF t codec log] stuck by (auto simp: pinger_rounds_def)
  then have zero: "fx' = 0" "fy' = 0" "fk' = 0" "fz' = 0" and rounds: "pp_rounds t = 100"
    using t by (auto simp: pp_counts_def pinger_rounds_def)
  have "(if both_told s then 100 - pp_rounds s else 0) \<le> n" if "n \<in> {x', k', y', z'}" for n
    using gains s that rounds by (auto simp: pp_gains_def pp_counts_def both_told_def zero)
  then show ?thesis
    using t rest rounds unfolding pp_over_def pp_counts_def zero pinger_rounds_def
    by (intro conjI exI [of _ x'] exI [of _ y'] exI [of _ k'] exI [of _ z']) simp_all
qed

text \<open>
  C40: the ping-pong demo, from the moment both programs have made their calls of \<open>Announce\<close> and
  \<open>Subscribe\<close> and for as long as both run. The pinger plays its 100 rounds while what the hub has to
  say about the two nodes is still on its way to either of them. However rounds, updates and datagrams
  are interleaved, a run cannot go on for ever, and stops only when all 100 rounds have been played,
  both nodes have read all updates, and every datagram sent has been given to the callback it is for,
  once: the pings the pinger has sent to itself and to the ponger, and the pongs, at most one to either
  node for each ping the ponger got. Rounds played before the nodes know each other may go unanswered;
  from any moment on at which both have read their updates, each further round is answered: if \<open>r\<close>
  rounds had been played by then, at least \<open>100 - r\<close> of each of the four kinds arrive, and all 100 if it
  was before the first. So, other than the comments in the programs say, a node does receive its own
  messages on a topic it subscribes to.
\<close>

theorem ping_pong_exchange:
  assumes log: "pair_log i (data_path c) j (data_path d) ms" "pair_log i (data_path c) j (data_path d) ns"
    and two: "i \<noteq> j" "c \<noteq> d" and codec: "codec_ok parse ser"
  shows "\<exists>p q. pinger_setup r (IPCNode_init ''/pingpong2'' ''pinger'' i (data_path c)) = Inr p \<and>
    ponger_setup r' (IPCNode_init ''/pingpong2'' ''ponger'' j (data_path d)) = Inr q \<and>
    (\<forall>s. (pp_step parse ser (path_address (data_path c)) (path_address (data_path d)))\<^sup>*\<^sup>* (pp_start p q ms ns) s \<longrightarrow>
      (\<forall>s'. pp_step parse ser (path_address (data_path c)) (path_address (data_path d)) s s' \<longrightarrow>
        pp_work ser (data_path d) s' < pp_work ser (data_path d) s) \<and>
      (\<forall>t. (pp_step parse ser (path_address (data_path c)) (path_address (data_path d)))\<^sup>*\<^sup>* s t \<and>
          (\<nexists>t'. pp_step parse ser (path_address (data_path c)) (path_address (data_path d)) t t') \<longrightarrow>
        pp_over ser (data_path c) (data_path d) (if both_told s then 100 - pp_rounds s else 0) t))"
proof -
  let ?a = "data_path c" and ?b = "data_path d"
  let ?R = "pp_step parse ser (path_address ?a) (path_address ?b)"
  have ab: "path_address ?a \<noteq> path_address ?b" using two(2) data_path_injective by blast
  have ne: "?a \<noteq> []" "?b \<noteq> []" by (simp_all add: data_path_def)
  obtain p where p: "pinger_setup r (IPCNode_init ''/pingpong2'' ''pinger'' i ?a) = Inr p" "knows ms ms p"
    "in_subscriptions p = [ping_topic \<mapsto> Some 0, pong_topic \<mapsto> Some 1]" "in_out p = []" "in_delivered p = []"
    using setup_node [of "r 0" ping_topic "''text/plain''" "''/pingpong2''" "''pinger''" i ?a "r 1" ping_topic 0 "r 2" pong_topic 1 ms]
    unfolding pinger_setup_def by blast
  obtain q where q: "ponger_setup r' (IPCNode_init ''/pingpong2'' ''ponger'' j ?b) = Inr q" "knows ns ns q"
    "in_subscriptions q = [pong_topic \<mapsto> Some 0, ping_topic \<mapsto> Some 1]" "in_out q = []" "in_delivered q = []"
    using setup_node [of "r' 0" pong_topic "''text/plain''" "''/pingpong2''" "''ponger''" j ?b "r' 1" pong_topic 0 "r' 2" ping_topic 1 ns]
    unfolding ponger_setup_def by blast
  have start: "pp_counts ser ?a ?b ms ns 0 0 0 0 0 0 0 0 (pp_start p q ms ns)"
    using p q by (simp add: pp_counts_def pp_start_def fun_upd_twist)
  have "(\<forall>s'. ?R s s' \<longrightarrow> pp_work ser ?b s' < pp_work ser ?b s) \<and>
      (\<forall>t. ?R\<^sup>*\<^sup>* s t \<and> (\<nexists>t'. ?R t t') \<longrightarrow> pp_over ser ?a ?b (if both_told s then 100 - pp_rounds s else 0) t)"
    if reach: "?R\<^sup>*\<^sup>* (pp_start p q ms ns) s" for s
  proof -
    obtain x y k z fx fy fk fz where c: "pp_counts ser ?a ?b ms ns x y k z fx fy fk fz s"
      using pp_counts_steps [OF reach start codec two(1) ab ne log] by blast
    have "pp_work ser ?b s' < pp_work ser ?b s" if "?R s s'" for s'
      using pp_counts_step [OF c that codec two(1) ab ne log] pp_work_counts [OF _ codec ab] c by metis
    with pp_counts_over [OF c _ _ codec two(1) ab ne log] show ?thesis by blast
  qed
  with p(1) q(1) show ?thesis by blast
qed

text \<open>Steps that use up work lead to a state without a step.\<close>

lemma runs_down:
  fixes f :: "'a \<Rightarrow> nat"
  assumes "\<forall>s. R\<^sup>*\<^sup>* s0 s \<longrightarrow> (\<forall>s'. R s s' \<longrightarrow> f s' < f s)"
  shows "\<exists>s. R\<^sup>*\<^sup>* s0 s \<and> (\<nexists>s'. R s s')"
proof -
  have "R\<^sup>*\<^sup>* s0 s \<Longrightarrow> \<exists>t. R\<^sup>*\<^sup>* s0 t \<and> (\<nexists>t'. R t t')" for s
  proof (induction "f s" arbitrary: s rule: less_induct)
    case less
    show ?case
    proof (cases "\<exists>s'. R s s'")
      case True
      then obtain s' where "R s s'" by blast
      with less.prems have "f s' < f s" "R\<^sup>*\<^sup>* s0 s'" using assms by (blast, simp)
      with less.hyps show ?thesis by blast
    qed (use less.prems in blast)
  qed
  then show ?thesis by blast
qed

definition demo_log :: "TopologyMessage list" where
  "demo_log = [node_msg 1 1 JOIN 7 ''pinger'' (data_path 5), node_msg 2 2 JOIN 8 ''ponger'' (data_path 6),
     topic_msg 3 3 SUBSCRIBE 7 ping_topic [], topic_msg 4 4 SUBSCRIBE 8 pong_topic [],
     topic_msg 5 5 SUBSCRIBE 8 ping_topic [], topic_msg 6 6 SUBSCRIBE 7 pong_topic []]"

definition short_ser :: "MetadataMessage \<Rightarrow> bytes" where
  "short_ser m = (if mm_topic m = ping_topic then 1 else 2) # mm_inlined m"

definition short_parse :: "bytes \<Rightarrow> bool \<times> MetadataMessage" where
  "short_parse b = (b \<noteq> [], \<lparr>mm_topic = (if hd b = 1 then ping_topic else pong_topic), mm_inlined = tl b\<rparr>)"

lemma demo_log_pair: "pair_log 7 (data_path 5) 8 (data_path 6) demo_log"
proof -
  note step = topology_step_def keyed_step_def msg_key_def topology_cell_def
  have run: "topology (m # ms) = fold topology_step ms (topology_step m Map.empty)" for m ms
    using topology_append [of "[]" "m # ms"] by (simp add: topology_def)
  have empty: "topology [] = Map.empty" by (simp add: topology_def)
  have fits: "\<forall>m\<in>set demo_log. address_fits m"
    by (simp add: demo_log_def address_fits_def sun_path_size_def data_path_def)
      (simp add: node_change_def topic_msg_def default_NodeChange_def)
  have stable: "stable_addresses demo_log Map.empty"
    by (simp add: demo_log_def joins_def step)
  have "(x, nv_address v) \<in> {(7, data_path 5), (8, data_path 6)}"
    if "demo_log = pre @ rest" "topology pre x = Some v" for pre rest x v
    using that unfolding demo_log_def
    by (auto simp: Cons_eq_append_conv run empty step split: if_splits)
  moreover have "\<forall>x\<in>{7, 8}. \<exists>v. topology demo_log x = Some v \<and> {ping_topic, pong_topic} \<subseteq> nv_subs v"
    by (simp add: demo_log_def run step)
  ultimately show ?thesis using fits stable unfolding pair_log_def by blast
qed

lemma short_codec_ok: "codec_ok short_parse short_ser"
  by (simp add: codec_ok_def short_parse_def short_ser_def ping_bytes_def UINT16_MAX_def)

text \<open>A run in which the pinger plays its first round before it has heard of anybody.\<close>

lemma ping_pong_exchange_witness:
  "\<exists>p q s t. pinger_setup (\<lambda>_. 0) (IPCNode_init ''/pingpong2'' ''pinger'' 7 (data_path 5)) = Inr p \<and>
    ponger_setup (\<lambda>_. 0) (IPCNode_init ''/pingpong2'' ''ponger'' 8 (data_path 6)) = Inr q \<and>
    pp_step short_parse short_ser (path_address (data_path 5)) (path_address (data_path 6)) (pp_start p q demo_log demo_log) s \<and>
    pp_rounds s = 1 \<and> pp_plog s = demo_log \<and>
    (pp_step short_parse short_ser (path_address (data_path 5)) (path_address (data_path 6)))\<^sup>*\<^sup>* s t \<and>
    pp_over short_ser (data_path 5) (data_path 6) 0 t"
proof -
  let ?R = "pp_step short_parse short_ser (path_address (data_path 5)) (path_address (data_path 6))"
  let ?n = "IPCNode_init ''/pingpong2'' ''pinger'' 7 (data_path 5)" and ?n' = "IPCNode_init ''/pingpong2'' ''ponger'' 8 (data_path 6)"
  have ne: "(7::u64) \<noteq> 8" "(5::u64) \<noteq> 6" by simp_all
  obtain p q where pq: "pinger_setup (\<lambda>_. 0) ?n = Inr p" "ponger_setup (\<lambda>_. 0) ?n' = Inr q"
    and less: "\<forall>s. ?R\<^sup>*\<^sup>* (pp_start p q demo_log demo_log) s \<longrightarrow>
      (\<forall>s'. ?R s s' \<longrightarrow> pp_work short_ser (data_path 6) s' < pp_work short_ser (data_path 6) s)"
    and over: "\<forall>s t. ?R\<^sup>*\<^sup>* (pp_start p q demo_log demo_log) s \<longrightarrow> ?R\<^sup>*\<^sup>* s t \<and> (\<nexists>t'. ?R t t') \<longrightarrow>
      pp_over short_ser (data_path 5) (data_path 6) (if both_told s then 100 - pp_rounds s else 0) t"
    using ping_pong_exchange [OF demo_log_pair demo_log_pair ne short_codec_ok, of "\<lambda>_. 0" "\<lambda>_. 0"] by blast
  let ?start = "pp_start p q demo_log demo_log"
  let ?first = "?start\<lparr>pp_pinger := pinger_round short_ser p, pp_rounds := 1,
    pp_flight := {#} + sent_by p (pinger_round short_ser p)\<rparr>"
  have step: "?R ?start ?first"
    using pp_step.ping [where s = ?start and parse = short_parse and ser = short_ser, OF _ refl]
    by (simp add: pp_start_def pinger_rounds_def)
  then have reach: "?R\<^sup>*\<^sup>* ?start ?first" by blast
  have "?R\<^sup>*\<^sup>* ?first s' \<Longrightarrow> ?R\<^sup>*\<^sup>* ?start s'" for s' using reach by (rule rtranclp_trans)
  then obtain t where t: "?R\<^sup>*\<^sup>* ?first t" "\<nexists>t'. ?R t t'"
    using runs_down [of ?R ?first "pp_work short_ser (data_path 6)"] less by blast
  have new: "\<not> both_told ?first" by (simp add: both_told_def pp_start_def demo_log_def)
  have "pp_over short_ser (data_path 5) (data_path 6) (if both_told ?first then 100 - pp_rounds ?first else 0) t"
    using over [rule_format, OF reach] t by blast
  then have "pp_over short_ser (data_path 5) (data_path 6) 0 t" by (simp only: new if_False)
  moreover have "pp_rounds ?first = 1" "pp_plog ?first = demo_log" by (simp_all add: pp_start_def)
  ultimately show ?thesis using pq step t(1) by blast
qed

end
