(* ===== verification/StandaloneDemos.thy ===== *)
theory StandaloneDemos
  imports SharedMemoryProperties ManagerProperties
begin

text \<open>
  The demo programs over single classes: \<open>cmd/standalone_publisher.cc\<close> and
  \<open>cmd/standalone_subscriber.cc\<close>, which are run as a pair, and \<open>cmd/topology_node.cc\<close>.
\<close>

section \<open>The publisher and the subscriber\<close>

definition hello_data :: bytes where "hello_data = map of_char ''hello'' @ [0]"
definition txt_meta :: bytes where "txt_meta = map of_char ''txt''"

text \<open>The endless loop, as far as the list of what its system calls return goes.\<close>

fun standalone_publisher :: "send_env list \<Rightarrow> Publisher \<Rightarrow> Publisher" where
  "standalone_publisher [] s = s"
| "standalone_publisher (env # envs) s =
     standalone_publisher envs (snd (Publisher_Send env txt_meta hello_data s))"

datatype subscriber_line = Received | Meta_line bytes | Msg_line bytes

definition standalone_Callback :: "IPCMessage \<Rightarrow> subscriber_line list \<Rightarrow> subscriber_line list res" where
  "standalone_Callback msg out =
     bind_res (Contents msg) (\<lambda>contents. Inr (out @ [Received, Meta_line (MetaData msg), Msg_line contents]))"

text \<open>
  \<open>main\<close> waits for the event and then destroys the subscriber, which joins the thread that has set
  the event and ended. \<open>None\<close>: it is blocked in \<open>WaitForShutdown\<close>.
\<close>

definition standalone_subscriber :: "received_record list \<Rightarrow> (int option \<times> subscriber_line list) res" where
  "standalone_subscriber rs =
     (let s = snd (read_thread rs Subscriber_init)
      in bind_res (feed standalone_Callback (sb_calls s) []) (\<lambda>out.
         Inr (if WaitForShutdown s = None then None else Some 0, out)))"

text \<open>The records a client's socket holds, with what its side of each descriptor gives.\<close>

definition records_for :: "fd \<Rightarrow> (nat \<Rightarrow> int) \<Rightarrow> Publisher \<Rightarrow> received_record list" where
  "records_for c f s = map (\<lambda>(_, md, obj). Recv md (Some (rights (f obj))) (int (length (the (pb_objects s obj))))
     (Mapped (the (pb_objects s obj)))) (filter (\<lambda>x. fst x = c) (pb_wire s))"

definition good_send :: "fd \<Rightarrow> send_env \<Rightarrow> bool" where
  "good_send c env \<longleftrightarrow> se_write_fd env \<noteq> -1 \<and> se_send_fd env \<noteq> -1 \<and> se_send_fd env \<noteq> se_write_fd env \<and>
     se_written env = int (length hello_data) \<and> se_accepts env c"

lemma filter_single: "distinct cs \<Longrightarrow> c \<in> set cs \<Longrightarrow> filter (\<lambda>d. d = c) (filter P cs) = (if P c then [c] else [])"
  by (induction cs) (auto simp: filter_empty_conv)

lemma good_send_effect:
  assumes "good_send c env" "pb_fds s = Map.empty" "pb_names s = Map.empty" "distinct (pb_clients s)" "c \<in> set (pb_clients s)"
  defines "s' \<equiv> snd (Publisher_Send env txt_meta hello_data s)"
  shows "pb_fds s' = Map.empty" "pb_names s' = Map.empty" "pb_clients s' = pb_clients s"
    "pb_objects s' = (pb_objects s)(se_object env \<mapsto> hello_data)"
    "filter (\<lambda>x. fst x = c) (pb_wire s') = filter (\<lambda>x. fst x = c) (pb_wire s) @ [(c, txt_meta @ [0], se_object env)]"
proof -
  have "filter ((\<lambda>x. fst x = c) \<circ> (\<lambda>c. (c, txt_meta @ [0], se_object env))) (filter (se_accepts env) (pb_clients s)) = [c]"
    using filter_single [OF assms(4,5), of "se_accepts env"] assms(1) by (simp add: good_send_def comp_def)
  then show "pb_fds s' = Map.empty" "pb_names s' = Map.empty" "pb_clients s' = pb_clients s"
    "pb_objects s' = (pb_objects s)(se_object env \<mapsto> hello_data)"
    "filter (\<lambda>x. fst x = c) (pb_wire s') = filter (\<lambda>x. fst x = c) (pb_wire s) @ [(c, txt_meta @ [0], se_object env)]"
    using Publisher_Send_sent [of env hello_data s txt_meta] assms(1-3)
    by (simp_all add: s'_def good_send_def target_def leftover_def filter_map fun_upd_idem)
qed

lemma standalone_publisher_effect:
  assumes "\<forall>env\<in>set envs. good_send c env" "pb_fds s = Map.empty" "pb_names s = Map.empty"
    "distinct (pb_clients s)" "c \<in> set (pb_clients s)" "distinct (map se_object envs)"
  shows "filter (\<lambda>x. fst x = c) (pb_wire (standalone_publisher envs s)) =
      filter (\<lambda>x. fst x = c) (pb_wire s) @ map (\<lambda>env. (c, txt_meta @ [0], se_object env)) envs \<and>
    (\<forall>obj. pb_objects (standalone_publisher envs s) obj =
      (if obj \<in> se_object ` set envs then Some hello_data else pb_objects s obj))"
  using assms
proof (induction envs arbitrary: s)
  case (Cons env envs)
  let ?s = "snd (Publisher_Send env txt_meta hello_data s)"
  have good: "good_send c env" using Cons.prems by simp
  note eff = good_send_effect [OF good Cons.prems(2-5)]
  from Cons.IH [of ?s] Cons.prems eff show ?case by auto
qed simp

lemma read_thread_hello:
  assumes "sb_controllen s = CMSG_SPACE_int"
  shows "\<exists>s'. sb_controllen s' = CMSG_SPACE_int \<and> sb_event s' = sb_event s \<and>
    sb_calls s' = sb_calls s @ map (\<lambda>obj. \<lparr>im_metaData = txt_meta @ [0], im_blobPtr = Mapped hello_data,
      im_blobSize = length hello_data, im_fd = f obj\<rparr>) objs \<and>
    read_thread (map (\<lambda>obj. Recv (txt_meta @ [0]) (Some (rights (f obj))) (int (length hello_data)) (Mapped hello_data)) objs @ rs) s =
      read_thread rs s'"
  using assms
proof (induction objs arbitrary: s)
  case (Cons obj objs)
  let ?s = "receive (txt_meta @ [0]) (Some (rights (f obj))) (int (length hello_data)) (Mapped hello_data) s"
  have "length (txt_meta @ [0]) \<le> BUFFLEN" by (simp add: txt_meta_def BUFFLEN_def)
  then have "sb_controllen ?s = CMSG_SPACE_int" "sb_event ?s = sb_event s"
    "sb_calls ?s = sb_calls s @ [\<lparr>im_metaData = txt_meta @ [0], im_blobPtr = Mapped hello_data,
      im_blobSize = length hello_data, im_fd = f obj\<rparr>]"
    using Cons.prems
    by (simp_all add: receive_def Let_def stored_control_def IPCMessage_Create_def rights_def)
  with Cons.IH [of ?s] show ?case by simp
qed auto

lemma callbacks_hello:
  "feed standalone_Callback (map (\<lambda>obj. \<lparr>im_metaData = txt_meta @ [0], im_blobPtr = Mapped hello_data,
      im_blobSize = length hello_data, im_fd = f obj\<rparr>) objs) out =
    Inr (out @ concat (map (\<lambda>_. [Received, Meta_line (txt_meta @ [0]), Msg_line hello_data]) objs))"
  by (induction objs arbitrary: out)
    (simp_all add: standalone_Callback_def Contents_def MetaData_def hello_data_def)

text \<open>
  The standalone pair. Every message the publisher's loop sends to a subscriber that is connected
  and accepts it is printed once, in order, each with the metadata (and its added zero byte) and the
  contents it was sent with, however many rounds are played before the publisher goes away; and
  then the subscriber's \<open>main\<close> returns 0. The objects the kernel makes are new ones.
\<close>

lemma standalone_pair:
  assumes "\<forall>env\<in>set envs. good_send c env" "pb_fds s = Map.empty" "pb_names s = Map.empty" "pb_wire s = []"
    "distinct (pb_clients s)" "c \<in> set (pb_clients s)" "distinct (map se_object envs)"
  shows "standalone_subscriber (records_for c f (standalone_publisher envs s) @ [Recv_end]) =
    Inr (Some 0, concat (map (\<lambda>_. [Received, Meta_line (txt_meta @ [0]), Msg_line hello_data]) envs))"
proof -
  let ?s = "standalone_publisher envs s"
  let ?rec = "\<lambda>obj. Recv (txt_meta @ [0]) (Some (rights (f obj))) (int (length hello_data)) (Mapped hello_data)"
  note eff = standalone_publisher_effect [OF assms(1-3,5-7)]
  have recs: "records_for c f ?s = map ?rec (map se_object envs)"
    using eff assms(4) by (simp add: records_for_def)
  obtain s' where s': "sb_event s' = 0" "sb_calls s' = map (\<lambda>obj. \<lparr>im_metaData = txt_meta @ [0], im_blobPtr = Mapped hello_data,
      im_blobSize = length hello_data, im_fd = f obj\<rparr>) (map se_object envs)"
    "read_thread (map ?rec (map se_object envs) @ [Recv_end]) Subscriber_init = read_thread [Recv_end] s'"
    using read_thread_hello [of Subscriber_init f "map se_object envs" "[Recv_end]"]
    by (auto simp: Subscriber_init_def simp del: map_map)
  have "eventfd_read UINT32_MAX \<noteq> None" by (rule eventfd_read_positive) (simp add: UINT32_MAX_def)
  then show ?thesis
    using s' callbacks_hello [of f "map se_object envs" "[]"] unfolding standalone_subscriber_def recs
    by (auto simp: Let_def eventfd_write_def eventfd_max_def UINT32_MAX_def WaitForShutdown_def comp_def)
qed

definition fresh_send :: "nat \<Rightarrow> send_env" where
  "fresh_send obj = \<lparr>se_rng = (\<lambda>n. 10), se_object = obj, se_write_fd = 8, se_written = 6, se_send_fd = 9,
     se_accepts = (\<lambda>c. True)\<rparr>"

lemma standalone_pair_witness:
  "standalone_subscriber (records_for 5 int (standalone_publisher (map fresh_send [1, 2]) sample_publisher) @ [Recv_end]) =
    Inr (Some 0, [Received, Meta_line (txt_meta @ [0]), Msg_line hello_data,
      Received, Meta_line (txt_meta @ [0]), Msg_line hello_data])"
  using standalone_pair [of "map fresh_send [1, 2]" 5 sample_publisher int]
  by (simp add: good_send_def fresh_send_def sample_publisher_def hello_data_def)

section \<open>\<open>topology_node\<close>\<close>

text \<open>The manager the program makes; it sets all six handlers, each of which prints its argument.\<close>

definition topology_node :: "(nat \<Rightarrow> u64) \<Rightarrow> (nat \<Rightarrow> u64) \<Rightarrow> u64 \<Rightarrow> TopologyManager" where
  "topology_node rng1 rng2 nodeId = TopologyManager_init ''hello'' (GenRandom rng1 8) nodeId (GenRandom rng2 8)"

lemma topology_node_never_fails:
  "outcome {} (\<lambda>m. abs_topology m = topology ms) (feed (ApplyUpdate all_handlers) ms (topology_node rng1 rng2 nodeId))"
  using apply_log [of "topology_node rng1 rng2 nodeId" all_handlers ms] topology_append [of "[]" ms]
  by (auto simp: topology_node_def manager_faults_def all_handlers_def intro: outcome_mono)

end
