(* ===== verification/UnixDemos.thy ===== *)
theory UnixDemos
  imports Posix
begin

text \<open>
  \<open>cmd/unix_dgram_reader.cc\<close> and \<open>cmd/unix_dgram_writer.cc\<close>: two programs that try Unix sockets in
  a stream, a sequenced packet and a datagram variant. System calls are functions of their
  arguments or scripts of results; a program ends with an exit status or is blocked at the end of
  its script, and what it prints is a list.
\<close>

section \<open>Common parts\<close>

datatype sock_type = SOCK_STREAM | SOCK_SEQPACKET | SOCK_DGRAM

datatype demo_end = Blocked | Exited int

datatype printed =
    Perror string
  | Read_line nat bytes          \<comment> \<open>\<open>"read " << rc << " bytes: " << ...\<close>\<close>
  | Arrow_line bytes             \<comment> \<open>\<open>"--> " << buf\<close>\<close>
  | Named string                 \<comment> \<open>\<open>"socket -->" << NAME\<close>\<close>
  | Poll_result u16
  | Eof
  | Partial_write "int option"   \<comment> \<open>with the result of \<open>write\<close> in the packet variant\<close>

text \<open>\<open>strncpy\<close> of at most \<open>n\<close> characters from \<open>mem\<close> (up to its first zero byte) to \<open>dst\<close> at \<open>i\<close>.\<close>

definition strncpy_at :: "nat \<Rightarrow> nat \<Rightarrow> string \<Rightarrow> string \<Rightarrow> string" where
  "strncpy_at i n mem dst =
     (let s = take n (takeWhile (\<lambda>ch. ch \<noteq> NUL) mem)
      in take i dst @ s @ replicate (n - length s) NUL @ drop (i + n) dst)"

text \<open>\<open>mem\<close> is the memory \<open>socket_path\<close> points to, its terminating zero included.\<close>

definition demo_address :: "string \<Rightarrow> string" where
  "demo_address mem =
     (if hd mem = NUL
      then strncpy_at 1 (sun_path_size - 2) (tl mem) (zero_path[0 := NUL])
      else strncpy_at 0 (sun_path_size - 1) mem zero_path)"

definition demo_socket_path :: string where "demo_socket_path = ''socket'' @ [NUL]"

text \<open>
  A \<open>char\<close> array printed with \<open><<\<close>: up to its first zero byte. Without one the read runs on
  behind the array.
\<close>

definition c_text :: "bytes \<Rightarrow> bytes res" where
  "c_text buf = (if 0 \<in> set buf then Inr (takeWhile (\<lambda>b. b \<noteq> 0) buf) else Inl Buffer_overflow)"

definition fill :: "bytes \<Rightarrow> bytes \<Rightarrow> bytes" where
  "fill d buf = d @ drop (length d) buf"

section \<open>The reader\<close>

subsection \<open>Stream variant\<close>

datatype session_end = Session_blocked | Session_failed | Session_closed

fun read_session ::
  "read_result list \<Rightarrow> bytes \<Rightarrow> printed list \<Rightarrow> (session_end \<times> bytes \<times> printed list) res" where
  "read_session [] buf out = Inr (Session_blocked, buf, out)"
| "read_session (Read_error # rs) buf out = Inr (Session_failed, buf, out)"
| "read_session (Read_record b # rs) buf out =
     (let d = read_into 100 b
      in if d = [] then Inr (Session_closed, buf, out)
      else
        let buf = fill d buf
        in bind_res (c_text buf) (\<lambda>s. read_session rs buf (out @ [Read_line (length d) s])))"

fun stream_accepts ::
  "(int \<times> read_result list) list \<Rightarrow> bytes \<Rightarrow> printed list \<Rightarrow> (demo_end \<times> printed list) res" where
  "stream_accepts [] buf out = Inr (Blocked, out)"
| "stream_accepts ((cl, rs) # as) buf out =
     (if cl = -1 then stream_accepts as buf (out @ [Perror ''accept error''])
      else
        bind_res (read_session rs buf out) (\<lambda>(e, buf, out).
        case e of
          Session_blocked \<Rightarrow> Inr (Blocked, out)
        | Session_failed \<Rightarrow> Inr (Exited (-1), out @ [Perror ''read''])
        | Session_closed \<Rightarrow> stream_accepts as buf (out @ [Eof])))"

text \<open>What the system calls before the loop return; \<open>listen\<close> depends on the type of the socket.\<close>

record demo_calls =
  dc_socket :: "sock_type \<Rightarrow> int"
  dc_bind :: "string \<Rightarrow> int"
  dc_listen :: "sock_type \<Rightarrow> int"
  dc_connect :: "sock_type \<Rightarrow> string \<Rightarrow> int"

text \<open>The stream variant asks for \<open>SOCK_DGRAM\<close>.\<close>

definition stream_reader ::
  "demo_calls \<Rightarrow> (int \<times> read_result list) list \<Rightarrow> bytes \<Rightarrow> (demo_end \<times> printed list) res" where
  "stream_reader k as buf =
     (if dc_socket k SOCK_DGRAM = -1 then Inr (Exited (-1), [Perror ''socket error''])
      else if dc_bind k (demo_address demo_socket_path) = -1 then Inr (Exited (-1), [Perror ''bind error''])
      else if dc_listen k SOCK_DGRAM = -1 then Inr (Exited (-1), [Perror ''listen error''])
      else stream_accepts as buf [])"

subsection \<open>Packet variant\<close>

datatype packet_event = Packet_poll_failed | Packet u16 read_result

fun packet_session :: "packet_event list \<Rightarrow> printed list \<Rightarrow> demo_end \<times> printed list" where
  "packet_session [] out = (Blocked, out)"
| "packet_session (Packet_poll_failed # es) out = (Exited (-1), out @ [Perror ''Failed to poll''])"
| "packet_session (Packet revents Read_error # es) out =
     (Exited (-1), out @ [Poll_result revents, Perror ''read''])"
| "packet_session (Packet revents (Read_record b) # es) out =
     (let d = read_into 100 b
      in packet_session es (out @ [Poll_result revents] @ (if d = [] then [Eof] else []) @
           [Read_line (length d) d]))"

fun packet_accepts ::
  "(int \<times> packet_event list) list \<Rightarrow> printed list \<Rightarrow> demo_end \<times> printed list" where
  "packet_accepts [] out = (Blocked, out)"
| "packet_accepts ((cl, es) # as) out =
     (if cl = -1 then packet_accepts as (out @ [Perror ''accept error'']) else packet_session es out)"

definition packet_reader ::
  "demo_calls \<Rightarrow> (int \<times> packet_event list) list \<Rightarrow> demo_end \<times> printed list" where
  "packet_reader k as =
     (if dc_socket k SOCK_SEQPACKET = -1 then (Exited (-1), [Perror ''socket error''])
      else if dc_bind k (demo_address demo_socket_path) = -1 then (Exited (-1), [Perror ''bind error''])
      else if dc_listen k SOCK_SEQPACKET = -1 then (Exited (-1), [Perror ''listen error''])
      else packet_accepts as [])"

subsection \<open>Datagram variant\<close>

fun datagram_reads :: "read_result list \<Rightarrow> bytes \<Rightarrow> printed list \<Rightarrow> (demo_end \<times> printed list) res" where
  "datagram_reads [] buf out = Inr (Blocked, out)"
| "datagram_reads (r # rs) buf out =
     (case r of
        Read_error \<Rightarrow>
          bind_res (c_text buf) (\<lambda>s.
          datagram_reads rs buf (out @ [Perror ''receiving datagram packet'', Arrow_line s]))
      | Read_record b \<Rightarrow>
          (let buf = fill (read_into 1024 b) buf
           in bind_res (c_text buf) (\<lambda>s. datagram_reads rs buf (out @ [Arrow_line s]))))"

text \<open>\<open>name\<close> is not initialised; \<open>strcpy\<close> writes the path and its zero byte.\<close>

definition strcpy_path :: "string \<Rightarrow> string \<Rightarrow> string res" where
  "strcpy_path src dst = copy_path (src @ [NUL]) dst"

definition datagram_reader ::
  "demo_calls \<Rightarrow> string \<Rightarrow> read_result list \<Rightarrow> bytes \<Rightarrow> (demo_end \<times> printed list) res" where
  "datagram_reader k uninitialised rs buf =
     (if dc_socket k SOCK_DGRAM < 0 then Inr (Exited 1, [Perror ''opening datagram socket''])
      else
        bind_res (strcpy_path ''socket'' uninitialised) (\<lambda>name.
        if dc_bind k name \<noteq> 0 then Inr (Exited 1, [Perror ''binding name to datagram socket''])
        else datagram_reads rs buf [Named ''socket'']))"

section \<open>The writer\<close>

text \<open>One turn of the loop: what \<open>read\<close> on the standard input returns, and what \<open>write\<close> does.\<close>

type_synonym turn = "read_result \<times> int"

definition written_part :: "int \<Rightarrow> bytes \<Rightarrow> bytes list" where
  "written_part n d = (if n \<le> 0 then [] else [take (nat n) d])"

fun stream_copies :: "turn list \<Rightarrow> printed list \<Rightarrow> bytes list \<Rightarrow> demo_end \<times> printed list \<times> bytes list" where
  "stream_copies [] out wire = (Blocked, out, wire)"
| "stream_copies ((r, n) # ts) out wire =
     (case r of
        Read_error \<Rightarrow> (Exited 0, out, wire)
      | Read_record b \<Rightarrow>
          (let d = read_into 100 b; rc = int (length d); wire' = wire @ written_part n d
           in if \<not> rc > 0 then (Exited 0, out, wire)
           else if n \<noteq> rc then
             (if rc > 0 then stream_copies ts (out @ [Partial_write None]) wire'
              else (Exited (-1), out @ [Perror ''write error''], wire'))
           else stream_copies ts out wire'))"

definition stream_writer :: "demo_calls \<Rightarrow> turn list \<Rightarrow> demo_end \<times> printed list \<times> bytes list" where
  "stream_writer k ts =
     (if dc_socket k SOCK_STREAM = -1 then (Exited (-1), [Perror ''socket error''], [])
      else if dc_connect k SOCK_STREAM (demo_address demo_socket_path) = -1
      then (Exited (-1), [Perror ''connect error''], [])
      else stream_copies ts [] [])"

fun packet_copies :: "turn list \<Rightarrow> printed list \<Rightarrow> bytes list \<Rightarrow> demo_end \<times> printed list \<times> bytes list" where
  "packet_copies [] out wire = (Blocked, out, wire)"
| "packet_copies ((r, bts) # ts) out wire =
     (case r of
        Read_error \<Rightarrow> (Exited 0, out, wire)
      | Read_record b \<Rightarrow>
          (let d = read_into 100 b; rc = int (length d)
           in if \<not> rc > 0 then (Exited 0, out, wire)
           else
             let out = out @ [Read_line (length d) d]; wire' = wire @ written_part bts d
             in if bts \<noteq> rc then
               (let out = out @ (if bts < 0 then [Perror ''Error''] else [])
                in if rc > 0 then packet_copies ts (out @ [Partial_write (Some bts)]) wire'
                   else (Exited (-1), out @ [Perror ''write error''], wire'))
             else packet_copies ts out wire'))"

definition packet_writer :: "demo_calls \<Rightarrow> turn list \<Rightarrow> demo_end \<times> printed list \<times> bytes list" where
  "packet_writer k ts =
     (if dc_socket k SOCK_SEQPACKET = -1 then (Exited (-1), [Perror ''socket error''], [])
      else if dc_connect k SOCK_SEQPACKET (demo_address demo_socket_path) = -1
      then (Exited (-1), [Perror ''connect error''], [])
      else packet_copies ts [] [])"

definition DATA :: bytes where
  "DATA = map of_char ''The sea is calm tonight, the tide is full . . .''"

fun datagram_sends :: "nat \<Rightarrow> (nat \<Rightarrow> int) \<Rightarrow> nat \<Rightarrow> printed list \<Rightarrow> bytes list \<Rightarrow> printed list \<times> bytes list" where
  "datagram_sends 0 sent i out wire = (out, wire)"
| "datagram_sends (Suc n) sent i out wire =
     (if sent i < 0 then datagram_sends n sent (Suc i) (out @ [Perror ''sending datagram message'']) wire
      else datagram_sends n sent (Suc i) out (wire @ [DATA @ [0]]))"

text \<open>\<open>sent i\<close> is the result of the \<open>i\<close>-th \<open>sendto\<close>.\<close>

definition datagram_writer ::
  "demo_calls \<Rightarrow> string \<Rightarrow> (nat \<Rightarrow> int) \<Rightarrow> (demo_end \<times> printed list \<times> bytes list) res" where
  "datagram_writer k uninitialised sent =
     (if dc_socket k SOCK_DGRAM < 0 then Inr (Exited 1, [Perror ''opening datagram socket''], [])
      else bind_res (strcpy_path ''socket'' uninitialised) (\<lambda>name. Inr (Exited 0, datagram_sends 5 sent 0 [] [])))"

section \<open>\<open>main\<close>\<close>

datatype variant = Stream_variant | Datagram_variant | Packet_variant | No_variant

text \<open>Both programs choose by the first argument; any other word ends them with status 0.\<close>

definition demo_variant :: "string list \<Rightarrow> variant" where
  "demo_variant args =
     (if args = [] \<or> hd args = ''stream'' then Stream_variant
      else if hd args = ''datagram'' then Datagram_variant
      else if hd args = ''sequence'' then Packet_variant
      else No_variant)"

definition reader_main ::
  "string list \<Rightarrow> demo_calls \<Rightarrow> (int \<times> read_result list) list \<Rightarrow> (int \<times> packet_event list) list \<Rightarrow>
   read_result list \<Rightarrow> string \<Rightarrow> bytes \<Rightarrow> (demo_end \<times> printed list) res" where
  "reader_main args k as ps rs uninitialised buf =
     (case demo_variant args of
        Stream_variant \<Rightarrow> stream_reader k as buf
      | Datagram_variant \<Rightarrow> datagram_reader k uninitialised rs buf
      | Packet_variant \<Rightarrow> Inr (packet_reader k ps)
      | No_variant \<Rightarrow> Inr (Exited 0, []))"

definition writer_main ::
  "string list \<Rightarrow> demo_calls \<Rightarrow> turn list \<Rightarrow> (nat \<Rightarrow> int) \<Rightarrow> string \<Rightarrow>
   (demo_end \<times> printed list \<times> bytes list) res" where
  "writer_main args k ts sent uninitialised =
     (case demo_variant args of
        Stream_variant \<Rightarrow> Inr (stream_writer k ts)
      | Datagram_variant \<Rightarrow> datagram_writer k uninitialised sent
      | Packet_variant \<Rightarrow> Inr (packet_writer k ts)
      | No_variant \<Rightarrow> Inr (Exited 0, [], []))"

end
