(* ===== verification/UnixDemoProperties.thy ===== *)
theory UnixDemoProperties
  imports UnixDemos
begin

text \<open>
  The properties of \<open>cmd/unix_dgram_reader.cc\<close> and \<open>cmd/unix_dgram_writer.cc\<close>, alone and as the
  pair they are meant to be run as.
\<close>

lemma demo_address_socket: "demo_address demo_socket_path = ''socket'' @ replicate 102 NUL"
  by (simp add: demo_address_def demo_socket_path_def strncpy_at_def NUL_def zero_path_def
      sun_path_size_def numeral_eq_Suc)

section \<open>Printing a buffer\<close>

lemma takeWhile_text: "0 \<notin> set d \<Longrightarrow> takeWhile (\<lambda>b. b \<noteq> 0) (d @ xs) = d @ takeWhile (\<lambda>b. b \<noteq> 0) xs"
  for d :: bytes
  by (induction d) auto

lemma c_text_fill:
  assumes "0 \<notin> set d"
  shows "c_text (fill d buf) =
    (if 0 \<in> set (drop (length d) buf) then Inr (d @ takeWhile (\<lambda>b. b \<noteq> 0) (drop (length d) buf))
     else Inl Buffer_overflow)"
  using assms by (simp add: c_text_def fill_def takeWhile_text)

lemma c_text_fill_terminated: "0 \<notin> set d \<Longrightarrow> c_text (fill (d @ [0]) buf) = Inr d"
  by (simp add: c_text_def fill_def takeWhile_text)

lemma fill_fill [simp]: "fill d (fill d buf) = fill d buf"
  by (simp add: fill_def)

lemma length_fill: "length d \<le> length buf \<Longrightarrow> length (fill d buf) = length buf"
  by (simp add: fill_def)

section \<open>The writers\<close>

lemma stream_copies_end: "fst (stream_copies ts out wire) \<in> {Blocked, Exited 0}"
proof (induction ts arbitrary: out wire)
  case (Cons t ts)
  then show ?case by (cases t) (auto simp: Let_def split: read_result.splits)
qed simp

lemma packet_copies_end: "fst (packet_copies ts out wire) \<in> {Blocked, Exited 0}"
proof (induction ts arbitrary: out wire)
  case (Cons t ts)
  then show ?case by (cases t) (auto simp: Let_def split: read_result.splits)
qed simp

text \<open>
  Behind \<open>rc > 0\<close> in the loop condition the branch that ends the program cannot be reached: once
  connected, neither writer ever ends with an error, whatever its writes return.
\<close>

lemma writers_never_fail:
  assumes "dc_socket k SOCK_STREAM \<noteq> -1" "dc_connect k SOCK_STREAM (demo_address demo_socket_path) \<noteq> -1"
    and "dc_socket k SOCK_SEQPACKET \<noteq> -1" "dc_connect k SOCK_SEQPACKET (demo_address demo_socket_path) \<noteq> -1"
  shows "fst (stream_writer k ts) \<in> {Blocked, Exited 0} \<and> fst (packet_writer k ts) \<in> {Blocked, Exited 0}"
  using assms stream_copies_end packet_copies_end by (simp add: stream_writer_def packet_writer_def)

lemma packet_copies_complete:
  assumes "\<forall>c\<in>set chunks. c \<noteq> [] \<and> length c \<le> 100"
  shows "packet_copies (map (\<lambda>c. (Read_record c, int (length c))) chunks @ ts) out wire =
    packet_copies ts (out @ map (\<lambda>c. Read_line (length c) c) chunks) (wire @ chunks)"
  using assms by (induction chunks arbitrary: out wire) (simp_all add: Let_def written_part_def)

section \<open>The readers\<close>

lemma packet_session_records:
  assumes "\<forall>c\<in>set chunks. c \<noteq> [] \<and> length c \<le> 100"
  shows "packet_session (map (\<lambda>c. Packet POLLIN (Read_record c)) chunks @ es) out =
    packet_session es (out @ concat (map (\<lambda>c. [Poll_result POLLIN, Read_line (length c) c]) chunks))"
  using assms by (induction chunks arbitrary: out) (simp_all add: Let_def)

lemma packet_accepts_refused:
  "\<forall>a\<in>set refused. fst a = -1 \<Longrightarrow>
   packet_accepts (refused @ as) out = packet_accepts as (out @ replicate (length refused) (Perror ''accept error''))"
proof (induction refused arbitrary: out)
  case (Cons a refused)
  then show ?case by (cases a) (simp add: replicate_app_Cons_same)
qed simp

text \<open>The variant that runs by default asks for a datagram socket, on which nothing can listen.\<close>

lemma stream_reader_never_accepts:
  assumes "dc_listen k SOCK_DGRAM = -1"
  shows "\<exists>out. reader_main [] k as ps rs un buf = Inr (Exited (-1), out)"
  using assms by (auto simp: reader_main_def demo_variant_def stream_reader_def)

text \<open>
  The packet pair. What the writer reads from its standard input it writes as one record each,
  and the reader prints the records as they were; both calls of \<open>main\<close> dispatch on the argument
  \<open>sequence\<close>. But the reader serves a single client: at the end of its stream it closes the
  descriptor and goes on polling it, so it ends with an error, and clients that would be accepted
  next make no difference.
\<close>

lemma packet_demo_serves_one_client:
  assumes chunks: "\<forall>c\<in>set chunks. c \<noteq> [] \<and> length c \<le> 100"
    and kw: "dc_socket kw SOCK_SEQPACKET \<noteq> -1" "dc_connect kw SOCK_SEQPACKET (demo_address demo_socket_path) \<noteq> -1"
    and kr: "dc_socket kr SOCK_SEQPACKET \<noteq> -1" "dc_bind kr (demo_address demo_socket_path) \<noteq> -1"
      "dc_listen kr SOCK_SEQPACKET \<noteq> -1"
    and accepts: "\<forall>a\<in>set refused. fst a = -1" "cl \<noteq> -1"
  shows "writer_main [''sequence''] kw (map (\<lambda>c. (Read_record c, int (length c))) chunks @ [(Read_record [], n)]) sent un =
      Inr (Exited 0, map (\<lambda>c. Read_line (length c) c) chunks, chunks) \<and>
    reader_main [''sequence''] kr as (refused @ (cl, map (\<lambda>c. Packet POLLIN (Read_record c)) chunks @
        [Packet (POLLIN OR POLLHUP) (Read_record []), Packet POLLNVAL Read_error]) # later) rs un buf =
      Inr (Exited (-1), replicate (length refused) (Perror ''accept error'') @
        concat (map (\<lambda>c. [Poll_result POLLIN, Read_line (length c) c]) chunks) @
        [Poll_result (POLLIN OR POLLHUP), Eof, Read_line 0 [], Poll_result POLLNVAL, Perror ''read''])"
  using kw kr accepts(2)
  by (simp add: writer_main_def reader_main_def demo_variant_def packet_writer_def packet_reader_def
      packet_copies_complete [OF chunks] packet_session_records [OF chunks]
      packet_accepts_refused [OF accepts(1)] Let_def)

definition working_calls :: demo_calls where
  "working_calls = \<lparr>dc_socket = (\<lambda>_. 3), dc_bind = (\<lambda>_. 0), dc_listen = (\<lambda>_. 0), dc_connect = (\<lambda>_ _. 0)\<rparr>"

lemma packet_demo_serves_one_client_witness:
  "reader_main [''sequence''] working_calls [] ([(-1, [])] @ (4, map (\<lambda>c. Packet POLLIN (Read_record c)) [[1, 0], [2]] @
        [Packet (POLLIN OR POLLHUP) (Read_record []), Packet POLLNVAL Read_error]) # [(5, [])]) [] [] [] =
      Inr (Exited (-1), [Perror ''accept error'', Poll_result POLLIN, Read_line 2 [1, 0], Poll_result POLLIN,
        Read_line 1 [2], Poll_result (POLLIN OR POLLHUP), Eof, Read_line 0 [], Poll_result POLLNVAL, Perror ''read''])"
  using packet_demo_serves_one_client [of "[[1, 0], [2]]" working_calls working_calls "[(-1, [])]" 4 0 "\<lambda>_. 0" "[]"
      "[]" "[(5, [])]" "[]" "[]"]
  by (simp add: working_calls_def)

section \<open>The datagram pair\<close>

lemma DATA_text: "0 \<notin> set DATA" "length DATA = 47"
  by (simp_all add: DATA_def)

lemma datagram_sends_all:
  assumes "\<forall>i. 0 \<le> sent i"
  shows "datagram_sends n sent i out wire = (out, wire @ replicate n (DATA @ [0]))"
proof (induction n arbitrary: i wire)
  case (Suc n)
  have "\<not> sent i < 0" using assms by (simp add: not_less)
  with Suc show ?case by simp
qed simp

lemma datagram_reads_terminated:
  assumes "0 \<notin> set d" "length d < 1024"
  shows "datagram_reads (replicate n (Read_record (d @ [0])) @ rs) buf out =
    datagram_reads rs (if n = 0 then buf else fill (d @ [0]) buf) (out @ replicate n (Arrow_line d))"
  using assms
proof (induction n arbitrary: buf out)
  case (Suc n)
  then show ?case
    by (simp add: c_text_fill_terminated replicate_app_Cons_same Let_def)
qed simp

text \<open>
  The datagram pair. When no send fails the writer sends its text five times, and the reader
  prints exactly that text five times whatever its buffer held before, because the writer sends the
  terminating zero too. The reader depends on this: of any further record without a zero byte it
  prints the bytes with whatever followed them in the buffer, and runs past the buffer if no zero
  byte is left there.
\<close>

lemma datagram_demo_text:
  assumes kw: "0 \<le> dc_socket kw SOCK_DGRAM" and kr: "0 \<le> dc_socket kr SOCK_DGRAM" "\<And>a. dc_bind kr a = 0"
    and sent: "\<forall>i. 0 \<le> sent i" and un: "length un = sun_path_size"
    and d: "0 \<notin> set d" "length d \<le> 1024" and buf: "length buf = 1024"
  shows "\<exists>wire. writer_main [''datagram''] kw ts sent un = Inr (Exited 0, [], wire) \<and>
    reader_main [''datagram''] kr as ps (map Read_record wire) un buf =
      Inr (Blocked, Named ''socket'' # replicate 5 (Arrow_line DATA)) \<and>
    reader_main [''datagram''] kr as ps (map Read_record (wire @ [d])) un buf =
      (let rest = drop (length d) (fill (DATA @ [0]) buf)
       in if 0 \<in> set rest
          then Inr (Blocked, Named ''socket'' # replicate 5 (Arrow_line DATA) @
            [Arrow_line (d @ takeWhile (\<lambda>b. b \<noteq> 0) rest)])
          else Inl Buffer_overflow)"
proof -
  have path: "\<exists>name. strcpy_path ''socket'' un = Inr name"
    using un by (simp add: strcpy_path_def copy_path_def sun_path_size_def)
  have reads: "datagram_reads (replicate 5 (Read_record (DATA @ [0])) @ rs) buf out =
      datagram_reads rs (fill (DATA @ [0]) buf) (out @ replicate 5 (Arrow_line DATA))" for rs out
    using datagram_reads_terminated [of DATA 5] DATA_text by simp
  have "writer_main [''datagram''] kw ts sent un = Inr (Exited 0, [], replicate 5 (DATA @ [0]))"
    using kw path by (auto simp: writer_main_def demo_variant_def datagram_writer_def datagram_sends_all [OF sent])
  moreover have "reader_main [''datagram''] kr as ps rs un buf = datagram_reads rs buf [Named ''socket'']" for rs
    using kr path by (auto simp: reader_main_def demo_variant_def datagram_reader_def)
  ultimately show ?thesis
    using reads [of "[]"] reads [of "[Read_record d]"] d
    by (intro exI [of _ "replicate 5 (DATA @ [0])"]) (simp add: c_text_fill Let_def map_replicate)
qed

lemma datagram_demo_text_witness:
  "reader_main [''datagram''] working_calls [] [] (map Read_record (replicate 5 (DATA @ [0]) @ [[65, 66]])) zero_path
      (replicate 1024 0) =
    Inr (Blocked, Named ''socket'' # replicate 5 (Arrow_line DATA) @ [Arrow_line (65 # 66 # drop 2 DATA)])"
proof -
  let ?buf = "replicate 1024 (0 :: u8)"
  have stale: "0 \<in> set (drop (length [65, 66 :: u8]) (fill (DATA @ [0]) ?buf))"
    "takeWhile (\<lambda>b. b \<noteq> 0) (drop (length [65, 66 :: u8]) (fill (DATA @ [0]) ?buf)) = drop 2 DATA"
    by (simp_all add: DATA_def fill_def)
  obtain wire where w: "writer_main [''datagram''] working_calls [] (\<lambda>_. 48) zero_path = Inr (Exited 0, [], wire)"
    "reader_main [''datagram''] working_calls [] [] (map Read_record (wire @ [[65, 66]])) zero_path ?buf =
      (let rest = drop (length [65, 66 :: u8]) (fill (DATA @ [0]) ?buf)
       in if 0 \<in> set rest
          then Inr (Blocked, Named ''socket'' # replicate 5 (Arrow_line DATA) @
            [Arrow_line ([65, 66] @ takeWhile (\<lambda>b. b \<noteq> 0) rest)])
          else Inl Buffer_overflow)"
    using datagram_demo_text [of working_calls working_calls "\<lambda>_. 48" zero_path "[65, 66]" ?buf "[]" "[]" "[]"]
    by (auto simp: working_calls_def)
  have "wire = replicate 5 (DATA @ [0])"
    using w(1) datagram_sends_all [of "\<lambda>_. 48" 5 0 "[]" "[]"]
    by (simp add: writer_main_def demo_variant_def datagram_writer_def working_calls_def strcpy_path_def
        copy_path_def sun_path_size_def)
  with w(2) stale show ?thesis by (simp only: Let_def if_True append.simps)
qed

end
