(* ===== verification/Spec2Isabelle.thy ===== *)
theory Spec2Isabelle
  imports HubProperties HubThreads ManagerLoop HubElection Failover SplitHistory NodeCalls Lifecycle SendRace Teardown Locks Backpressure
    SystemProperties SystemRecovery SharedMemoryProperties PingPong StandaloneDemos UnixDemoProperties
begin

text \<open>
  A verification library for ipc-pubsub, a publish-subscribe library over Unix sockets.

  \<^bold>\<open>The program.\<close> Every process of a group owns an \<open>IPCNode\<close> (\<open>lib/IPCNode.cc\<close>). The node binds a
  datagram socket, owns a \<open>TopologyManager\<close> (\<open>lib/TopologyManager.cc\<close>) and keeps a table of
  neighbours from the callbacks of that manager; \<open>Publish\<close> sends one datagram to each neighbour
  subscribed to the topic. The managers of a group share one hub, a \<open>TopologyServer\<close>
  (\<open>lib/TopologyServer.cc\<close>), that any of them starts when it cannot connect to one. The hub orders
  all messages about the topology, stamps them with sequence numbers, and writes each to every
  client. Hub and managers talk over \<open>UDSServer\<close> and \<open>UDSClient\<close> (\<open>lib/UDSServer.cc\<close>,
  \<open>lib/UDSClient.cc\<close>). \<open>Publisher\<close>, \<open>Subscriber\<close> and \<open>IPCMessage\<close> are an older pair of classes
  that passes shared memory descriptors.

  \<^bold>\<open>How the code is modelled.\<close> An object is a record of its fields, an operation a function from the
  state before to the state after, a loop a function of what the system calls return in its
  iterations. Calls that can end in an assertion, a null dereference, an exception, a buffer
  overflow or a self-deadlock return \<open>fault + state\<close> (\<open>Prelude\<close>). Writes, sends and user
  callbacks are recorded in lists in the state. Sequence numbers are 64-bit words. The generated
  protobuf code (\<open>parse\<close>, \<open>ser\<close>, \<open>serialize\<close>) and the random generators (\<open>rng\<close>) are arguments of the
  definitions; hypotheses about them (a round trip, a length) are stated where they are used and
  the witnesses instantiate them.

  \<^bold>\<open>The theories.\<close>
  \<^item> \<open>Prelude\<close>: faults, the outcome of a fallible call, hash maps, hash sets, \<open>lower_bound\<close>.
  \<^item> \<open>Messages\<close>: \<open>protos/index.proto\<close> and the three \<open>operator==\<close>.
  \<^item> \<open>TopologyView\<close>: the abstract specification, a topology as the fold of a log of messages;
    the locale \<open>keyed_log\<close> has the facts about logs with a key that can be closed.
  \<^item> \<open>Posix\<close>: \<open>poll\<close> flags, records, \<open>eventfd\<close>, socket addresses.
  \<^item> \<open>UDSServer\<close>, \<open>UDSClient\<close>: the two loops. The locales \<open>uds_handlers\<close> and \<open>uds_receiver\<close> state
    what the loops require of their callbacks; \<open>TransportProperties\<close> has the properties.
  \<^item> \<open>TopologyServer\<close>, \<open>HubInvariant\<close>, \<open>HubEffects\<close>, \<open>HubProperties\<close>: the hub, its invariant (which
    interprets \<open>uds_handlers\<close>), the effect of each handler on the topology, the properties.
  \<^item> \<open>TopologyManager\<close>, \<open>ManagerRefinement\<close>, \<open>ManagerProperties\<close>: the operations of the manager, the
    refinement of the abstract topology by its table (which interprets \<open>uds_receiver\<close>), the
    properties. The locale \<open>topology_listener\<close> is the contract of the manager's six callbacks.
  \<^item> \<open>ManagerLoop\<close>: the manager's main thread, requests, updates and destructor as a step relation.
  \<^item> \<open>HubElection\<close>: the main loops of all managers of a group against one announce path, each seen
    through the phase of its main thread: which server listens, who owns it, who waits on it.
  \<^item> \<open>HubThreads\<close>: the handlers of the hub and its purge thread as one set of reachable states.
  \<^item> \<open>Backpressure\<close>: one connection with blocking sockets of bounded size, while the manager
    introduces itself.
  \<^item> \<open>Reconnect\<close>: what a manager holds after a hub has sent it its history once more.
  \<^item> \<open>Failover\<close>: histories with copies as digests of a new hub; \<open>SplitHistory\<close>: a manager whose history
    contradicts the one its new hub was seeded with.
  \<^item> \<open>Utils\<close>, \<open>IPCNode\<close>, \<open>NodeMirror\<close>, \<open>NodeProperties\<close>: the node; its callbacks interpret
    \<open>topology_listener\<close>, so the table of neighbours follows the manager's table.
  \<^item> \<open>NodeCalls\<close>: every operation on a node as one type of calls, the invariant they keep and what each sends, delivers and asks for.
  \<^item> \<open>SystemRun\<close>: a whole group, one hub and any number of nodes with queues of records between them;
    a step is a handler call of the hub or a locked section of a node. \<open>SystemInvariant\<close> has its
    invariant, \<open>SystemSteps\<close> and \<open>SystemHub\<close> show that the steps of the nodes and of the hub keep it,
    \<open>SystemProperties\<close> has what follows for the users, and runs a group of two nodes. \<open>MemberSteps\<close>
    states what an invariant of one node has to say of its operations as the locale
    \<open>member_contract\<close>, and proves for all of them what the steps and calls of a node keep.
  \<^item> \<open>SystemRestart\<close>: the same group when its hub may die and be started again by a survivor, and
    what the group knows as one log that everybody has a part of. \<open>RestartSteps\<close> has the invariant
    of a node (a second interpretation of \<open>member_contract\<close>), \<open>RestartHub\<close> the invariant of the group
    and the steps of the hub, \<open>RestartReach\<close> starts, departures and the death of the hub.
    \<open>SystemRecovery\<close> has what follows for the users, and runs a group through a restart.
  \<^item> \<open>Lifecycle\<close>: the three \<open>Create\<close> functions, the hub object and the destructor of the node.
  \<^item> \<open>Locks\<close>: the order in which the classes take their mutexes; \<open>SendRace\<close>: \<open>UDSClient::Send\<close>
    against the end of the client's loop; \<open>Teardown\<close>: \<open>Wait\<close> and the destructors of \<open>UDSClient\<close> and
    \<open>UDSServer\<close> against it. All are step relations over several threads.
  \<^item> \<open>SharedMemory\<close>, \<open>SharedMemoryProperties\<close>: \<open>Publisher\<close>, \<open>Subscriber\<close>, \<open>IPCMessage\<close>.
  \<^item> \<open>PingPong\<close>, \<open>StandaloneDemos\<close>, \<open>UnixDemos\<close>, \<open>UnixDemoProperties\<close>: the programs under \<open>cmd/\<close>.

  \<^bold>\<open>What is shown.\<close> The hub keeps its invariant in every run of the server loop in which no number
  received is from \<open>2 ^ 63\<close> on, no internal assertion fails in it but the two on received sequence
  numbers, and what each client is sent describes
  the topology of the history; each handler has its exact effect on the topology. A manager's table
  and history are functions of the log it received; a node publishes to exactly the subscribers in
  it; the two ends compose from the hub's history to the datagrams of a node and from \<open>Publish\<close> to
  the user's callback. In a whole group that runs under any interleaving of the hub and the nodes,
  what a connected node holds and what is on its way to it add up to the topology of the hub's
  history, the group always comes to rest, and then \<open>Publish\<close> on any node reaches every node that has
  a callback for the topic. The same holds for a group whose hub has died, repeatedly and with other
  nodes, but only at orderly moments, once the purge of the latest hub has been made with everybody
  back (\<open>group_recovers\<close>, \<open>group_settles\<close>). The lock order is free of deadlock but for \<open>Unsubscribe\<close>. No request to a
  manager is lost in any interleaving of its threads, and a group that has lost its hub can always
  assemble around a new one, which an up-to-date manager can seed. Every lawful call on a node keeps
  the node well formed and sends, delivers and asks for exactly what the calls before it make of it. The demo programs are traced from \<open>main\<close> to what they print.
  The departures from this are shown too, as properties or lemmas: what \<open>PruneRemoved\<close> does to topics, re-subscription,
  rejoining, live nodes that a new hub purges, requests that overtake one another, a node taken away by another's lost connection,
  the ghosts after a failover, the crashes by sequence number and uid, \<open>Unsubscribe\<close>, the null dereference after a
  failed flush and in the destructor, a group in which no destructor returns, a hub destroyed by its
  own manager's reconnection, a destructor that waits for an unrelated file, the deadlock of long introductions, the leaks and the overflows.

  \<^bold>\<open>Bounds.\<close> The hub counts in 64 bits: its properties assume room for the handler calls of the run
  (\<open>calls_bound\<close>, at most two per client and iteration and one for an accept) and that received
  sequence numbers are below \<open>2 ^ 63\<close>; one property shows what happens at the end of the range.
  The properties that speak of topologies assume that node 1 has not left, because of the misplaced
  parenthesis in \<open>PruneRemoved\<close>. Loops recurse over finite scripts of what the environment does, so
  no fuel is needed; a script that ends before the loop does stands for a thread blocked in \<open>poll\<close>.

  In the model of a group (\<open>SystemRun\<close>) the number of handler calls is bounded by \<open>2 ^ 63\<close>, node ids are
  new and neither 0 nor 1, system calls succeed, and a node goes away before it has connected (unknown to the hub) or while
  the hub takes its connection for that of its node, whatever is on its way then;
  \<open>interrupted_introduction_impersonates\<close> shows what happens otherwise. The code lets the hub die at
  any moment; the model of restarts only at orderly ones (\<open>orderly_failure\<close>): the main threads of the
  survivors wait on their connections or are not connected yet, the hub has read what they sent, and
  the survivor that starts the new one has read all it was sent; the others may have any part of it
  still to read, which is lost. \<open>split_history_leaves_ghosts\<close> shows what happens when a survivor knows
  more than the new hub; requests on their way to a hub that dies are lost. The purge of a restarted
  hub comes when every survivor in the history is back (\<open>all_back\<close>); \<open>early_purge_exiles\<close> shows what
  happens to one that is not. Which survivor gets to start the hub is \<open>HubElection\<close>; that the main thread comes back to the
  top of its loop, as \<open>rejoining\<close> says, is shown on its step relation (\<open>rejoining_steps\<close>).

  \<^bold>\<open>What is not modelled.\<close> Time: the purge may run at any moment, the sleeps of the
  loops and demos are left out. Log output, the tests and the build files; the null tests of the
  demos' \<open>main\<close> functions, the declarations of classes.
  \<open>Backpressure\<close> counts records instead of reading them. A hub that is started from a history with
  copies of messages is covered by the parameter \<open>strict\<close> of \<open>HubInvariant\<close>. Histories that contradict
  one another (two hubs that gave the same number to different messages) are covered for a hub that
  is at least as far as the manager (\<open>SplitHistory\<close>) and message by message (\<open>AddOldMessage_cases\<close>,
  \<open>manager_refines_topology\<close>). \<open>Unsubscribe\<close> is no step of the group, because it never returns
  (\<open>unsubscribe_never_done\<close>). The two demo nodes of \<open>PingPong\<close> have made their calls of \<open>Subscribe\<close> before
  the exchange starts, but not heard of one another; the exits of the two programs are left out.
\<close>

section \<open>Properties across components\<close>

text \<open>
  What a client's thread reads when the hub's messages arrive one per record, \<open>ser\<close> being the
  generated serialisation.
\<close>

definition arriving :: "(TopologyMessage \<Rightarrow> bytes) \<Rightarrow> TopologyMessage list \<Rightarrow> client_poll list" where
  "arriving ser ms = map (\<lambda>m. Client_poll 0 POLLIN (Read_record (ser m))) ms"

lemma received_arriving:
  assumes "\<forall>m\<in>set ms. ser m \<noteq> [] \<and> length (ser m) \<le> UINT16_MAX"
  shows "received (arriving ser ms) = map ser ms" "\<not> ends (arriving ser ms)"
  using assms
  by (induction ms)
    (simp_all add: arriving_def ends_loop_def iteration_data_def socket_data_def)

lemma feed_parse:
  assumes "\<forall>m\<in>set ms. parse (ser m) = m"
  shows "feed (\<lambda>b. f (parse b)) (map ser ms) n = feed f ms n"
  using assms
  by (induction ms arbitrary: n) (auto simp: bind_res_def split: sum.split)

text \<open>
  C7: From hub to publication: take any run of the hub, any connected client of it, and a node
  whose connection thread reads what the hub wrote to that client. The node then publishes to
  exactly the nodes the hub's history has as subscribers of the topic under a non-empty
  address, one datagram each.
\<close>

theorem hub_to_publication:
  assumes run: "hub_run parse rng digest listenFd shutdownFd its = Inr (Running, s, h)"
    and start: "digest_ok strict (calls_bound 0 its) digest" "script_ok (data_ok parse) [] its"
    and c: "c \<in> set (us_clients s)" and one: "1 \<notin> left_ids (ts_history h)"
    and codec: "\<forall>m\<in>set (stream c (ts_wire h)).
      parse (ser m) = m \<and> ser m \<noteq> [] \<and> length (ser m) \<le> UINT16_MAX"
    and addresses: "\<forall>m\<in>set (stream c (ts_wire h)). address_fits m"
      "stable_addresses (stream c (ts_wire h)) Map.empty"
  shows "\<exists>n out. client_MainLoop (Some (\<lambda>b. deliver_update (parse b))) None
      (arriving ser (stream c (ts_wire h))) (u, IPCNode_init groupName nodeName nodeId dataPath) = Inr (u, n) \<and>
    in_out (Publish serialize topic data n) = in_out n @ out \<and>
    set out = {(path_address (nv_address v), serialize \<lparr>mm_topic = topic, mm_inlined = data\<rparr>) |i v.
      topology (ts_history h) i = Some v \<and> topic \<in> nv_subs v \<and> nv_address v \<noteq> []} \<and>
    length out = card {i. \<exists>v. topology (ts_history h) i = Some v \<and> topic \<in> nv_subs v \<and> nv_address v \<noteq> []}"
proof -
  let ?ms = "stream c (ts_wire h)"
  have "digest_ok strict (0 + calls_bound 0 its) digest" using start(1) by simp
  from hub_run_outcome [OF this start(2), of rng listenFd shutdownFd] run
  have "consistent strict s h" using joint_consistent by auto
  with c one have topo: "topology ?ms = topology (ts_history h)"
    by (auto simp: consistent_def view_ok_def)
  have "client_MainLoop (Some (\<lambda>b. deliver_update (parse b))) None (arriving ser ?ms) (u, n0) =
      bind_res (feed deliver_update ?ms n0) (\<lambda>n. Inr (u, n))" for n0
    using codec received_arriving [of ?ms ser] feed_parse [of ?ms parse ser deliver_update]
    by (simp add: client_MainLoop_eq)
  with publishes_to_topology [OF addresses, of groupName nodeName nodeId dataPath serialize topic data]
  show ?thesis by (auto simp: topo)
qed

definition demo_join :: TopologyMessage where
  "demo_join = node_msg 1 9 JOIN 7 ''a'' ''x''"

definition demo_subscribe :: TopologyMessage where
  "demo_subscribe = topic_msg 2 9 SUBSCRIBE 7 ''t'' []"

definition demo_parse :: "bytes \<Rightarrow> TopologyMessage" where
  "demo_parse bs = (if bs = [11] then demo_join else if bs = [12] then demo_subscribe else sample_parse bs)"

definition demo_ser :: "TopologyMessage \<Rightarrow> bytes" where
  "demo_ser m = (if seq m = 1 then [11] else [12])"

definition demo_script :: "uds_iteration list" where
  "demo_script =
     [\<lparr>it_poll = Poll_ready 0 1 [], it_accept = 5, it_records = []\<rparr>,
      \<lparr>it_poll = Poll_ready 0 0 [(5, 1)], it_accept = -1, it_records = [(5, [1])]\<rparr>,
      \<lparr>it_poll = Poll_ready 0 0 [(5, 1)], it_accept = -1, it_records = [(5, [2])]\<rparr>]"

definition demo_hub :: TopologyServer where
  "demo_hub = \<lparr>ts_clients = [(5, \<lparr>cl_seq = 2, cl_nodeId = 7, cl_history = [demo_join, demo_subscribe]\<rparr>)],
     ts_nextSeq = 3, ts_history = [demo_join, demo_subscribe],
     ts_wire = [(5, demo_join), (5, demo_subscribe)], ts_draws = 2\<rparr>"

lemma demo_run:
  "hub_run demo_parse (\<lambda>n. 9) [] 3 4 demo_script =
     Inr (Running, \<lparr>us_clients = [5], us_listenFd = 3, us_shutdownFd = 4, us_event = 0, us_open = [5]\<rparr>, demo_hub)"
  by (simp add: hub_run_def hub_callbacks_def demo_script_def MainLoop_iteration_def UDSServer_init_def
      TopologyServer_init_def accept_client_def Let_def call1_def OnConnect_def emplace_def
      default_Client_def set_emplace_def service_client_def revents_of_def poll_flag_defs read_client_def
      read_into_def UINT16_MAX_def OnData_def demo_parse_def sample_parse_def message_node_id_def
      AddNovelMessage_def IsRedundant_def PruneRemoved_def prune_def leaves_def removed_def
      Broadcast_def demo_hub_def demo_join_def demo_subscribe_def)

lemma hub_to_publication_witness:
  "\<exists>n out. client_MainLoop (Some (\<lambda>b. deliver_update (demo_parse b))) None
      (arriving demo_ser (stream 5 (ts_wire demo_hub))) (UDSClient_init 3 4, IPCNode_init ''g'' ''n'' 9 ''p'') =
        Inr (UDSClient_init 3 4, n) \<and>
    in_out (Publish mm_inlined ''t'' [1] n) = in_out n @ out \<and>
    set out = {(path_address (nv_address v), mm_inlined \<lparr>mm_topic = ''t'', mm_inlined = [1]\<rparr>) |i v.
      topology (ts_history demo_hub) i = Some v \<and> ''t'' \<in> nv_subs v \<and> nv_address v \<noteq> []} \<and>
    length out = card {i. \<exists>v. topology (ts_history demo_hub) i = Some v \<and> ''t'' \<in> nv_subs v \<and> nv_address v \<noteq> []}"
proof (rule hub_to_publication [OF demo_run])
  show "digest_ok True (calls_bound 0 demo_script) []"
    by (simp add: digest_ok_def demo_script_def no_zero_topic_def)
  show "script_ok (data_ok demo_parse) [] demo_script"
    by (simp add: demo_script_def accepted_def data_ok_def demo_parse_def sample_parse_def read_into_def
        UINT16_MAX_def)
  have stream: "stream 5 (ts_wire demo_hub) = [demo_join, demo_subscribe]" by (simp add: demo_hub_def)
  show "\<forall>m\<in>set (stream 5 (ts_wire demo_hub)).
      demo_parse (demo_ser m) = m \<and> demo_ser m \<noteq> [] \<and> length (demo_ser m) \<le> UINT16_MAX"
    by (simp add: stream demo_ser_def demo_parse_def demo_join_def demo_subscribe_def UINT16_MAX_def)
  show "\<forall>m\<in>set (stream 5 (ts_wire demo_hub)). address_fits m"
    by (simp add: stream demo_join_def demo_subscribe_def address_fits_def sun_path_size_def)
      (simp add: node_change_def default_NodeChange_def)
  show "stable_addresses (stream 5 (ts_wire demo_hub)) Map.empty"
    by (simp add: stream demo_join_def demo_subscribe_def joins_def)
qed (simp_all add: demo_hub_def demo_join_def demo_subscribe_def leaves_def)

text \<open>
  C8: From publisher to callback: if the publisher's table has a subscriber of the topic under
  the address another node was created with, and that node's socket is bound to this address
  (\<open>Create\<close> found zero bytes behind the path), then \<open>Publish\<close> sends a datagram to exactly the
  address the node is bound to, and a node that reads it calls the topic's callback with
  exactly the published bytes. The codec must give back what it was given and fit the
  datagram buffer; the payload must not be empty.
\<close>

theorem publish_to_callback:
  assumes pub: "node_inv n1" "nbr_path n1 i = Some (data_path v)" "nbr_subs n1 i = Some S" "topic \<in> S"
    and bound: "length uninitialised = sun_path_size" "drop 18 uninitialised = replicate 90 NUL"
    and sub: "\<forall>t. in_subscriptions n2 t \<noteq> Some None" "in_subscriptions n2 topic = Some (Some f)"
    and codec: "parse (serialize \<lparr>mm_topic = topic, mm_inlined = data\<rparr>) =
        (True, \<lparr>mm_topic = topic, mm_inlined = data\<rparr>)"
      "length (serialize \<lparr>mm_topic = topic, mm_inlined = data\<rparr>) \<le> UINT16_MAX" "data \<noteq> []"
  shows "\<exists>address blob. bind_address uninitialised (data_path v) = Inr address \<and>
    (address, blob) \<in> set (in_out (Publish serialize topic data n1)) \<and>
    node_MainLoop parse [Node_poll 0 POLLIN (Read_record blob)] n2 =
      Inr (None, n2\<lparr>in_delivered := in_delivered n2 @ [(f, data)]\<rparr>)"
proof -
  let ?blob = "serialize \<lparr>mm_topic = topic, mm_inlined = data\<rparr>"
  have path: "data_path v \<noteq> []" by (simp add: data_path_def)
  have "i \<in> recipients topic n1" using pub path by (simp add: recipients_def)
  then have sent: "(path_address (data_path v), ?blob) \<in> set (in_out (Publish serialize topic data n1))"
    using publish_once(2) [OF pub(1), of topic ?blob] pub(2) by (auto simp: Publish_def Let_def)
  have "node_MainLoop parse [Node_poll 0 POLLIN (Read_record ?blob)] n2 =
      Inr (None, n2\<lparr>in_delivered := in_delivered n2 @ [(f, data)]\<rparr>)"
    using node_OnData_eq [OF sub(1), of parse ?blob] sub(2) codec
    by (simp add: node_iteration_def deliveries_def)
  with sent show ?thesis
    using bind_address_zero [OF bound] by blast
qed

definition demo_publisher :: IPCNode where
  "demo_publisher = (IPCNode_init ''g'' ''n'' 9 ''p'')\<lparr>in_nodes := [(7, \<lparr>nb_name = ''a'', nb_id = 7,
     nb_path = data_path 5, nb_subscriptions = [''t''], nb_address = path_address (data_path 5)\<rparr>)]\<rparr>"

lemma publish_to_callback_witness:
  "\<exists>address blob. bind_address zero_path (data_path 5) = Inr address \<and>
    (address, blob) \<in> set (in_out (Publish mm_inlined ''t'' [1, 2] demo_publisher)) \<and>
    node_MainLoop (\<lambda>b. (True, \<lparr>mm_topic = ''t'', mm_inlined = b\<rparr>))
        [Node_poll 0 POLLIN (Read_record blob)]
        ((IPCNode_init ''g'' ''n'' 9 ''p'')\<lparr>in_subscriptions := [''t'' \<mapsto> Some 3]\<rparr>) =
      Inr (None, (IPCNode_init ''g'' ''n'' 9 ''p'')\<lparr>in_subscriptions := [''t'' \<mapsto> Some 3],
        in_delivered := in_delivered ((IPCNode_init ''g'' ''n'' 9 ''p'')\<lparr>in_subscriptions := [''t'' \<mapsto> Some 3]\<rparr>) @
          [(3, [1, 2])]\<rparr>)"
  by (rule publish_to_callback [where i = 7 and S = "{''t''}"])
    (simp_all add: demo_publisher_def IPCNode_init_def node_inv_def neighbour_ok_def nbr_path_def
      nbr_subs_def data_path_def sun_path_size_def zero_path_def UINT16_MAX_def)

text \<open>
  Failover: when the hub is gone, any one of its clients can start the next. The history of
  a manager that has applied what the hub sent it is that log; a server constructed from it
  satisfies the invariant of the hub, numbers on after its last message, and holds the topology
  of the lost hub, which is also the one in the manager's table.
\<close>

theorem failover:
  assumes I: "hub_inv strict k C U h" and c: "c \<in> C" and one: "1 \<notin> left_ids (ts_history h)"
    and room: "unat (last_seq (ts_history h)) + 1 + j < 2 ^ 64" "j < 2 ^ 63"
  shows "\<exists>m. feed (ApplyUpdate all_handlers) (stream c (ts_wire h))
      (TopologyManager_init groupName nodeName nodeId dataPath) = Inr m \<and>
    hub_inv strict j {} {} (TopologyServer_init (tm_history m)) \<and>
    topology (ts_history (TopologyServer_init (tm_history m))) = topology (ts_history h) \<and>
    abs_topology m = topology (ts_history h) \<and>
    (ts_history h \<noteq> [] \<longrightarrow>
      ts_nextSeq (TopologyServer_init (tm_history m)) = last_seq (ts_history h) + 1)"
proof -
  let ?ms = "stream c (ts_wire h)" and ?m0 = "TopologyManager_init groupName nodeName nodeId dataPath"
  have v: "view_ok strict h c" using I c by (auto simp: hub_inv_def)
  have "sort_key seq (rev ?ms) = ?ms" using v by (auto simp: view_ok_def intro: sort_ordered)
  then obtain m where "feed (ApplyUpdate all_handlers) ?ms ?m0 = Inr m" "tm_history m = ?ms"
      "abs_topology m = topology ?ms"
    using apply_log [of ?m0 all_handlers ?ms] apply_history [of ?m0 all_handlers ?ms]
      topology_append [of "[]" ?ms]
    by (auto simp: fold_insort manager_faults_def all_handlers_def outcome_total)
  moreover have "topology ?ms = topology (ts_history h)" using v one by (simp add: view_ok_def)
  ultimately show ?thesis using takeover [OF assms] by auto
qed

lemma failover_witness:
  "\<exists>m. feed (ApplyUpdate all_handlers) (stream 6 (ts_wire departed_hub))
      (TopologyManager_init ''g'' ''n'' 9 ''p'') = Inr m \<and>
    hub_inv True 9 {} {} (TopologyServer_init (tm_history m)) \<and>
    topology (ts_history (TopologyServer_init (tm_history m))) = topology (ts_history departed_hub) \<and>
    abs_topology m = topology (ts_history departed_hub) \<and>
    (ts_history departed_hub \<noteq> [] \<longrightarrow>
      ts_nextSeq (TopologyServer_init (tm_history m)) = last_seq (ts_history departed_hub) + 1)"
  by (rule failover [OF departed_hub_inv])
    (simp_all add: departed_hub_def sample_log_def leaves_def last_seq_def)

end
